(* ===== verification/Prelude.thy ===== *)
theory Prelude
  imports Main "HOL-Library.Word" "HOL-Library.Multiset"
begin

text \<open>
  The vocabulary every component theory shares: the machine types of
  \<^verbatim>\<open>include/taskTypes.h\<close>, results that carry a fault, null-terminated pointer
  chains and the loops that walk them.

  Objects are addressed by natural numbers, a pointer is an option of an address
  (\<open>None\<close> is \<^verbatim>\<open>nullptr\<close>) and the memory of one class is a function from addresses
  to records. A step of the C++ code that has no defined behaviour is a fault.
\<close>

section \<open>Machine types\<close>

type_synonym time = "64 word"
type_synonym uint = "32 word"

type_synonym task_id = nat
type_synonym input_id = nat
type_synonym channel_id = nat
type_synonym event_id = nat
type_synonym group_id = nat

definition endOfTime :: time where
  "endOfTime = - 1"

section \<open>Results and faults\<close>

text \<open>
  \<open>NullPointer\<close>: a member access through \<^verbatim>\<open>nullptr\<close>. \<open>AssertFailed\<close>: an \<^verbatim>\<open>assert\<close>
  that does not hold. \<open>OutOfBounds\<close>: an array access outside the array.
  \<open>SignedOverflow\<close>: a signed subtraction that leaves the range of its type.
  \<open>Diverges\<close>: a loop that never ends.
\<close>

datatype fault = NullPointer | AssertFailed | OutOfBounds | SignedOverflow | Diverges

type_synonym 'a res = "fault + 'a"

definition bindR :: "'a res \<Rightarrow> ('a \<Rightarrow> 'b res) \<Rightarrow> 'b res" where
  "bindR m f = (case m of Inl e \<Rightarrow> Inl e | Inr x \<Rightarrow> f x)"

definition deref :: "'a option \<Rightarrow> ('a \<Rightarrow> 'b res) \<Rightarrow> 'b res" where
  "deref p f = (case p of None \<Rightarrow> Inl NullPointer | Some a \<Rightarrow> f a)"

lemma bindR_Inl [simp]: "bindR (Inl e) f = Inl e"
  by (simp add: bindR_def)

lemma bindR_Inr [simp]: "bindR (Inr x) f = f x"
  by (simp add: bindR_def)

lemma bindR_eq_Inr: "bindR m f = Inr y \<longleftrightarrow> (\<exists>x. m = Inr x \<and> f x = Inr y)"
  by (cases m) auto

lemma deref_None [simp]: "deref None f = Inl NullPointer"
  by (simp add: deref_def)

lemma deref_Some [simp]: "deref (Some a) f = f a"
  by (simp add: deref_def)

lemma bindR_assoc: "bindR (bindR m f) g = bindR m (\<lambda>x. bindR (f x) g)"
  by (cases m) auto

lemma bindR_cong [fundef_cong]:
  "m = n \<Longrightarrow> (\<And>x. n = Inr x \<Longrightarrow> f x = g x) \<Longrightarrow> bindR m f = bindR n g"
  by (cases n) auto

section \<open>Pointer chains\<close>

text \<open>
  \<open>seg h p xs q\<close>: following the link field \<open>h\<close> from \<open>p\<close> visits exactly the addresses
  \<open>xs\<close> and then arrives at \<open>q\<close>. A null-terminated list is \<open>chain h p xs\<close>.
\<close>

primrec seg :: "('a \<Rightarrow> 'a option) \<Rightarrow> 'a option \<Rightarrow> 'a list \<Rightarrow> 'a option \<Rightarrow> bool" where
  "seg h p [] q \<longleftrightarrow> p = q"
| "seg h p (x # xs) q \<longleftrightarrow> p = Some x \<and> seg h (h x) xs q"

abbreviation chain :: "('a \<Rightarrow> 'a option) \<Rightarrow> 'a option \<Rightarrow> 'a list \<Rightarrow> bool" where
  "chain h p xs \<equiv> seg h p xs None"

lemma seg_append: "seg h p (xs @ ys) q \<longleftrightarrow> (\<exists>r. seg h p xs r \<and> seg h r ys q)"
  by (induction xs arbitrary: p) auto

lemma seg_cong: "(\<And>x. x \<in> set xs \<Longrightarrow> h x = h' x) \<Longrightarrow> seg h p xs q = seg h' p xs q"
  by (induction xs arbitrary: p) auto

lemma seg_upd_other [simp]: "a \<notin> set xs \<Longrightarrow> seg (h(a := v)) p xs q = seg h p xs q"
  by (rule seg_cong) auto

lemma chain_None [simp]: "chain h None xs \<longleftrightarrow> xs = []"
  by (cases xs) auto

lemma chain_Some: "chain h (Some a) xs \<longleftrightarrow> (\<exists>ys. xs = a # ys \<and> chain h (h a) ys)"
  by (cases xs) auto

lemma chain_unique: "chain h p xs \<Longrightarrow> chain h p ys \<Longrightarrow> xs = ys"
  by (induction xs arbitrary: p ys) (auto simp: chain_Some)

lemma chain_append_iff:
  "chain h p (xs @ a # ys) \<longleftrightarrow> seg h p xs (Some a) \<and> chain h (h a) ys"
  by (auto simp: seg_append)

lemma chain_distinct: "chain h p xs \<Longrightarrow> distinct xs"
proof (induction xs arbitrary: p)
  case Nil
  then show ?case by simp
next
  case (Cons x xs)
  have "x \<notin> set xs"
  proof
    assume "x \<in> set xs"
    then obtain ys zs where xs: "xs = ys @ x # zs" by (auto simp: in_set_conv_decomp)
    with Cons.prems have "chain h (h x) zs" and "chain h (h x) xs"
      by (auto simp: chain_append_iff)
    then have "zs = xs" by (rule chain_unique)
    with xs show False by simp
  qed
  with Cons show ?case by auto
qed

lemma chain_push: "a \<notin> set xs \<Longrightarrow> chain h p xs \<Longrightarrow> chain (h(a := p)) (Some a) (a # xs)"
  by simp

lemma seg_snoc: "a \<notin> set xs \<Longrightarrow> seg h p xs (Some a) \<Longrightarrow> h a = q \<Longrightarrow> seg h p (xs @ [a]) q"
  by (simp add: seg_append)

text \<open>The pointer to the first and to the last element of a list.\<close>

definition firstp :: "'a list \<Rightarrow> 'a option" where
  "firstp xs = (case xs of [] \<Rightarrow> None | x # _ \<Rightarrow> Some x)"

definition lastp :: "'a list \<Rightarrow> 'a option" where
  "lastp xs = (if xs = [] then None else Some (last xs))"

lemma firstp_simps [simp]: "firstp [] = None" "firstp (x # xs) = Some x"
  by (simp_all add: firstp_def)

lemma firstp_eq_None [simp]: "firstp xs = None \<longleftrightarrow> xs = []"
  by (cases xs) auto

lemma lastp_Nil [simp]: "lastp [] = None"
  by (simp add: lastp_def)

lemma lastp_single [simp]: "lastp [x] = Some x"
  by (simp add: lastp_def)

lemma lastp_snoc [simp]: "lastp (xs @ [x]) = Some x"
  by (simp add: lastp_def)

lemma lastp_Cons_Cons [simp]: "lastp (x # y # xs) = lastp (y # xs)"
  by (simp add: lastp_def)

lemma lastp_append_Cons [simp]: "lastp (xs @ y # ys) = lastp (y # ys)"
  by (simp add: lastp_def)

lemma lastp_append: "lastp (xs @ ys) = (if ys = [] then lastp xs else lastp ys)"
  by (simp add: lastp_def)

lemma lastp_Cons: "lastp (x # xs) = (if xs = [] then Some x else lastp xs)"
  by (simp add: lastp_def)

lemma lastp_eq_None [simp]: "lastp xs = None \<longleftrightarrow> xs = []"
  by (simp add: lastp_def)

lemma lastp_Some: "lastp xs = Some x \<Longrightarrow> \<exists>ys. xs = ys @ [x]"
  by (auto simp: lastp_def split: if_splits) (metis append_butlast_last_id)

lemma lastp_in_set: "lastp xs = Some x \<Longrightarrow> x \<in> set xs"
  by (auto simp: lastp_def split: if_splits)

lemma chain_firstp: "chain h p xs \<Longrightarrow> p = firstp xs"
  by (cases xs) auto

lemma chain_empty_iff: "chain h p xs \<Longrightarrow> p = None \<longleftrightarrow> xs = []"
  by (cases xs) auto

section \<open>Loops over pointer chains\<close>

text \<open>
  \<open>for_ptr g n b p s\<close> is the loop
  \<^verbatim>\<open>for (x = p; (x != nullptr) && g(x); x = n(x)) { b(x); }\<close>
  over a state \<open>s\<close>: the guard, the step and the body read the current state, and the result
  is the pointer at which the loop stopped with the final state. A loop that never stops is
  the fault \<open>Diverges\<close>.
\<close>

partial_function (option) ptr_loop ::
  "('s \<Rightarrow> 'a \<Rightarrow> bool) \<Rightarrow> ('s \<Rightarrow> 'a \<Rightarrow> 'a option) \<Rightarrow> ('a \<Rightarrow> 's \<Rightarrow> 's res) \<Rightarrow>
   'a option \<Rightarrow> 's \<Rightarrow> ('a option \<times> 's) res option" where
  "ptr_loop g n b p s =
     (case p of
        None \<Rightarrow> Some (Inr (None, s))
      | Some a \<Rightarrow>
          if g s a
          then (case b a s of
                  Inl e \<Rightarrow> Some (Inl e)
                | Inr s' \<Rightarrow> ptr_loop g n b (n s' a) s')
          else Some (Inr (Some a, s)))"

declare ptr_loop.simps [code]

definition for_ptr ::
  "('s \<Rightarrow> 'a \<Rightarrow> bool) \<Rightarrow> ('s \<Rightarrow> 'a \<Rightarrow> 'a option) \<Rightarrow> ('a \<Rightarrow> 's \<Rightarrow> 's res) \<Rightarrow>
   'a option \<Rightarrow> 's \<Rightarrow> ('a option \<times> 's) res" where
  "for_ptr g n b p s = (case ptr_loop g n b p s of None \<Rightarrow> Inl Diverges | Some r \<Rightarrow> r)"

lemma for_ptr_None [simp]: "for_ptr g n b None s = Inr (None, s)"
  by (simp add: for_ptr_def ptr_loop.simps)

lemma for_ptr_Some:
  "for_ptr g n b (Some a) s =
     (if g s a then bindR (b a s) (\<lambda>s'. for_ptr g n b (n s' a) s') else Inr (Some a, s))"
  by (subst for_ptr_def, subst ptr_loop.simps)
     (simp add: for_ptr_def bindR_def split: sum.split)

lemma for_ptr_stop: "\<not> g s a \<Longrightarrow> for_ptr g n b (Some a) s = Inr (Some a, s)"
  by (simp add: for_ptr_Some)

lemma for_ptr_step:
  "g s a \<Longrightarrow> b a s = Inr s' \<Longrightarrow> for_ptr g n b (Some a) s = for_ptr g n b (n s' a) s'"
  by (simp add: for_ptr_Some)

text \<open>What every call of the body keeps holds after the loop.\<close>

lemma ptr_loop_keeps:
  fixes b :: "'a \<Rightarrow> 's \<Rightarrow> 's res"
  assumes loop: "ptr_loop g n b p s = Some r" and keep: "\<And>a s s'. P s \<Longrightarrow> b a s = Inr s' \<Longrightarrow> P s'"
  shows "P s \<longrightarrow> (\<forall>q s'. r = Inr (q, s') \<longrightarrow> P s')"
proof -
  define Q :: "('a \<Rightarrow> 's \<Rightarrow> 's res) \<Rightarrow> 's \<Rightarrow> ('a option \<times> 's) res \<Rightarrow> bool"
    where "Q = (\<lambda>c s r. c = b \<longrightarrow> P s \<longrightarrow> (\<forall>q s'. r = Inr (q, s') \<longrightarrow> P s'))"
  have "Q b s r"
  proof (rule ptr_loop.raw_induct [where P = "\<lambda>g n b p s r. Q b s r", OF _ loop])
    fix lp g n c p s and r :: "('a option \<times> 's) res"
    assume IH: "\<And>g n c p s r. lp g n c p s = Some r \<Longrightarrow> Q c s r"
      and r: "(case p of None \<Rightarrow> Some (Inr (None, s))
        | Some a \<Rightarrow> if g s a then case c a s of Inl e \<Rightarrow> Some (Inl e) | Inr s' \<Rightarrow> lp g n c (n s' a) s'
            else Some (Inr (Some a, s))) = Some r"
    show "Q c s r"
    proof (cases "\<exists>a s'. p = Some a \<and> g s a \<and> c a s = Inr s'")
      case True
      then obtain a s' where a: "c a s = Inr s'" "lp g n c (n s' a) s' = Some r" using r by auto
      show ?thesis using IH [OF a(2)] keep a(1) unfolding Q_def by blast
    next
      case False
      then show ?thesis using r unfolding Q_def by (auto split: option.splits if_splits sum.splits)
    qed
  qed
  then show ?thesis by (simp add: Q_def)
qed

lemma for_ptr_keeps:
  assumes "for_ptr g n b p s = Inr (q, s')" and "P s" and "\<And>a s s'. P s \<Longrightarrow> b a s = Inr s' \<Longrightarrow> P s'"
  shows "P s'"
  using assms ptr_loop_keeps [of g n b p s "Inr (q, s')" P] by (auto simp: for_ptr_def split: option.splits)

text \<open>
  A loop whose body changes neither the links it follows nor the guard of an element it has
  still to visit is a fold over the elements before the first one that fails the guard.
\<close>

lemma for_ptr_fold:
  assumes "chain (n s) p xs"
    and "\<And>s a x. n (f a s) x = n s x"
    and "\<And>s a x. x \<noteq> a \<Longrightarrow> g (f a s) x = g s x"
  shows "for_ptr g n (\<lambda>a s. Inr (f a s)) p s =
    Inr (find (\<lambda>x. \<not> g s x) xs, fold f (takeWhile (g s) xs) s)"
  using assms(1)
proof (induction xs arbitrary: p s)
  case Nil
  then show ?case by simp
next
  case (Cons a xs)
  then have p: "p = Some a" and c: "chain (n s) (n s a) xs" by auto
  from Cons.prems have a: "a \<notin> set xs" using chain_distinct by fastforce
  have n: "n (f a s) = n s" by (rule ext) (rule assms(2))
  have g: "g (f a s) x = g s x" if "x \<in> set xs" for x
    using that a by (intro assms(3)) auto
  have "find (\<lambda>x. \<not> g (f a s) x) xs = find (\<lambda>x. \<not> g s x) xs"
    by (rule find_cong) (auto simp: g)
  moreover have "takeWhile (g (f a s)) xs = takeWhile (g s) xs"
    by (rule takeWhile_cong) (auto simp: g)
  ultimately show ?case
    using Cons.IH [of "f a s" "n s a"] c by (simp add: p for_ptr_Some n)
qed

text \<open>A search loop: the body does nothing.\<close>

lemma fold_ignore [simp]: "fold (\<lambda>a s. s) ys s = s"
  by (induction ys) auto

lemma for_ptr_find:
  assumes "chain h p xs"
  shows "for_ptr (\<lambda>s. g) (\<lambda>s. h) (\<lambda>a s. Inr s) p s = Inr (find (\<lambda>x. \<not> g x) xs, s)"
  using for_ptr_fold [where f = "\<lambda>a s. s" and g = "\<lambda>s. g" and n = "\<lambda>s. h"] assms by simp

section \<open>Lists\<close>

lemma filter_eq_takeWhile:
  "sorted_wrt (\<lambda>x y. \<not> P x \<longrightarrow> \<not> P y) xs \<Longrightarrow> filter P xs = takeWhile P xs"
  by (induction xs) (auto simp: filter_empty_conv)

lemma lastp_filter_mono:
  "lastp (filter P xs) = Some y \<Longrightarrow> (\<And>x. Q x \<Longrightarrow> P x) \<Longrightarrow> Q y \<Longrightarrow> lastp (filter Q xs) = Some y"
proof -
  assume l: "lastp (filter P xs) = Some y" and QP: "\<And>x. Q x \<Longrightarrow> P x" and "Q y"
  from l obtain ys where ys: "filter P xs = ys @ [y]" using lastp_Some by metis
  have "filter Q xs = filter Q (filter P xs)"
    using QP by (induction xs) auto
  with ys \<open>Q y\<close> show ?thesis by simp
qed

lemma find_SomeD:
  "find P xs = Some x \<Longrightarrow> \<exists>A B. xs = A @ x # B \<and> P x \<and> (\<forall>a\<in>set A. \<not> P a)"
proof (induction xs)
  case (Cons y ys)
  show ?case
  proof (cases "P y")
    case True
    with Cons.prems show ?thesis by (auto intro: exI [of _ "[]"])
  next
    case False
    with Cons obtain A B where "ys = A @ x # B \<and> P x \<and> (\<forall>a\<in>set A. \<not> P a)" by auto
    with False show ?thesis by (intro exI [of _ "y # A"] exI [of _ B]) simp
  qed
qed simp

lemma find_first: "\<forall>a\<in>set A. \<not> P a \<Longrightarrow> P x \<Longrightarrow> find P (A @ x # B) = Some x"
  by (induction A) auto

lemma remove1_append_notin: "x \<notin> set xs \<Longrightarrow> remove1 x (xs @ ys) = xs @ remove1 x ys"
  by (induction xs) auto

end
