(* ===== verification/SchedulePolicy.thy ===== *)
theory SchedulePolicy
  imports Prelude
begin

text \<open>
  The interface \<^verbatim>\<open>SchedulePolicy\<close> (\<^verbatim>\<open>include/schedulePolicy.h\<close>): the two virtual
  methods \<^verbatim>\<open>queue\<close> and \<^verbatim>\<open>nextTask\<close> that the scheduler calls, and the laws a policy
  promises about the list of waiting tasks. Every policy of \<^verbatim>\<open>src/\<close> is an instance.
\<close>

section \<open>The methods\<close>

text \<open>
  The virtual methods, as the pair of functions the scheduler calls through its reference
  \<^verbatim>\<open>SchedulePolicy& policy\<close>. The management data of the tasks is part of the state.
\<close>

record 'p policy_ops =
  pol_queue :: "task_id \<Rightarrow> 'p \<Rightarrow> ('p \<times> bool) res"
  pol_nextTask :: "'p \<Rightarrow> ('p \<times> task_id option) res"

text \<open>
  \<open>while (nullptr != policy.nextTask());\<close>, the loop of \<^verbatim>\<open>Scheduler::terminate\<close>
  with the tasks it removes.
\<close>

partial_function (option) drain_loop ::
  "('p \<Rightarrow> ('p \<times> task_id option) res) \<Rightarrow> 'p \<Rightarrow> task_id list \<Rightarrow> ('p \<times> task_id list) res option" where
  "drain_loop nextTask p out =
     (case nextTask p of
        Inl e \<Rightarrow> Some (Inl e)
      | Inr r \<Rightarrow>
          (case snd r of
             None \<Rightarrow> Some (Inr (fst r, out))
           | Some t \<Rightarrow> drain_loop nextTask (fst r) (out @ [t])))"

declare drain_loop.simps [code]

definition drain :: "('p \<Rightarrow> ('p \<times> task_id option) res) \<Rightarrow> 'p \<Rightarrow> ('p \<times> task_id list) res" where
  "drain nextTask p =
     (case drain_loop nextTask p [] of None \<Rightarrow> Inl Diverges | Some r \<Rightarrow> r)"

text \<open>A sequence of calls, with what each call returns.\<close>

datatype policy_call = Queue task_id | NextTask

datatype policy_answer = WasEmpty bool | Task "task_id option"

fun run_policy :: "(task_id \<Rightarrow> 'p \<Rightarrow> ('p \<times> bool) res) \<Rightarrow> ('p \<Rightarrow> ('p \<times> task_id option) res) \<Rightarrow>
    'p \<Rightarrow> policy_call list \<Rightarrow> policy_answer list res" where
  "run_policy q nt p [] = Inr []"
| "run_policy q nt p (Queue t # cs) =
     bindR (q t p) (\<lambda>(p', b). bindR (run_policy q nt p' cs) (\<lambda>as. Inr (WasEmpty b # as)))"
| "run_policy q nt p (NextTask # cs) =
     bindR (nt p) (\<lambda>(p', r). bindR (run_policy q nt p' cs) (\<lambda>as. Inr (Task r # as)))"

section \<open>The contract\<close>

text \<open>
  \<open>rep p ts\<close>: in state \<open>p\<close> the tasks \<open>ts\<close> wait, in the order in which they will be
  delivered. \<open>place p t ts\<close>: where a new task goes. \<open>admissible p t\<close>: what the caller
  must ensure, beside that the task is not waiting already.
\<close>

locale schedule_policy =
  fixes queue :: "task_id \<Rightarrow> 'p \<Rightarrow> ('p \<times> bool) res"
    and nextTask :: "'p \<Rightarrow> ('p \<times> task_id option) res"
    and rep :: "'p \<Rightarrow> task_id list \<Rightarrow> bool"
    and place :: "'p \<Rightarrow> task_id \<Rightarrow> task_id list \<Rightarrow> task_id list"
    and admissible :: "'p \<Rightarrow> task_id \<Rightarrow> bool"
  assumes rep_distinct: "rep p ts \<Longrightarrow> distinct ts"
    and mset_place: "mset (place p t ts) = add_mset t (mset ts)"
    and queue_step: "rep p ts \<Longrightarrow> t \<notin> set ts \<Longrightarrow> admissible p t \<Longrightarrow>
      \<exists>p'. queue t p = Inr (p', ts = []) \<and> rep p' (place p t ts)"
    and nextTask_step: "rep p ts \<Longrightarrow> \<exists>p'. nextTask p = Inr (p', firstp ts) \<and> rep p' (tl ts)"
begin

lemma set_place: "set (place p t ts) = insert t (set ts)"
  using mset_place [of p t ts] by (metis set_mset_add_mset_insert set_mset_mset)

lemma drain_loop_rep:
  "rep p ts \<Longrightarrow> \<exists>p'. drain_loop nextTask p out = Some (Inr (p', out @ ts)) \<and> rep p' []"
proof (induction ts arbitrary: p out)
  case Nil
  then obtain p' where "nextTask p = Inr (p', None)" and "rep p' []"
    using nextTask_step by fastforce
  then show ?case by (subst drain_loop.simps) simp
next
  case (Cons t ts)
  then obtain p' where p': "nextTask p = Inr (p', Some t)" "rep p' ts"
    using nextTask_step [OF Cons.prems] by auto
  from Cons.IH [OF p'(2), of "out @ [t]"] show ?case
    by (subst drain_loop.simps) (simp add: p'(1))
qed

lemma drain_delivers: "rep p ts \<Longrightarrow> \<exists>p'. drain nextTask p = Inr (p', ts) \<and> rep p' []"
  using drain_loop_rep [of p ts "[]"] by (auto simp: drain_def)

end

section \<open>Priority policies\<close>

text \<open>Insertion behind every task of the same or a higher key: first come, first served.\<close>

definition enqueue_by :: "('a \<Rightarrow> nat) \<Rightarrow> 'a \<Rightarrow> 'a list \<Rightarrow> 'a list" where
  "enqueue_by k t ts = takeWhile (\<lambda>x. k t \<le> k x) ts @ t # dropWhile (\<lambda>x. k t \<le> k x) ts"

abbreviation descending :: "('a \<Rightarrow> nat) \<Rightarrow> 'a list \<Rightarrow> bool" where
  "descending k \<equiv> sorted_wrt (\<lambda>x y. k y \<le> k x)"

lemma mset_enqueue_by: "mset (enqueue_by k t ts) = add_mset t (mset ts)"
proof -
  have "mset ts = mset (takeWhile (\<lambda>x. k t \<le> k x) ts) + mset (dropWhile (\<lambda>x. k t \<le> k x) ts)"
    by (metis mset_append takeWhile_dropWhile_id)
  then show ?thesis by (simp add: enqueue_by_def)
qed

lemma set_enqueue_by: "set (enqueue_by k t ts) = insert t (set ts)"
  using mset_enqueue_by [of k t ts] by (metis set_mset_add_mset_insert set_mset_mset)

lemma descending_dropWhile:
  "descending k ts \<Longrightarrow> x \<in> set (dropWhile (\<lambda>x. m \<le> k x) ts) \<Longrightarrow> k x < m"
  by (induction ts) (auto split: if_splits simp: not_le)

lemma descending_enqueue_by: "descending k ts \<Longrightarrow> descending k (enqueue_by k t ts)"
proof -
  assume d: "descending k ts"
  let ?l = "takeWhile (\<lambda>x. k t \<le> k x) ts" and ?r = "dropWhile (\<lambda>x. k t \<le> k x) ts"
  from d have "descending k (?l @ ?r)" by simp
  then have l: "descending k ?l" and r: "descending k ?r"
    unfolding sorted_wrt_append by auto
  have lt: "k x < k t" if "x \<in> set ?r" for x
    using d that by (rule descending_dropWhile)
  have ge: "k t \<le> k x" if "x \<in> set ?l" for x
    using that by (auto dest: set_takeWhileD)
  have "descending k (t # ?r)"
    using r lt by (simp add: less_imp_le)
  moreover have "k y \<le> k x" if "x \<in> set ?l" "y \<in> set (t # ?r)" for x y
    using ge [OF that(1)] lt [of y] that(2) by fastforce
  ultimately show ?thesis
    using l unfolding enqueue_by_def sorted_wrt_append by blast
qed

lemma filter_enqueue_by:
  "descending k ts \<Longrightarrow> filter (\<lambda>x. k x = i) (enqueue_by k t ts) =
    filter (\<lambda>x. k x = i) ts @ (if k t = i then [t] else [])"
proof -
  assume d: "descending k ts"
  let ?P = "\<lambda>x. k x = i" and ?l = "takeWhile (\<lambda>x. k t \<le> k x) ts"
    and ?r = "dropWhile (\<lambda>x. k t \<le> k x) ts"
  have split: "filter ?P ts = filter ?P ?l @ filter ?P ?r"
    by (simp flip: filter_append)
  have "filter ?P ?r = []" if "k t = i"
    using descending_dropWhile [OF d] that by (fastforce simp: filter_empty_conv)
  then show ?thesis by (auto simp: enqueue_by_def split)
qed

text \<open>What a priority policy answers, stated on the list of waiting tasks alone.\<close>

fun spec_answers :: "(task_id \<Rightarrow> nat) \<Rightarrow> task_id list \<Rightarrow> policy_call list \<Rightarrow> policy_answer list" where
  "spec_answers k ts [] = []"
| "spec_answers k ts (Queue t # cs) = WasEmpty (ts = []) # spec_answers k (enqueue_by k t ts) cs"
| "spec_answers k ts (NextTask # cs) = Task (firstp ts) # spec_answers k (tl ts) cs"

text \<open>The caller never queues a task that is still waiting.\<close>

fun calls_ok :: "(task_id \<Rightarrow> nat) \<Rightarrow> task_id list \<Rightarrow> policy_call list \<Rightarrow> bool" where
  "calls_ok k ts [] \<longleftrightarrow> True"
| "calls_ok k ts (Queue t # cs) \<longleftrightarrow> t \<notin> set ts \<and> calls_ok k (enqueue_by k t ts) cs"
| "calls_ok k ts (NextTask # cs) \<longleftrightarrow> calls_ok k (tl ts) cs"

locale priority_policy = schedule_policy +
  fixes key :: "'a \<Rightarrow> task_id \<Rightarrow> nat"
  assumes place_key: "place p t ts = enqueue_by (key p) t ts"
    and always_admissible: "admissible p t"
    and key_queue: "queue t p = Inr (p', b) \<Longrightarrow> key p' = key p"
    and key_nextTask: "nextTask p = Inr (p', r) \<Longrightarrow> key p' = key p"
    and rep_descending: "rep p ts \<Longrightarrow> descending (key p) ts"
begin

lemma run_policy_spec:
  "rep p ts \<Longrightarrow> calls_ok (key p) ts cs \<Longrightarrow>
    run_policy queue nextTask p cs = Inr (spec_answers (key p) ts cs)"
proof (induction "key p" ts cs arbitrary: p rule: spec_answers.induct)
  case (1 ts)
  then show ?case by simp
next
  case (2 ts t cs)
  then obtain p' where p': "queue t p = Inr (p', ts = [])" "rep p' (enqueue_by (key p) t ts)"
    using queue_step [of p ts t] always_admissible by (auto simp: place_key)
  then have "key p' = key p" by (blast dest: key_queue)
  with 2 p' show ?case by simp
next
  case (3 ts cs)
  then obtain p' where p': "nextTask p = Inr (p', firstp ts)" "rep p' (tl ts)"
    using nextTask_step [of p ts] by auto
  then have "key p' = key p" by (blast dest: key_nextTask)
  with 3 p' show ?case by simp
qed

lemma nextTask_highest:
  assumes "rep p ts" and "nextTask p = Inr (p', Some t)"
  shows "t \<in> set ts \<and> (\<forall>u\<in>set ts. key p u \<le> key p t)"
proof -
  from nextTask_step [OF assms(1)] assms(2) have f: "firstp ts = Some t" by auto
  then obtain us where "ts = t # us" by (cases ts) auto
  with rep_descending [OF assms(1)] show ?thesis by auto
qed

end

end
