(* ===== verification/PolicyFifo.thy ===== *)
theory PolicyFifo
  imports SchedulePolicy
begin

text \<open>
  \<^verbatim>\<open>SchedulePolicyFifo\<close> (\<^verbatim>\<open>src/schedulePolicyFifo.cpp\<close>): the run queue is a singly
  linked list threaded through the management data of the tasks. The list of waiting tasks
  is recovered from the links, and the policy is shown to deliver first in, first out.
\<close>

section \<open>State and operations\<close>

text \<open>\<open>fifo_next\<close> is the field \<^verbatim>\<open>next\<close> of the management data of each task.\<close>

record fifo_policy =
  fifo_head :: "task_id option"
  fifo_tail :: "task_id option"
  fifo_next :: "task_id \<Rightarrow> task_id option"

definition fifo_init :: fifo_policy where
  "fifo_init = \<lparr>fifo_head = None, fifo_tail = None, fifo_next = (\<lambda>_. None)\<rparr>"

definition fifo_queue :: "task_id \<Rightarrow> fifo_policy \<Rightarrow> (fifo_policy \<times> bool) res" where
  "fifo_queue t p =
     (let p0 = p\<lparr>fifo_next := (fifo_next p)(t := None)\<rparr>;
          isEmpty = (fifo_head p0 = None)
      in bindR
           (if isEmpty then Inr (p0\<lparr>fifo_head := Some t\<rparr>)
            else deref (fifo_tail p0) (\<lambda>l. Inr (p0\<lparr>fifo_next := (fifo_next p0)(l := Some t)\<rparr>)))
           (\<lambda>p1. Inr (p1\<lparr>fifo_tail := Some t\<rparr>, isEmpty)))"

definition fifo_nextTask :: "fifo_policy \<Rightarrow> (fifo_policy \<times> task_id option) res" where
  "fifo_nextTask p =
     (let r = fifo_head p
      in case r of
           None \<Rightarrow> Inr (p, r)
         | Some h \<Rightarrow>
             let p1 = p\<lparr>fifo_head := fifo_next p h\<rparr>
             in if fifo_head p1 = None then Inr (p1\<lparr>fifo_tail := None\<rparr>, r) else Inr (p1, r))"

definition fifo_ops :: "fifo_policy policy_ops" where
  "fifo_ops = \<lparr>pol_queue = fifo_queue, pol_nextTask = fifo_nextTask\<rparr>"

section \<open>The contract\<close>

definition fifo_rep :: "fifo_policy \<Rightarrow> task_id list \<Rightarrow> bool" where
  "fifo_rep p ts \<longleftrightarrow> chain (fifo_next p) (fifo_head p) ts \<and> fifo_tail p = lastp ts"

lemma fifo_rep_init: "fifo_rep fifo_init []"
  by (simp add: fifo_rep_def fifo_init_def)

lemma fifo_queue_rep:
  assumes "fifo_rep p ts" and t: "t \<notin> set ts"
  shows "\<exists>p'. fifo_queue t p = Inr (p', ts = []) \<and> fifo_rep p' (ts @ [t])"
proof (cases ts rule: rev_cases)
  case Nil
  with assms show ?thesis by (simp add: fifo_rep_def fifo_queue_def)
next
  case (snoc us l)
  with assms have c: "chain (fifo_next p) (fifo_head p) (us @ [l])" and l: "fifo_tail p = Some l"
    by (auto simp: fifo_rep_def)
  have "l \<notin> set us" using chain_distinct [OF c] by simp
  moreover have "fifo_head p \<noteq> None" using chain_empty_iff [OF c] by simp
  ultimately show ?thesis
    using c t snoc by (auto simp: fifo_rep_def fifo_queue_def l seg_append Let_def)
qed

lemma fifo_nextTask_rep:
  assumes "fifo_rep p ts"
  shows "\<exists>p'. fifo_nextTask p = Inr (p', firstp ts) \<and> fifo_rep p' (tl ts)"
proof (cases ts)
  case Nil
  with assms show ?thesis by (auto simp: fifo_rep_def fifo_nextTask_def)
next
  case (Cons t us)
  with assms show ?thesis
    by (cases us) (auto simp: fifo_rep_def fifo_nextTask_def lastp_Cons)
qed

interpretation fifo: schedule_policy fifo_queue fifo_nextTask fifo_rep
  "\<lambda>p t ts. ts @ [t]" "\<lambda>p t. True"
proof unfold_locales
  fix p ts t
  assume "fifo_rep p ts" and "t \<notin> set ts"
  then show "\<exists>p'. fifo_queue t p = Inr (p', ts = []) \<and> fifo_rep p' (ts @ [t])"
    by (rule fifo_queue_rep)
next
  fix p ts
  assume "fifo_rep p ts"
  then show "\<exists>p'. fifo_nextTask p = Inr (p', firstp ts) \<and> fifo_rep p' (tl ts)"
    by (rule fifo_nextTask_rep)
qed (auto simp: fifo_rep_def chain_distinct)

section \<open>Behaviour\<close>

fun fifo_queue_all :: "task_id list \<Rightarrow> fifo_policy \<Rightarrow> fifo_policy res" where
  "fifo_queue_all [] p = Inr p"
| "fifo_queue_all (t # ts) p = bindR (fifo_queue t p) (\<lambda>(p', b). fifo_queue_all ts p')"

lemma fifo_queue_all_rep:
  "fifo_rep p us \<Longrightarrow> distinct (us @ ts) \<Longrightarrow> \<exists>p'. fifo_queue_all ts p = Inr p' \<and> fifo_rep p' (us @ ts)"
proof (induction ts arbitrary: p us)
  case Nil
  then show ?case by simp
next
  case (Cons t ts)
  then obtain p1 where p1: "fifo_queue t p = Inr (p1, us = [])" "fifo_rep p1 (us @ [t])"
    using fifo_queue_rep [of p us t] by auto
  with Cons.IH [of p1 "us @ [t]"] Cons.prems show ?case by simp
qed

text \<open>Any number of different tasks, queued one after the other into the empty FIFO run queue, is
  delivered completely and in the order of their arrival.\<close>
theorem fifo_delivers_in_order:
  assumes "distinct ts"
  shows "\<exists>p p'. fifo_queue_all ts fifo_init = Inr p \<and> drain fifo_nextTask p = Inr (p', ts) \<and> fifo_rep p' []"
proof -
  obtain p where "fifo_queue_all ts fifo_init = Inr p" "fifo_rep p ts"
    using fifo_queue_all_rep [OF fifo_rep_init, of ts] assms by auto
  then show ?thesis using fifo.drain_delivers by blast
qed

theorem fifo_delivers_in_order_witness:
  "\<exists>p p'. fifo_queue_all [3, 1, 2] fifo_init = Inr p \<and> drain fifo_nextTask p = Inr (p', [3, 1, 2])"
  using fifo_delivers_in_order [of "[3, 1, 2]"] by auto

end
