(* ===== verification/PolicyLifo.thy ===== *)
theory PolicyLifo
  imports SchedulePolicy
begin

text \<open>
  \<^verbatim>\<open>SchedulePolicyLifo\<close> (\<^verbatim>\<open>src/schedulePolicyLifo.cpp\<close>): a stack threaded through the
  management data. The policy writes the link of a task only when the stack is not empty,
  so it keeps its contract only for a task whose link is null in that case.
\<close>

section \<open>State and operations\<close>

record lifo_policy =
  lifo_head :: "task_id option"
  lifo_next :: "task_id \<Rightarrow> task_id option"

definition lifo_init :: lifo_policy where
  "lifo_init = \<lparr>lifo_head = None, lifo_next = (\<lambda>_. None)\<rparr>"

definition lifo_queue :: "task_id \<Rightarrow> lifo_policy \<Rightarrow> (lifo_policy \<times> bool) res" where
  "lifo_queue t p =
     (if lifo_head p \<noteq> None
      then Inr (p\<lparr>lifo_next := (lifo_next p)(t := lifo_head p), lifo_head := Some t\<rparr>, False)
      else Inr (p\<lparr>lifo_head := Some t\<rparr>, True))"

definition lifo_nextTask :: "lifo_policy \<Rightarrow> (lifo_policy \<times> task_id option) res" where
  "lifo_nextTask p =
     (let r = lifo_head p
      in case r of
           None \<Rightarrow> Inr (p, r)
         | Some h \<Rightarrow> Inr (p\<lparr>lifo_head := lifo_next p h\<rparr>, r))"

definition lifo_ops :: "lifo_policy policy_ops" where
  "lifo_ops = \<lparr>pol_queue = lifo_queue, pol_nextTask = lifo_nextTask\<rparr>"

section \<open>The contract\<close>

definition lifo_rep :: "lifo_policy \<Rightarrow> task_id list \<Rightarrow> bool" where
  "lifo_rep p ts \<longleftrightarrow> chain (lifo_next p) (lifo_head p) ts"

definition lifo_admissible :: "lifo_policy \<Rightarrow> task_id \<Rightarrow> bool" where
  "lifo_admissible p t \<longleftrightarrow> lifo_head p \<noteq> None \<or> lifo_next p t = None"

lemma lifo_rep_init: "lifo_rep lifo_init []"
  by (simp add: lifo_rep_def lifo_init_def)

interpretation lifo: schedule_policy lifo_queue lifo_nextTask lifo_rep
  "\<lambda>p t ts. t # ts" lifo_admissible
proof unfold_locales
  fix p t ts
  assume r: "lifo_rep p ts" and t: "t \<notin> set ts" and a: "lifo_admissible p t"
  then show "\<exists>p'. lifo_queue t p = Inr (p', ts = []) \<and> lifo_rep p' (t # ts)"
    by (cases ts) (auto simp: lifo_rep_def lifo_queue_def lifo_admissible_def)
next
  fix p ts
  assume "lifo_rep p ts"
  then show "\<exists>p'. lifo_nextTask p = Inr (p', firstp ts) \<and> lifo_rep p' (tl ts)"
    by (cases ts) (auto simp: lifo_rep_def lifo_nextTask_def)
qed (auto simp: lifo_rep_def chain_distinct)

section \<open>Behaviour\<close>

text \<open>
  The link a task got on an earlier run survives \<^verbatim>\<open>nextTask\<close>, and a queue operation on the
  empty stack makes whatever hangs on it waiting again.
\<close>

lemma lifo_queue_stale:
  assumes "lifo_head p = None" and "lifo_next p t = Some u"
  shows "\<exists>p1 p2. lifo_queue t p = Inr (p1, True) \<and> lifo_nextTask p1 = Inr (p2, Some t) \<and>
    lifo_head p2 = Some u"
  using assms by (simp add: lifo_queue_def lifo_nextTask_def)

text \<open>The LIFO policy keeps its contract for a task that was never queued before or when the stack
  is not empty: it goes on top of the waiting tasks and is delivered first.\<close>
theorem lifo_delivers_last_first:
  assumes "lifo_rep p ts" and "t \<notin> set ts" and "lifo_admissible p t"
  shows "\<exists>p1 p2. lifo_queue t p = Inr (p1, ts = []) \<and> lifo_nextTask p1 = Inr (p2, Some t) \<and> lifo_rep p2 ts"
proof -
  obtain p1 where "lifo_queue t p = Inr (p1, ts = [])" "lifo_rep p1 (t # ts)"
    using lifo.queue_step [OF assms] by blast
  then show ?thesis using lifo.nextTask_step [of p1 "t # ts"] by auto
qed

theorem lifo_delivers_last_first_witness:
  "\<exists>p1 p2. lifo_queue 7 lifo_init = Inr (p1, True) \<and> lifo_nextTask p1 = Inr (p2, Some 7) \<and> lifo_rep p2 []"
proof -
  have "lifo_admissible lifo_init 7" by (simp add: lifo_admissible_def lifo_init_def)
  then show ?thesis using lifo_delivers_last_first [OF lifo_rep_init, of 7] by simp
qed

text \<open>The stale link of a task that was delivered and is queued again into the empty stack delivers a
  task that is not waiting: after the tasks 1 and 2 have both been delivered, queueing only
  task 2 again delivers task 2 and then task 1 once more.\<close>
theorem lifo_redelivers:
  "run_policy lifo_queue lifo_nextTask lifo_init
     [Queue 1, Queue 2, NextTask, NextTask, Queue 2, NextTask, NextTask] =
   Inr [WasEmpty True, WasEmpty False, Task (Some 2), Task (Some 1), WasEmpty True,
        Task (Some 2), Task (Some 1)]"
  by (simp add: lifo_init_def lifo_queue_def lifo_nextTask_def Let_def)

end
