(* ===== verification/PolicyPriority.thy ===== *)
theory PolicyPriority
  imports SchedulePolicy
begin

text \<open>
  \<^verbatim>\<open>SchedulePolicyPriority\<close> (\<^verbatim>\<open>src/schedulePolicyPriority.cpp\<close>): one linked list kept
  in descending priority by insertion, first in first out among equal priorities.
\<close>

section \<open>State and operations\<close>

text \<open>\<open>prio_settings\<close> and \<open>prio_next\<close> are the management data of each task.\<close>

record prio_policy =
  prio_head :: "task_id option"
  prio_settings :: "task_id \<Rightarrow> uint"
  prio_next :: "task_id \<Rightarrow> task_id option"

definition prio_init :: "(task_id \<Rightarrow> uint) \<Rightarrow> prio_policy" where
  "prio_init s = \<lparr>prio_head = None, prio_settings = s, prio_next = (\<lambda>_. None)\<rparr>"

text \<open>
  The search loop: \<open>previous\<close> is the loop's state, \<open>next\<close> its pointer, and the loop goes on
  while the priority of the new task is not above the one of \<open>next\<close>.
\<close>

definition prio_search :: "task_id \<Rightarrow> prio_policy \<Rightarrow> task_id \<Rightarrow> (task_id option \<times> task_id) res" where
  "prio_search t p h =
     for_ptr (\<lambda>previous n. prio_settings p t \<le> prio_settings p n) (\<lambda>previous n. prio_next p n)
       (\<lambda>n previous. Inr n) (prio_next p h) h"

definition prio_queue :: "task_id \<Rightarrow> prio_policy \<Rightarrow> (prio_policy \<times> bool) res" where
  "prio_queue t p =
     (case prio_head p of
        Some h \<Rightarrow>
          if prio_settings p t > prio_settings p h
          then Inr (p\<lparr>prio_next := (prio_next p)(t := Some h), prio_head := Some t\<rparr>, False)
          else bindR (prio_search t p h) (\<lambda>(n, previous).
            Inr (p\<lparr>prio_next := ((prio_next p)(t := n))(previous := Some t)\<rparr>, False))
      | None \<Rightarrow> Inr (p\<lparr>prio_next := (prio_next p)(t := None), prio_head := Some t\<rparr>, True))"

definition prio_nextTask :: "prio_policy \<Rightarrow> (prio_policy \<times> task_id option) res" where
  "prio_nextTask p =
     (let r = prio_head p
      in case r of
           None \<Rightarrow> Inr (p, r)
         | Some h \<Rightarrow> Inr (p\<lparr>prio_head := prio_next p h\<rparr>, r))"

definition prio_ops :: "prio_policy policy_ops" where
  "prio_ops = \<lparr>pol_queue = prio_queue, pol_nextTask = prio_nextTask\<rparr>"

section \<open>The contract\<close>

definition prio_key :: "prio_policy \<Rightarrow> task_id \<Rightarrow> nat" where
  "prio_key p t = unat (prio_settings p t)"

lemma prio_key_update [simp]:
  "prio_key (p\<lparr>prio_next := n\<rparr>) = prio_key p" "prio_key (p\<lparr>prio_head := h\<rparr>) = prio_key p"
  by (simp_all add: prio_key_def fun_eq_iff)

definition prio_rep :: "prio_policy \<Rightarrow> task_id list \<Rightarrow> bool" where
  "prio_rep p ts \<longleftrightarrow> chain (prio_next p) (prio_head p) ts \<and> descending (prio_key p) ts"

lemma prio_rep_init: "prio_rep (prio_init s) []"
  by (simp add: prio_rep_def prio_init_def)

text \<open>The loop ends at the last task that is not overtaken, with the rest behind it.\<close>

lemma prio_loop_spec:
  "chain nx q xs \<Longrightarrow>
    for_ptr (\<lambda>prev n. P n) (\<lambda>prev n. nx n) (\<lambda>n prev. Inr n) q h =
      Inr (firstp (dropWhile P xs), last (h # takeWhile P xs))"
  by (induction xs arbitrary: q h) (auto simp: for_ptr_Some)

lemma prio_queue_rep:
  assumes r: "prio_rep p ts" and t: "t \<notin> set ts"
  shows "\<exists>p'. prio_queue t p = Inr (p', ts = []) \<and> prio_rep p' (enqueue_by (prio_key p) t ts) \<and>
    prio_settings p' = prio_settings p"
proof (cases ts)
  case Nil
  with r show ?thesis
    by (simp add: prio_rep_def prio_queue_def enqueue_by_def prio_key_def)
next
  case (Cons h us)
  let ?P = "\<lambda>x. prio_settings p t \<le> prio_settings p x"
  have P: "?P = (\<lambda>x. prio_key p t \<le> prio_key p x)"
    by (simp add: prio_key_def word_le_nat_alt fun_eq_iff)
  from r Cons have head: "prio_head p = Some h" and c: "chain (prio_next p) (prio_next p h) us"
    by (auto simp: prio_rep_def)
  have d: "descending (prio_key p) (enqueue_by (prio_key p) t ts)"
    using r by (simp add: prio_rep_def descending_enqueue_by)
  have dist: "distinct ts" using r chain_distinct by (auto simp: prio_rep_def)
  show ?thesis
  proof (cases "?P h")
    case False
    with Cons t r d show ?thesis
      by (auto simp: prio_queue_def head prio_rep_def enqueue_by_def prio_key_def
          word_le_nat_alt not_le word_less_nat_alt)
  next
    case True
    let ?l = "takeWhile ?P us" and ?r = "dropWhile ?P us"
    have s: "prio_search t p h = Inr (firstp ?r, last (h # ?l))"
      unfolding prio_search_def by (rule prio_loop_spec [OF c])
    define b where "b = last (h # ?l)"
    define as where "as = butlast (h # ?l)"
    have hl: "h # ?l = as @ [b]" by (simp add: as_def b_def)
    have ts: "ts = as @ b # ?r"
      using hl Cons by (metis append_Cons append_Nil append_assoc takeWhile_dropWhile_id)
    have e: "enqueue_by (prio_key p) t ts = as @ b # t # ?r"
      using True hl Cons by (simp add: enqueue_by_def P [symmetric])
    let ?n = "((prio_next p)(t := firstp ?r))(b := Some t)"
    have "chain (prio_next p) (prio_head p) (as @ b # ?r)"
      using r ts by (simp add: prio_rep_def)
    then have c1: "seg (prio_next p) (prio_head p) as (Some b)" and c2: "chain (prio_next p) (prio_next p b) ?r"
      by (auto simp: seg_append)
    have nin: "t \<notin> set as" "b \<notin> set as" "t \<noteq> b" "t \<notin> set ?r" "b \<notin> set ?r"
      using t dist by (auto simp: ts)
    have "prio_next p b = firstp ?r" using c2 by (rule chain_firstp)
    then have "chain ?n (prio_head p) (as @ b # t # ?r)"
      using c1 c2 nin by (simp add: seg_append)
    with d have "prio_rep (p\<lparr>prio_next := ?n\<rparr>) (enqueue_by (prio_key p) t ts)"
      by (simp add: prio_rep_def e)
    moreover have "prio_queue t p = Inr (p\<lparr>prio_next := ?n\<rparr>, False)"
      using True s [folded b_def] by (simp add: prio_queue_def head not_less)
    ultimately show ?thesis using Cons by simp
  qed
qed

lemma prio_nextTask_rep:
  assumes "prio_rep p ts"
  shows "\<exists>p'. prio_nextTask p = Inr (p', firstp ts) \<and> prio_rep p' (tl ts)"
  using assms by (cases ts) (auto simp: prio_rep_def prio_nextTask_def prio_key_def)

lemma prio_queue_settings: "prio_queue t p = Inr (p', b) \<Longrightarrow> prio_settings p' = prio_settings p"
  by (auto simp: prio_queue_def bindR_eq_Inr split: option.splits if_splits)

lemma prio_nextTask_settings: "prio_nextTask p = Inr (p', r) \<Longrightarrow> prio_settings p' = prio_settings p"
  by (auto simp: prio_nextTask_def Let_def split: option.splits)

interpretation prio: priority_policy prio_queue prio_nextTask prio_rep
  "\<lambda>p t ts. enqueue_by (prio_key p) t ts" "\<lambda>p t. True" prio_key
proof unfold_locales
  fix p ts t
  assume "prio_rep p ts" and "t \<notin> set ts"
  then show "\<exists>p'. prio_queue t p = Inr (p', ts = []) \<and> prio_rep p' (enqueue_by (prio_key p) t ts)"
    using prio_queue_rep by blast
next
  fix p ts
  assume "prio_rep p ts"
  then show "\<exists>p'. prio_nextTask p = Inr (p', firstp ts) \<and> prio_rep p' (tl ts)"
    by (rule prio_nextTask_rep)
qed (auto simp: prio_rep_def chain_distinct mset_enqueue_by prio_key_def fun_eq_iff
       dest: prio_queue_settings prio_nextTask_settings)

section \<open>Behaviour\<close>

text \<open>C33: Under any sequence of calls in which no waiting task is queued again, the priority policy
  answers as the abstract priority queue does: the first of the tasks of the highest waiting
  priority is delivered, equal priorities in the order of their arrival.\<close>
theorem prio_answers:
  assumes "calls_ok (\<lambda>t. unat (s t)) [] cs"
  shows "run_policy prio_queue prio_nextTask (prio_init s) cs = Inr (spec_answers (\<lambda>t. unat (s t)) [] cs)"
proof -
  have key: "prio_key (prio_init s) = (\<lambda>t. unat (s t))" by (simp add: prio_key_def prio_init_def fun_eq_iff)
  show ?thesis using prio.run_policy_spec [OF prio_rep_init [of s]] assms unfolding key by blast
qed

theorem prio_answers_witness:
  "run_policy prio_queue prio_nextTask (prio_init (\<lambda>t. if t = 2 then 5 else 1))
     [Queue 1, Queue 3, Queue 2, NextTask, NextTask, NextTask, NextTask] =
   Inr [WasEmpty True, WasEmpty False, WasEmpty False, Task (Some 2), Task (Some 1), Task (Some 3), Task None]"
  by (subst prio_answers) (simp_all add: enqueue_by_def)

end
