(* ===== verification/PolicyPSlot.thy ===== *)
theory PolicyPSlot
  imports PolicyPriority
begin

text \<open>
  \<^verbatim>\<open>SchedulePolicyPSlot\<close> (\<^verbatim>\<open>src/schedulePolicyPSlot.cpp\<close>): an array of FIFO slots, one
  per priority, and the index of the highest slot in use. Priorities beyond the array are
  limited to the last slot. The policy meets the contract of a priority policy.
\<close>

section \<open>State and operations\<close>

record fifo_slot =
  slot_head :: "task_id option"
  slot_tail :: "task_id option"

text \<open>
  \<open>ps_slots\<close> is the array behind \<^verbatim>\<open>prioritySlots\<close>; \<open>ps_priority\<close> and \<open>ps_next\<close> are the
  management data of each task.
\<close>

record pslot_policy =
  ps_slots :: "fifo_slot list"
  highestPriorSlot :: uint
  maxPrioritySlot :: uint
  ps_priority :: "task_id \<Rightarrow> uint"
  ps_next :: "task_id \<Rightarrow> task_id option"

definition empty_slot :: fifo_slot where
  "empty_slot = \<lparr>slot_head = None, slot_tail = None\<rparr>"

definition pslot_init :: "uint \<Rightarrow> (task_id \<Rightarrow> uint) \<Rightarrow> pslot_policy" where
  "pslot_init n prio = \<lparr>ps_slots = replicate (unat n) empty_slot, highestPriorSlot = n,
     maxPrioritySlot = n, ps_priority = prio, ps_next = (\<lambda>_. None)\<rparr>"

text \<open>An access \<^verbatim>\<open>prioritySlots[i]\<close>.\<close>

definition slot_at :: "pslot_policy \<Rightarrow> uint \<Rightarrow> (fifo_slot \<Rightarrow> 'b res) \<Rightarrow> 'b res" where
  "slot_at p i f = (if unat i < length (ps_slots p) then f (ps_slots p ! unat i) else Inl OutOfBounds)"

definition set_slot :: "uint \<Rightarrow> fifo_slot \<Rightarrow> pslot_policy \<Rightarrow> pslot_policy" where
  "set_slot i s p = p\<lparr>ps_slots := (ps_slots p)[unat i := s]\<rparr>"

text \<open>The priority limited to the slots there are.\<close>

definition pslot_of :: "pslot_policy \<Rightarrow> task_id \<Rightarrow> uint" where
  "pslot_of p t = (if ps_priority p t \<ge> maxPrioritySlot p then maxPrioritySlot p - 1 else ps_priority p t)"

definition pslot_queue :: "task_id \<Rightarrow> pslot_policy \<Rightarrow> (pslot_policy \<times> bool) res" where
  "pslot_queue t p =
     (let p0 = p\<lparr>ps_next := (ps_next p)(t := None)\<rparr>;
          priority = pslot_of p0 t;
          isEmpty = (highestPriorSlot p0 = maxPrioritySlot p0);
          p1 = (if isEmpty \<or> priority > highestPriorSlot p0 then p0\<lparr>highestPriorSlot := priority\<rparr> else p0)
      in slot_at p1 priority (\<lambda>s.
           bindR
             (if slot_head s = None then Inr (set_slot priority (s\<lparr>slot_head := Some t\<rparr>) p1)
              else deref (slot_tail s) (\<lambda>l. Inr (p1\<lparr>ps_next := (ps_next p1)(l := Some t)\<rparr>)))
             (\<lambda>p2. slot_at p2 priority (\<lambda>s2.
                Inr (set_slot priority (s2\<lparr>slot_tail := Some t\<rparr>) p2, isEmpty)))))"

text \<open>
  The loop that looks for the next slot in use, from slot \<open>h\<close> downwards; running below
  slot 0 sets the index to the number of slots, which ends the loop.
\<close>

function pslot_lower :: "fifo_slot list \<Rightarrow> uint \<Rightarrow> uint \<Rightarrow> uint res" where
  "pslot_lower sl mx h =
     (if h < mx
      then if unat h < length sl
           then if slot_head (sl ! unat h) = None
                then if h = 0 then pslot_lower sl mx mx else pslot_lower sl mx (h - 1)
                else Inr h
           else Inl OutOfBounds
      else Inr h)"
  by pat_completeness auto
termination
proof (relation "measure (\<lambda>(sl, mx, h). if h < mx then Suc (unat h) else 0)", goal_cases)
  case 1
  then show ?case by simp
next
  case (2 sl mx h)
  then show ?case by simp
next
  case (3 sl mx h)
  then have "unat (h - 1) < unat h" by (simp add: unat_minus_one unat_gt_0)
  then show ?case using 3 by auto
qed

declare pslot_lower.simps [simp del]

definition pslot_nextTask :: "pslot_policy \<Rightarrow> (pslot_policy \<times> task_id option) res" where
  "pslot_nextTask p =
     (if highestPriorSlot p < maxPrioritySlot p
      then slot_at p (highestPriorSlot p) (\<lambda>s.
             deref (slot_head s) (\<lambda>r.
               let s1 = s\<lparr>slot_head := ps_next p r\<rparr>
               in if slot_head s1 = None
                  then let p1 = set_slot (highestPriorSlot p) (s1\<lparr>slot_tail := None\<rparr>) p
                       in bindR (pslot_lower (ps_slots p1) (maxPrioritySlot p1) (highestPriorSlot p1))
                            (\<lambda>h. Inr (p1\<lparr>highestPriorSlot := h\<rparr>, Some r))
                  else Inr (set_slot (highestPriorSlot p) s1 p, Some r)))
      else Inr (p, None))"

definition pslot_ops :: "pslot_policy policy_ops" where
  "pslot_ops = \<lparr>pol_queue = pslot_queue, pol_nextTask = pslot_nextTask\<rparr>"

section \<open>The contract\<close>

definition ps_key :: "pslot_policy \<Rightarrow> task_id \<Rightarrow> nat" where
  "ps_key p t = unat (pslot_of p t)"

text \<open>The tasks waiting in slot \<open>i\<close>.\<close>

abbreviation in_slot :: "pslot_policy \<Rightarrow> task_id list \<Rightarrow> nat \<Rightarrow> task_id list" where
  "in_slot p ts i \<equiv> filter (\<lambda>t. ps_key p t = i) ts"

definition slot_ok :: "pslot_policy \<Rightarrow> task_id list \<Rightarrow> nat \<Rightarrow> bool" where
  "slot_ok p ts i \<longleftrightarrow>
     chain (ps_next p) (slot_head (ps_slots p ! i)) (in_slot p ts i) \<and>
     slot_tail (ps_slots p ! i) = lastp (in_slot p ts i)"

definition top_slot :: "pslot_policy \<Rightarrow> task_id list \<Rightarrow> uint" where
  "top_slot p ts = (case ts of [] \<Rightarrow> maxPrioritySlot p | t # _ \<Rightarrow> pslot_of p t)"

definition pslot_rep :: "pslot_policy \<Rightarrow> task_id list \<Rightarrow> bool" where
  "pslot_rep p ts \<longleftrightarrow>
     maxPrioritySlot p \<noteq> 0 \<and> length (ps_slots p) = unat (maxPrioritySlot p) \<and>
     distinct ts \<and> descending (ps_key p) ts \<and> highestPriorSlot p = top_slot p ts \<and>
     (\<forall>i < length (ps_slots p). slot_ok p ts i)"

lemma pslot_of_less: "maxPrioritySlot p \<noteq> 0 \<Longrightarrow> pslot_of p t < maxPrioritySlot p"
proof -
  assume m: "maxPrioritySlot p \<noteq> 0"
  then have "unat (maxPrioritySlot p - 1) < unat (maxPrioritySlot p)"
    by (simp add: unat_minus_one unat_gt_0)
  then show ?thesis by (simp add: pslot_of_def word_less_nat_alt not_le)
qed

lemma ps_key_less: "pslot_rep p ts \<Longrightarrow> ps_key p t < length (ps_slots p)"
  using pslot_of_less [of p t] by (simp add: pslot_rep_def ps_key_def word_less_nat_alt)

lemma pslot_of_cong:
  "maxPrioritySlot p' = maxPrioritySlot p \<Longrightarrow> ps_priority p' = ps_priority p \<Longrightarrow> pslot_of p' = pslot_of p"
  by (simp add: pslot_of_def fun_eq_iff)

lemma ps_key_cong:
  "maxPrioritySlot p' = maxPrioritySlot p \<Longrightarrow> ps_priority p' = ps_priority p \<Longrightarrow> ps_key p' = ps_key p"
  using pslot_of_cong [of p' p] by (simp add: ps_key_def fun_eq_iff)

lemma pslot_of_update [simp]:
  "pslot_of (p\<lparr>ps_next := n\<rparr>) = pslot_of p" "pslot_of (p\<lparr>ps_slots := sl\<rparr>) = pslot_of p"
  "pslot_of (p\<lparr>highestPriorSlot := h\<rparr>) = pslot_of p"
  by (rule pslot_of_cong; simp)+

lemma ps_key_update [simp]:
  "ps_key (p\<lparr>ps_next := n\<rparr>) = ps_key p" "ps_key (p\<lparr>ps_slots := sl\<rparr>) = ps_key p"
  "ps_key (p\<lparr>highestPriorSlot := h\<rparr>) = ps_key p"
  by (rule ps_key_cong; simp)+

lemma pslot_rep_init: "n \<noteq> 0 \<Longrightarrow> pslot_rep (pslot_init n prio) []"
  by (simp add: pslot_rep_def pslot_init_def top_slot_def slot_ok_def empty_slot_def)

text \<open>The search from a slot downwards finds the slot of the first waiting task.\<close>

lemma pslot_lower_spec:
  assumes "length sl = unat mx" and "descending K us"
  shows "h < mx \<Longrightarrow> \<forall>u\<in>set us. K u \<le> unat h \<Longrightarrow>
    \<forall>i\<le>unat h. slot_head (sl ! i) = None \<longleftrightarrow> (\<forall>u\<in>set us. K u \<noteq> i) \<Longrightarrow>
    pslot_lower sl mx h = Inr (case us of [] \<Rightarrow> mx | u # _ \<Rightarrow> of_nat (K u))"
proof (induction "unat h" arbitrary: h rule: less_induct)
  case less
  have len: "unat h < length sl" using less.prems(1) assms(1) by (simp add: word_less_nat_alt)
  show ?case
  proof (cases "slot_head (sl ! unat h)")
    case (Some r)
    with less.prems(3) obtain u where u: "u \<in> set us" "K u = unat h" by fastforce
    then obtain v vs where us: "us = v # vs" by (cases us) auto
    with u assms(2) less.prems(2) have "K v = unat h" by (auto intro: antisym)
    with us Some len less.prems(1) show ?thesis by (subst pslot_lower.simps) simp
  next
    case None
    with less.prems(3) have no: "\<forall>u\<in>set us. K u \<noteq> unat h" by simp
    show ?thesis
    proof (cases "h = 0")
      case True
      with no less.prems(2) have "us = []" by (cases us) auto
      with True None len less.prems(1) show ?thesis
        by (subst pslot_lower.simps, simp) (subst pslot_lower.simps, simp)
    next
      case False
      then have h: "unat (h - 1) = unat h - 1" "0 < unat h" by (simp_all add: unat_minus_one unat_gt_0)
      then have lt: "unat (h - 1) < unat h" by simp
      moreover have "h - 1 < mx" using lt less.prems(1) by (simp add: word_less_nat_alt)
      moreover have "\<forall>u\<in>set us. K u \<le> unat (h - 1)"
        using less.prems(2) no h by fastforce
      moreover have "\<forall>i\<le>unat (h - 1). slot_head (sl ! i) = None \<longleftrightarrow> (\<forall>u\<in>set us. K u \<noteq> i)"
        using less.prems(3) h by simp
      ultimately have "pslot_lower sl mx (h - 1) = Inr (case us of [] \<Rightarrow> mx | u # _ \<Rightarrow> of_nat (K u))"
        by (rule less.hyps)
      with None False len less.prems(1) show ?thesis by (subst pslot_lower.simps) simp
    qed
  qed
qed

lemma top_slot_enqueue_by:
  assumes "ts \<noteq> []" and "descending (ps_key p) ts"
  shows "top_slot p (enqueue_by (ps_key p) t ts) =
    (if pslot_of p t > top_slot p ts then pslot_of p t else top_slot p ts)"
  using assms by (cases ts) (auto simp: top_slot_def enqueue_by_def ps_key_def word_less_nat_alt not_less)

lemma pslot_queue_rep:
  assumes r: "pslot_rep p ts" and t: "t \<notin> set ts"
  shows "\<exists>p'. pslot_queue t p = Inr (p', ts = []) \<and> pslot_rep p' (enqueue_by (ps_key p) t ts) \<and>
    ps_key p' = ps_key p"
proof -
  let ?k = "pslot_of p t" and ?us = "enqueue_by (ps_key p) t ts"
  let ?i = "unat ?k" and ?h = "top_slot p ?us"
  let ?s = "ps_slots p ! ?i"
  from r have m: "maxPrioritySlot p \<noteq> 0" and d: "descending (ps_key p) ts"
    and hi: "highestPriorSlot p = top_slot p ts" and len: "length (ps_slots p) = unat (maxPrioritySlot p)"
    and ok: "\<And>i. i < length (ps_slots p) \<Longrightarrow> slot_ok p ts i" and dist: "distinct ts"
    by (auto simp: pslot_rep_def)
  have i: "?i < length (ps_slots p)" using ps_key_less [OF r] by (simp add: ps_key_def)
  have empty: "(top_slot p ts = maxPrioritySlot p) = (ts = [])"
    using pslot_of_less [OF m] by (cases ts) (auto simp: top_slot_def less_le)
  have top: "(if ts = [] \<or> ?k > top_slot p ts then ?k else top_slot p ts) = ?h"
    using top_slot_enqueue_by [of ts p t] d by (cases "ts = []") (auto simp: top_slot_def enqueue_by_def)
  have Kt: "ps_key p t = ?i" by (simp add: ps_key_def)
  have q: "in_slot p ?us j = in_slot p ts j @ (if j = ?i then [t] else [])" for j
    using filter_enqueue_by [OF d, of j t] Kt by auto
  have d': "descending (ps_key p) ?us" using d by (rule descending_enqueue_by)
  have dist': "distinct ?us"
    using t dist mset_enqueue_by [of "ps_key p" t ts]
    by (metis distinct.simps(2) mset.simps(2) mset_eq_imp_distinct_iff)
  define nx where "nx = (ps_next p)(t := None)"
  define p' where "p' = (if slot_head ?s = None
      then p\<lparr>ps_next := nx, highestPriorSlot := ?h,
             ps_slots := (ps_slots p)[?i := ?s\<lparr>slot_head := Some t, slot_tail := Some t\<rparr>]\<rparr>
      else p\<lparr>ps_next := nx(the (slot_tail ?s) := Some t), highestPriorSlot := ?h,
             ps_slots := (ps_slots p)[?i := ?s\<lparr>slot_tail := Some t\<rparr>]\<rparr>)"
  have si: "chain (ps_next p) (slot_head ?s) (in_slot p ts ?i)" "slot_tail ?s = lastp (in_slot p ts ?i)"
    using ok [OF i] by (auto simp: slot_ok_def)
  have key': "ps_key p' = ps_key p" by (rule ps_key_cong) (auto simp: p'_def)
  have tail: "slot_tail ?s \<noteq> None" if "slot_head ?s \<noteq> None"
    using si that by (auto simp: lastp_def)
  have "pslot_queue t p = Inr (p', ts = [])"
  proof (cases "slot_head ?s")
    case None
    with i empty top show ?thesis
      by (auto simp: pslot_queue_def Let_def slot_at_def set_slot_def p'_def hi simp flip: nx_def)
  next
    case (Some a)
    with tail obtain l where "slot_tail ?s = Some l" by auto
    with Some i empty top show ?thesis
      by (auto simp: pslot_queue_def Let_def slot_at_def set_slot_def p'_def hi simp flip: nx_def)
  qed
  moreover have "slot_ok p' ?us j" if j: "j < length (ps_slots p)" for j
  proof (cases "in_slot p ts ?i" rule: rev_cases)
    case Nil
    then have "slot_head ?s = None" using si by simp
    with ok [OF j] t i Nil q [of j] show ?thesis
      by (cases "j = ?i") (auto simp: slot_ok_def p'_def nx_def)
  next
    case (snoc as l)
    then have l: "slot_tail ?s = Some l" and h: "slot_head ?s \<noteq> None"
      using si chain_empty_iff [OF si(1)] by auto
    from snoc have l_in: "l \<in> set (in_slot p ts ?i)" by simp
    then have l': "ps_key p l = ?i" "l \<in> set ts" by auto
    have "distinct (as @ [l])" using si(1) snoc chain_distinct by metis
    moreover have "set as \<subseteq> set (in_slot p ts ?i)" using snoc by auto
    then have "t \<notin> set as" using t by auto
    ultimately show ?thesis
      using ok [OF j] t i snoc q [of j] l h l'
      by (cases "j = ?i") (auto simp: slot_ok_def p'_def nx_def seg_append)
  qed
  then have "pslot_rep p' ?us"
    using m len d' dist' by (auto simp: pslot_rep_def key' p'_def top_slot_def pslot_of_def split: list.splits)
  ultimately show ?thesis using key' by blast
qed

lemma pslot_nextTask_rep:
  assumes r: "pslot_rep p ts"
  shows "\<exists>p'. pslot_nextTask p = Inr (p', firstp ts) \<and> pslot_rep p' (tl ts) \<and> ps_key p' = ps_key p"
proof (cases ts)
  case Nil
  with r show ?thesis by (auto simp: pslot_rep_def pslot_nextTask_def top_slot_def)
next
  case (Cons t us)
  let ?k = "pslot_of p t"
  let ?i = "unat ?k" and ?mx = "maxPrioritySlot p"
  let ?s = "ps_slots p ! ?i"
  from r have m: "?mx \<noteq> 0" and d: "descending (ps_key p) ts"
    and len: "length (ps_slots p) = unat ?mx" and dist: "distinct ts"
    and ok: "\<And>i. i < length (ps_slots p) \<Longrightarrow> slot_ok p ts i"
    and hi: "highestPriorSlot p = ?k"
    by (auto simp: pslot_rep_def Cons top_slot_def)
  have i: "?i < length (ps_slots p)" using ps_key_less [OF r] by (simp add: ps_key_def)
  have k: "?k < ?mx" using m by (rule pslot_of_less)
  have Kt: "ps_key p t = ?i" by (simp add: ps_key_def)
  have si: "slot_head ?s = Some t" "chain (ps_next p) (ps_next p t) (in_slot p us ?i)"
    "slot_tail ?s = lastp (t # in_slot p us ?i)"
    using ok [OF i] by (auto simp: slot_ok_def Cons Kt)
  define s' where "s' = (if in_slot p us ?i = [] then ?s\<lparr>slot_head := ps_next p t, slot_tail := None\<rparr>
      else ?s\<lparr>slot_head := ps_next p t\<rparr>)"
  define p' where "p' = p\<lparr>ps_slots := (ps_slots p)[?i := s'], highestPriorSlot := top_slot p us\<rparr>"
  have ok': "slot_ok p' us j" if j: "j < length (ps_slots p)" for j
    using ok [OF j] si i by (cases "j = ?i") (auto simp: slot_ok_def p'_def s'_def Cons Kt lastp_Cons)
  have key: "ps_key p' = ps_key p" by (simp add: p'_def)
  have rep: "pslot_rep p' us"
    using ok' m len d dist Cons by (auto simp: pslot_rep_def p'_def top_slot_def split: list.splits)
  have "pslot_nextTask p = Inr (p', Some t)"
  proof (cases "in_slot p us ?i = []")
    case False
    then obtain u where u: "u \<in> set us" "ps_key p u = ?i" by (auto simp: filter_empty_conv)
    then obtain v vs where us: "us = v # vs" by (cases us) auto
    with u d Cons Kt have "ps_key p v = ps_key p t" by (auto intro: antisym)
    then have "highestPriorSlot p = top_slot p us" 
      by (simp add: hi top_slot_def us ps_key_def word_unat_eq_iff)
    then have "p' = p\<lparr>ps_slots := (ps_slots p)[?i := s']\<rparr>" by (simp add: p'_def)
    with False si i k hi show ?thesis
      using chain_empty_iff [OF si(2)]
      by (auto simp: pslot_nextTask_def slot_at_def set_slot_def s'_def Let_def)
  next
    case True
    have "pslot_lower ((ps_slots p)[?i := s']) ?mx ?k =
      Inr (case us of [] \<Rightarrow> ?mx | u # _ \<Rightarrow> of_nat (ps_key p u))"
    proof (rule pslot_lower_spec [OF _ _ k])
      show "length ((ps_slots p)[?i := s']) = unat ?mx" by (simp add: len)
      show "descending (ps_key p) us" using d Cons by simp
      show "\<forall>u\<in>set us. ps_key p u \<le> ?i" using d Cons Kt by simp
      show "\<forall>j\<le>?i. slot_head ((ps_slots p)[?i := s'] ! j) = None \<longleftrightarrow> (\<forall>u\<in>set us. ps_key p u \<noteq> j)"
      proof (intro allI impI)
        fix j
        assume "j \<le> ?i"
        then have "j < length (ps_slots p)" using i by simp
        from ok' [OF this] have "chain (ps_next p) (slot_head ((ps_slots p)[?i := s'] ! j)) (in_slot p us j)"
          by (simp add: slot_ok_def p'_def)
        from chain_empty_iff [OF this]
        show "slot_head ((ps_slots p)[?i := s'] ! j) = None \<longleftrightarrow> (\<forall>u\<in>set us. ps_key p u \<noteq> j)"
          by (simp add: filter_empty_conv)
      qed
    qed
    also have "(case us of [] \<Rightarrow> ?mx | u # _ \<Rightarrow> of_nat (ps_key p u)) = top_slot p us"
      by (simp add: top_slot_def ps_key_def split: list.split)
    finally show ?thesis
      using True si i k hi chain_empty_iff [OF si(2)]
      by (simp add: pslot_nextTask_def slot_at_def set_slot_def s'_def Let_def p'_def)
  qed
  with rep key show ?thesis by (auto simp: Cons)
qed

lemma pslot_queue_key: "pslot_queue t p = Inr (p', b) \<Longrightarrow> ps_key p' = ps_key p"
  by (auto simp: pslot_queue_def slot_at_def set_slot_def Let_def bindR_eq_Inr deref_def
      intro!: ps_key_cong split: if_splits option.splits)

lemma pslot_nextTask_key: "pslot_nextTask p = Inr (p', r) \<Longrightarrow> ps_key p' = ps_key p"
  by (auto simp: pslot_nextTask_def slot_at_def set_slot_def Let_def bindR_eq_Inr deref_def
      intro!: ps_key_cong split: if_splits option.splits)

interpretation pslot: priority_policy pslot_queue pslot_nextTask pslot_rep
  "\<lambda>p t ts. enqueue_by (ps_key p) t ts" "\<lambda>p t. True" ps_key
proof unfold_locales
  fix p ts t
  assume "pslot_rep p ts" and "t \<notin> set ts"
  then show "\<exists>p'. pslot_queue t p = Inr (p', ts = []) \<and> pslot_rep p' (enqueue_by (ps_key p) t ts)"
    using pslot_queue_rep by blast
next
  fix p ts
  assume "pslot_rep p ts"
  then show "\<exists>p'. pslot_nextTask p = Inr (p', firstp ts) \<and> pslot_rep p' (tl ts)"
    using pslot_nextTask_rep by blast
qed (auto simp: pslot_rep_def mset_enqueue_by dest: pslot_queue_key pslot_nextTask_key)

section \<open>Behaviour\<close>

lemma pslot_answers_clamped:
  assumes "n \<noteq> 0" and "calls_ok (ps_key (pslot_init n prio)) [] cs"
  shows "run_policy pslot_queue pslot_nextTask (pslot_init n prio) cs =
    Inr (spec_answers (ps_key (pslot_init n prio)) [] cs)"
  using pslot.run_policy_spec [OF pslot_rep_init [OF assms(1)]] assms(2) by blast

text \<open>C15: With a slot for every priority in use the policy with priority slots answers every sequence of calls, in which no
  task is queued while it waits in the run queue, exactly as the policy with one sorted list does. The scheduler keeps to such
  sequences, see C1; the two policies differ when a waiting task is queued again.\<close>
theorem pslot_equals_priority:
  assumes "\<forall>t. prio t < n" and "calls_ok (\<lambda>t. unat (prio t)) [] cs"
  shows "run_policy pslot_queue pslot_nextTask (pslot_init n prio) cs =
    run_policy prio_queue prio_nextTask (prio_init prio) cs"
proof -
  have n: "n \<noteq> 0" using assms(1) by auto
  have "\<not> n \<le> prio t" for t using assms(1) by (simp add: not_le)
  then have k: "ps_key (pslot_init n prio) = (\<lambda>t. unat (prio t))"
    by (simp add: ps_key_def pslot_of_def pslot_init_def fun_eq_iff)
  have kp: "prio_key (prio_init prio) = (\<lambda>t. unat (prio t))"
    by (simp add: prio_key_def prio_init_def fun_eq_iff)
  have "run_policy prio_queue prio_nextTask (prio_init prio) cs =
      Inr (spec_answers (\<lambda>t. unat (prio t)) [] cs)"
    using prio.run_policy_spec [OF prio_rep_init [of prio]] assms(2) unfolding kp by blast
  then show ?thesis using pslot_answers_clamped [OF n, of prio cs] assms(2) by (simp add: k)
qed

theorem pslot_equals_priority_witness:
  "run_policy pslot_queue pslot_nextTask (pslot_init 3 (\<lambda>t. if t = 2 then 2 else 1))
      [Queue 1, Queue 2, NextTask, NextTask] =
   run_policy prio_queue prio_nextTask (prio_init (\<lambda>t. if t = 2 then 2 else 1))
      [Queue 1, Queue 2, NextTask, NextTask]"
  by (rule pslot_equals_priority) (simp_all add: enqueue_by_def)

text \<open>Priorities beyond the slots share the last slot: the answers are those of the abstract priority
  queue for the priorities cut off at the number of slots.\<close>
theorem pslot_cuts_priorities:
  assumes "n \<noteq> 0" and "calls_ok (\<lambda>t. min (unat (prio t)) (unat n - 1)) [] cs"
  shows "run_policy pslot_queue pslot_nextTask (pslot_init n prio) cs =
    Inr (spec_answers (\<lambda>t. min (unat (prio t)) (unat n - 1)) [] cs)"
proof -
  have "unat (n - 1) = unat n - 1" using assms(1) by (rule unat_minus_one)
  then have "ps_key (pslot_init n prio) = (\<lambda>t. min (unat (prio t)) (unat n - 1))"
    by (auto simp: ps_key_def pslot_of_def pslot_init_def fun_eq_iff word_le_nat_alt min_def)
  then show ?thesis using pslot_answers_clamped [OF assms(1)] assms(2) by simp
qed

theorem pslot_cuts_priorities_witness:
  "run_policy pslot_queue pslot_nextTask (pslot_init 2 (\<lambda>t. of_nat t))
      [Queue 5, Queue 9, Queue 0, NextTask, NextTask, NextTask] =
   Inr [WasEmpty True, WasEmpty False, WasEmpty False, Task (Some 5), Task (Some 9), Task (Some 0)]"
  by (subst pslot_cuts_priorities) (simp_all add: enqueue_by_def)

text \<open>A policy with no slots accepts no task: the limit of the priority wraps around and the access
  to the slot array is out of its bounds.\<close>
theorem pslot_no_slots: "pslot_queue t (pslot_init 0 prio) = Inl OutOfBounds"
  by (simp add: pslot_queue_def pslot_init_def slot_at_def pslot_of_def Let_def)

end
