(* ===== verification/Clock.thy ===== *)
theory Clock
  imports Prelude
begin

text \<open>
  The clock queue (\<^verbatim>\<open>src/clock.cpp\<close>, \<^verbatim>\<open>include/impl/clock_impl.h\<close>): a list of events
  ordered by activation time, linked by \<^verbatim>\<open>next\<close> and, block of equal times by block of equal
  times, by \<^verbatim>\<open>previous\<close>. The memory of the events
  (\<^verbatim>\<open>include/impl/taskEvent_impl.h\<close>) is part of the state. The current time, which the
  code reads from the virtual method \<^verbatim>\<open>getTime\<close>, is an argument of each operation, one per
  call of that method. The virtual calls that leave the clock are returned as a list.
\<close>

section \<open>State\<close>

record event_impl =
  configured :: bool
  periodical :: bool
  queued :: bool
  period_ms :: time
  nextActivation_ms :: time
  periodicSchedule :: "nat option"
  ev_next :: "event_id option"
  ev_previous :: "event_id option"
  mutexLock :: bool

definition event_init :: event_impl where
  "event_init = \<lparr>configured = False, periodical = False, queued = False, period_ms = 0,
     nextActivation_ms = 0, periodicSchedule = None, ev_next = None, ev_previous = None,
     mutexLock = False\<rparr>"

record clock =
  events :: "event_id \<Rightarrow> event_impl"
  queueHead :: "event_id option"
  queueTail :: "event_id option"
  nonePendingHead :: "event_id option"

definition clock_init :: clock where
  "clock_init = \<lparr>events = (\<lambda>_. event_init), queueHead = None, queueTail = None,
     nonePendingHead = None\<rparr>"

text \<open>\<^verbatim>\<open>scheduler.signal()\<close> and the virtual \<^verbatim>\<open>startTimer\<close>.\<close>

datatype clock_call = SignalScheduler | StartTimer time

definition upd_ev :: "event_id \<Rightarrow> (event_impl \<Rightarrow> event_impl) \<Rightarrow> clock \<Rightarrow> clock" where
  "upd_ev e f c = c\<lparr>events := (events c)(e := f (events c e))\<rparr>"

abbreviation tm :: "clock \<Rightarrow> event_id \<Rightarrow> time" where
  "tm c x \<equiv> nextActivation_ms (events c x)"

abbreviation nxt :: "clock \<Rightarrow> event_id \<Rightarrow> event_id option" where
  "nxt c x \<equiv> ev_next (events c x)"

abbreviation prv :: "clock \<Rightarrow> event_id \<Rightarrow> event_id option" where
  "prv c x \<equiv> ev_previous (events c x)"

section \<open>Operations\<close>

text \<open>The loops that give the events from \<open>p\<close> on, as long as \<open>g\<close> holds, a new \<^verbatim>\<open>previous\<close>.\<close>

definition set_previous ::
  "(clock \<Rightarrow> event_id \<Rightarrow> bool) \<Rightarrow> event_id option \<Rightarrow> event_id option \<Rightarrow> clock \<Rightarrow> clock res" where
  "set_previous g p v c =
     bindR (for_ptr g nxt (\<lambda>x c. Inr (upd_ev x (\<lambda>ev. ev\<lparr>ev_previous := v\<rparr>) c)) p c)
       (\<lambda>r. Inr (snd r))"

definition enqueue :: "time \<Rightarrow> event_id \<Rightarrow> clock \<Rightarrow> (clock \<times> bool) res" where
  "enqueue currentTime e c =
     (let c0 = upd_ev e (\<lambda>ev. ev\<lparr>queued := True, ev_next := None\<rparr>) c
      in if queueHead c0 = None
         then Inr ((upd_ev e (\<lambda>ev. ev\<lparr>ev_previous := None\<rparr>) c0)
                     \<lparr>queueHead := Some e, queueTail := Some e\<rparr>, True)
         else bindR (for_ptr (\<lambda>c x. tm c x > tm c e) prv (\<lambda>x c. Inr c) (queueTail c0) c0)
           (\<lambda>(previousEvent, c1).
              case previousEvent of
                None \<Rightarrow>
                  bindR (set_previous (\<lambda>c x. prv c x = None) (queueHead c1) (Some e) c1) (\<lambda>c2.
                    let c3 = (upd_ev e (\<lambda>ev. ev\<lparr>ev_next := queueHead c2, ev_previous := None\<rparr>) c2)
                               \<lparr>queueHead := Some e\<rparr>
                    in Inr (if nonePendingHead c3 \<noteq> None
                            then c3\<lparr>nonePendingHead := queueHead c3\<rparr> else c3, True))
              | Some p \<Rightarrow>
                  let same = (tm c1 p = tm c1 e);
                      first = (\<not> same \<and> tm c1 p \<le> currentTime);
                      c2 = upd_ev e (\<lambda>ev. ev\<lparr>ev_previous := (if same then prv c1 p else Some p),
                                               ev_next := nxt c1 p\<rparr>) c1;
                      c3 = upd_ev p (\<lambda>ev. ev\<lparr>ev_next := Some e\<rparr>) c2;
                      c4 = (if nxt c3 e = nonePendingHead c3
                            then c3\<lparr>nonePendingHead := Some e\<rparr> else c3)
                  in case nxt c4 e of
                       None \<Rightarrow> Inr (c4\<lparr>queueTail := Some e\<rparr>, first)
                     | Some n \<Rightarrow>
                         bindR (set_previous (\<lambda>c x. tm c x = tm c4 n) (Some n) (Some e) c4)
                           (\<lambda>c5. Inr (c5, first))))"

definition enqueueHead :: "event_id \<Rightarrow> clock \<Rightarrow> clock res" where
  "enqueueHead e c =
     bindR
       (case queueHead c of
          Some h \<Rightarrow>
            if tm c e < tm c h
            then set_previous (\<lambda>c x. tm c x = tm c h) (Some h) (Some e) c
            else Inr c
        | None \<Rightarrow> Inr (c\<lparr>queueTail := Some e\<rparr>))
       (\<lambda>c1. Inr ((upd_ev e (\<lambda>ev. ev\<lparr>ev_next := queueHead c1, ev_previous := None\<rparr>) c1)
                    \<lparr>queueHead := Some e\<rparr>))"

text \<open>
  The difference of two times as \<^verbatim>\<open>int64_t\<close>. Its signed overflow is undefined in C++.
\<close>

definition int64_diff :: "time \<Rightarrow> time \<Rightarrow> int res" where
  "int64_diff a b =
     (let d = sint a - sint b
      in if - (2 ^ 63) \<le> d \<and> d < 2 ^ 63 then Inr d else Inl SignedOverflow)"

definition startAt :: "time \<Rightarrow> event_id \<Rightarrow> time \<Rightarrow> clock \<Rightarrow> (clock \<times> clock_call list) res" where
  "startAt currentTime e t c =
     (if \<not> queued (events c e)
      then let c0 = upd_ev e (\<lambda>ev. ev\<lparr>nextActivation_ms := t\<rparr>) c
           in bindR (int64_diff t currentTime) (\<lambda>delay.
                if delay > 0
                then bindR (enqueue currentTime e c0) (\<lambda>(c1, shouldStartTimer).
                       Inr (c1, if shouldStartTimer then [StartTimer (word_of_int delay)] else []))
                else bindR (enqueueHead e c0) (\<lambda>c1. Inr (c1, [SignalScheduler])))
      else Inr (c, []))"

text \<open>\<open>now1\<close> is what \<^verbatim>\<open>startIn\<close> reads, \<open>now2\<close> what \<^verbatim>\<open>startAt\<close> reads after it.\<close>

definition startIn :: "time \<Rightarrow> time \<Rightarrow> event_id \<Rightarrow> time \<Rightarrow> clock \<Rightarrow> (clock \<times> clock_call list) res" where
  "startIn now1 now2 e t c =
     (if t \<noteq> 0 then startAt now2 e (now1 + t) c
      else if \<not> queued (events c e)
      then bindR (enqueueHead e (upd_ev e (\<lambda>ev. ev\<lparr>nextActivation_ms := now1\<rparr>) c))
             (\<lambda>c1. Inr (c1, [SignalScheduler]))
      else Inr (c, []))"

text \<open>The loop state carries the \<^verbatim>\<open>next\<close> that was read before the event was cleared.\<close>

definition dequeueAll :: "clock \<Rightarrow> clock res" where
  "dequeueAll c =
     (let c0 = c\<lparr>nonePendingHead := None\<rparr>
      in bindR (for_ptr (\<lambda>s x. True) (\<lambda>s x. snd s)
                 (\<lambda>x s. Inr (upd_ev x (\<lambda>ev. ev\<lparr>queued := False, ev_next := None, ev_previous := None\<rparr>)
                               (fst s), nxt (fst s) x))
                 (queueHead c0) (c0, None))
           (\<lambda>(p, s). Inr ((fst s)\<lparr>queueHead := None, queueTail := None\<rparr>)))"

definition dequeue :: "event_id \<Rightarrow> clock \<Rightarrow> clock res" where
  "dequeue e c =
     (let c0 = (if nonePendingHead c = Some e then c\<lparr>nonePendingHead := nxt c e\<rparr> else c)
      in bindR
           (if queueHead c0 = None then Inr c0
            else bindR (for_ptr (\<lambda>prev x. x \<noteq> e) (\<lambda>prev x. nxt c0 x) (\<lambda>x prev. Inr (Some x))
                          (queueHead c0) None)
              (\<lambda>(current, previous).
                 case current of
                   None \<Rightarrow> Inr c0
                 | Some cur \<Rightarrow>
                     if queueTail c0 = Some cur
                     then if queueHead c0 = Some cur
                          then Inr (c0\<lparr>queueHead := None, queueTail := None\<rparr>)
                          else deref previous (\<lambda>t.
                                 Inr (upd_ev t (\<lambda>ev. ev\<lparr>ev_next := None\<rparr>) (c0\<lparr>queueTail := Some t\<rparr>)))
                     else bindR
                            (if queueHead c0 = Some cur
                             then Inr (c0\<lparr>queueHead := nxt c0 cur\<rparr>)
                             else deref previous (\<lambda>p.
                                    Inr (upd_ev p (\<lambda>ev. ev\<lparr>ev_next := nxt c0 cur\<rparr>) c0)))
                            (\<lambda>c1. deref (nxt c1 cur) (\<lambda>n.
                               if tm c1 cur \<noteq> tm c1 n
                               then set_previous (\<lambda>c x. tm c x = tm c1 n) (Some n) previous c1
                               else Inr c1))))
           (\<lambda>c2. Inr (upd_ev e (\<lambda>ev. ev\<lparr>queued := False, ev_next := None, ev_previous := None\<rparr>) c2)))"

definition isEmtpy :: "clock \<Rightarrow> bool" where
  "isEmtpy c \<longleftrightarrow> queueHead c = None"

definition isPending :: "time \<Rightarrow> clock \<Rightarrow> bool" where
  "isPending now c \<longleftrightarrow> (case queueHead c of None \<Rightarrow> False | Some h \<Rightarrow> tm c h \<le> now)"

definition readFirstPending :: "time \<Rightarrow> clock \<Rightarrow> (clock \<times> event_id option) res" where
  "readFirstPending now c =
     (case queueHead c of
        None \<Rightarrow> Inr (c, None)
      | Some h \<Rightarrow>
          if tm c h \<le> now
          then let c0 = (if nonePendingHead c = Some h then c\<lparr>nonePendingHead := nxt c h\<rparr> else c);
                   c1 = (upd_ev h (\<lambda>ev. ev\<lparr>queued := False, ev_next := None\<rparr>) c0)
                          \<lparr>queueHead := nxt c0 h\<rparr>
               in case queueHead c1 of
                    None \<Rightarrow> Inr (c1\<lparr>queueTail := None\<rparr>, Some h)
                  | Some h' \<Rightarrow>
                      if prv c1 h' \<noteq> None
                      then bindR (set_previous (\<lambda>c x. tm c x = tm c1 h') (Some h') None c1)
                             (\<lambda>c2. Inr (c2, Some h))
                      else Inr (c1, Some h)
          else Inr (c, None))"

definition getNextStartTime :: "time \<Rightarrow> clock \<Rightarrow> (clock \<times> time) res" where
  "getNextStartTime currentTime c =
     bindR
       (for_ptr (\<lambda>nst x. nst = 0)
          (\<lambda>nst x. if tm c x \<le> currentTime then nxt c x else Some x)
          (\<lambda>x nst. Inr (if tm c x \<le> currentTime then nst else tm c x))
          (if nonePendingHead c = None then queueHead c else nonePendingHead c) 0)
       (\<lambda>(searchEvent, nextStartTime). Inr (c\<lparr>nonePendingHead := searchEvent\<rparr>, nextStartTime))"

definition getHeadTime :: "clock \<Rightarrow> time" where
  "getHeadTime c = (case queueHead c of None \<Rightarrow> 0 | Some h \<Rightarrow> tm c h)"

end
