(* ===== verification/ClockProofs.thy ===== *)
theory ClockProofs
  imports Clock
begin

text \<open>
  The clock queue refines a list of events: what each operation of \<^verbatim>\<open>Clock\<close> does to the
  links and to the \<^verbatim>\<open>previous\<close> pointers is an insertion into, or a removal from, a list that
  is sorted by time as far as it lies in the future.
\<close>

section \<open>The abstraction\<close>

text \<open>
  \<open>clock_shape now c xs\<close>: the queue holds \<open>xs\<close>. Of the events after \<open>now\<close> it is known that they
  come last and in the order of their times, and that \<^verbatim>\<open>previous\<close> points to the last event
  with a smaller time. Events that are due already come first, in any order.
\<close>

definition future_sorted :: "time \<Rightarrow> (event_id \<Rightarrow> time) \<Rightarrow> event_id list \<Rightarrow> bool" where
  "future_sorted now f xs \<longleftrightarrow> sorted_wrt (\<lambda>x y. now < f x \<longrightarrow> f x \<le> f y) xs"

definition last_before :: "(event_id \<Rightarrow> time) \<Rightarrow> time \<Rightarrow> event_id list \<Rightarrow> event_id option" where
  "last_before f t xs = lastp (filter (\<lambda>y. f y < t) xs)"

definition clock_shape :: "time \<Rightarrow> clock \<Rightarrow> event_id list \<Rightarrow> bool" where
  "clock_shape now c xs \<longleftrightarrow>
     chain (nxt c) (queueHead c) xs \<and> queueTail c = lastp xs \<and> future_sorted now (tm c) xs \<and>
     (\<forall>x\<in>set xs. now < tm c x \<longrightarrow> prv c x = last_before (tm c) (tm c x) xs)"

text \<open>
  The flag \<^verbatim>\<open>queued\<close> is set for events in the future; an event that was started in the past
  waits in the queue without it.
\<close>

definition flags_ok :: "time \<Rightarrow> clock \<Rightarrow> event_id list \<Rightarrow> bool" where
  "flags_ok now c xs \<longleftrightarrow>
     (\<forall>x. queued (events c x) \<longrightarrow> x \<in> set xs) \<and>
     (\<forall>x\<in>set xs. now < tm c x \<longrightarrow> queued (events c x))"

definition clock_rep :: "time \<Rightarrow> clock \<Rightarrow> event_id list \<Rightarrow> bool" where
  "clock_rep now c xs \<longleftrightarrow> clock_shape now c xs \<and> flags_ok now c xs"

text \<open>Where an event that lies in the future goes: behind all events that are not later.\<close>

definition insert_event :: "(event_id \<Rightarrow> time) \<Rightarrow> event_id \<Rightarrow> event_id list \<Rightarrow> event_id list" where
  "insert_event f e xs = takeWhile (\<lambda>x. f x \<le> f e) xs @ e # dropWhile (\<lambda>x. f x \<le> f e) xs"

lemma clock_rep_init: "clock_rep now clock_init []"
  by (simp add: clock_rep_def clock_shape_def flags_ok_def future_sorted_def clock_init_def event_init_def)

lemma clock_shape_distinct: "clock_shape now c xs \<Longrightarrow> distinct xs"
  by (auto simp: clock_shape_def chain_distinct)

lemma future_sorted_mono: "future_sorted now f xs \<Longrightarrow> now \<le> now' \<Longrightarrow> future_sorted now' f xs"
  unfolding future_sorted_def by (rule sorted_wrt_mono_rel) auto

text \<open>Time passing turns future events into due ones and changes nothing else.\<close>

lemma clock_rep_later: "clock_rep now c xs \<Longrightarrow> now \<le> now' \<Longrightarrow> clock_rep now' c xs"
  by (auto simp: clock_rep_def clock_shape_def flags_ok_def dest: future_sorted_mono)

lemma clock_shape_cong:
  assumes "\<And>x. x \<in> set xs \<Longrightarrow> nxt c' x = nxt c x \<and> prv c' x = prv c x \<and> tm c' x = tm c x"
    and "queueHead c' = queueHead c" and "queueTail c' = queueTail c"
  shows "clock_shape now c' xs = clock_shape now c xs"
proof -
  have "chain (nxt c') (queueHead c) xs = chain (nxt c) (queueHead c) xs"
    by (rule seg_cong) (simp add: assms)
  moreover have "future_sorted now (tm c') xs = future_sorted now (tm c) xs"
    by (simp add: future_sorted_def sorted_wrt_iff_nth_less assms)
  moreover have "last_before (tm c') t xs = last_before (tm c) t xs" for t
    unfolding last_before_def by (rule arg_cong [where f = lastp], rule filter_cong) (simp_all add: assms)
  ultimately show ?thesis by (simp add: clock_shape_def assms)
qed

section \<open>Facts about the order\<close>

lemma future_sorted_prefix:
  assumes "future_sorted now f xs" and "now \<le> t"
  shows "filter (\<lambda>y. f y \<le> t) xs = takeWhile (\<lambda>y. f y \<le> t) xs"
proof (rule filter_eq_takeWhile)
  have "sorted_wrt (\<lambda>x y. now < f x \<longrightarrow> f x \<le> f y) xs" using assms(1) by (simp add: future_sorted_def)
  then show "sorted_wrt (\<lambda>x y. \<not> f x \<le> t \<longrightarrow> \<not> f y \<le> t) xs"
    by (rule sorted_wrt_mono_rel [rotated]) (use assms(2) in auto)
qed

lemma future_sorted_append:
  "future_sorted now f (xs @ ys) \<longleftrightarrow> future_sorted now f xs \<and> future_sorted now f ys \<and>
    (\<forall>x\<in>set xs. \<forall>y\<in>set ys. now < f x \<longrightarrow> f x \<le> f y)"
  by (simp add: future_sorted_def sorted_wrt_append)

lemma future_sorted_Cons:
  "future_sorted now f (x # xs) \<longleftrightarrow> (\<forall>y\<in>set xs. now < f x \<longrightarrow> f x \<le> f y) \<and> future_sorted now f xs"
  by (simp add: future_sorted_def)

text \<open>The queue splits at a time from \<open>now\<close> on into what is not later and what is later.\<close>

lemma split_at_time:
  assumes "future_sorted now f xs" and "now \<le> t"
  defines "A \<equiv> takeWhile (\<lambda>x. f x \<le> t) xs" and "B \<equiv> dropWhile (\<lambda>x. f x \<le> t) xs"
  shows "xs = A @ B" and "\<forall>x\<in>set A. f x \<le> t" and "\<forall>x\<in>set B. t < f x"
    and "filter (\<lambda>y. f y \<le> t) xs = A"
proof -
  show xs: "xs = A @ B" by (simp add: A_def B_def)
  show A: "\<forall>x\<in>set A. f x \<le> t" by (auto simp: A_def dest: set_takeWhileD)
  show f: "filter (\<lambda>y. f y \<le> t) xs = A"
    unfolding A_def using assms(1,2) by (rule future_sorted_prefix)
  have "filter (\<lambda>y. f y \<le> t) A = A" using A by simp
  then have "filter (\<lambda>y. f y \<le> t) B = []" using f xs by (metis append_self_conv filter_append)
  then show "\<forall>x\<in>set B. t < f x" by (auto simp: filter_empty_conv)
qed

section \<open>The loops\<close>

lemma upd_ev_simps [simp]:
  "queueHead (upd_ev e f c) = queueHead c" "queueTail (upd_ev e f c) = queueTail c"
  "nonePendingHead (upd_ev e f c) = nonePendingHead c"
  "events (upd_ev e f c) x = (if x = e then f (events c e) else events c x)"
  by (simp_all add: upd_ev_def)

text \<open>The clock in which the events of \<open>A\<close> have got \<open>v\<close> as \<^verbatim>\<open>previous\<close>.\<close>

definition mark :: "event_id set \<Rightarrow> event_id option \<Rightarrow> clock \<Rightarrow> clock" where
  "mark A v c = c\<lparr>events := (\<lambda>x. if x \<in> A then (events c x)\<lparr>ev_previous := v\<rparr> else events c x)\<rparr>"

lemma mark_simps [simp]:
  "queueHead (mark A v c) = queueHead c" "queueTail (mark A v c) = queueTail c"
  "nonePendingHead (mark A v c) = nonePendingHead c"
  "tm (mark A v c) x = tm c x" "nxt (mark A v c) x = nxt c x"
  "queued (events (mark A v c) x) = queued (events c x)"
  "prv (mark A v c) x = (if x \<in> A then v else prv c x)"
  by (simp_all add: mark_def)

lemma fold_upd_previous:
  "fold (\<lambda>x. upd_ev x (\<lambda>ev. ev\<lparr>ev_previous := v\<rparr>)) xs c = mark (set xs) v c"
proof (induction xs arbitrary: c)
  case Nil
  then show ?case by (simp add: mark_def)
next
  case (Cons a xs)
  have "mark (set xs) v (upd_ev a (\<lambda>ev. ev\<lparr>ev_previous := v\<rparr>) c) = mark (set (a # xs)) v c"
    by (auto simp: mark_def upd_ev_def fun_eq_iff)
  then show ?case by (simp add: Cons.IH)
qed

lemma set_previous_mark:
  assumes "chain (nxt c) p xs"
    and "\<And>c a x. x \<noteq> a \<Longrightarrow> g (upd_ev a (\<lambda>ev. ev\<lparr>ev_previous := v\<rparr>) c) x = g c x"
  shows "set_previous g p v c = Inr (mark (set (takeWhile (g c) xs)) v c)"
  unfolding set_previous_def
  by (subst for_ptr_fold [where n = nxt and xs = xs])
     (use assms in \<open>auto simp: fold_upd_previous\<close>)

text \<open>
  The backward search for the place of a new event follows \<^verbatim>\<open>previous\<close> from block to block
  and stops at the last event that is not later.
\<close>

lemma search_back:
  assumes s: "clock_shape now c xs" and t: "now < tm c e"
  shows "(\<And>y. tm c y \<le> tm c e \<Longrightarrow> P y) \<Longrightarrow> (\<And>y z. P y \<Longrightarrow> tm c z \<le> tm c y \<Longrightarrow> P z) \<Longrightarrow>
    for_ptr (\<lambda>c x. tm c x > tm c e) prv (\<lambda>x c. Inr c) (lastp (filter P xs)) c =
      Inr (lastp (filter (\<lambda>y. tm c y \<le> tm c e) xs), c)"
proof (induction "length (filter P xs)" arbitrary: P rule: less_induct)
  case less
  show ?case
  proof (cases "lastp (filter P xs)")
    case None
    then have "filter P xs = []" by simp
    then have "filter (\<lambda>y. tm c y \<le> tm c e) xs = []" using less.prems(1) by (auto simp: filter_empty_conv)
    with None show ?thesis by simp
  next
    case (Some y)
    then obtain ys where ys: "filter P xs = ys @ [y]" using lastp_Some by metis
    then have "y \<in> set (filter P xs)" by simp
    then have y: "y \<in> set xs" "P y" by auto
    show ?thesis
    proof (cases "tm c y \<le> tm c e")
      case True
      have "lastp (filter (\<lambda>y. tm c y \<le> tm c e) xs) = Some y"
        by (rule lastp_filter_mono [OF Some]) (use True less.prems(1) in auto)
      with True Some show ?thesis by (simp add: for_ptr_stop leD)
    next
      case False
      then have lt: "tm c e < tm c y" by simp
      then have "prv c y = last_before (tm c) (tm c y) xs"
        using s y(1) t by (auto simp: clock_shape_def)
      then have p: "prv c y = lastp (filter (\<lambda>z. tm c z < tm c y) xs)"
        by (simp add: last_before_def)
      have "filter (\<lambda>z. tm c z < tm c y) xs = filter (\<lambda>z. tm c z < tm c y) (filter P xs)"
        using less.prems(2) [OF y(2)] by (auto intro: filter_cong)
      then have "filter (\<lambda>z. tm c z < tm c y) xs = filter (\<lambda>z. tm c z < tm c y) ys" by (simp add: ys)
      then have "length (filter (\<lambda>z. tm c z < tm c y) xs) < length (filter P xs)"
        by (simp add: ys le_imp_less_Suc)
      then have "for_ptr (\<lambda>c x. tm c x > tm c e) prv (\<lambda>x c. Inr c) (lastp (filter (\<lambda>z. tm c z < tm c y) xs)) c =
        Inr (lastp (filter (\<lambda>y. tm c y \<le> tm c e) xs), c)"
        using lt by (intro less.hyps) auto
      with lt Some p show ?thesis by (simp add: for_ptr_step)
    qed
  qed
qed

section \<open>Insertion\<close>

lemma last_before_Nil [simp]: "last_before f t [] = None"
  by (simp add: last_before_def)

lemma last_before_cong:
  "(\<And>x. x \<in> set xs \<Longrightarrow> f x = g x) \<Longrightarrow> last_before f t xs = last_before g t xs"
  unfolding last_before_def by (rule arg_cong [where f = lastp], rule filter_cong) simp_all

lemma last_before_append:
  "last_before f t (xs @ ys) = (if \<exists>y\<in>set ys. f y < t then last_before f t ys else last_before f t xs)"
  by (auto simp: last_before_def lastp_append filter_empty_conv)

lemma last_before_Cons:
  "last_before f t (x # xs) =
    (if \<exists>y\<in>set xs. f y < t then last_before f t xs else if f x < t then Some x else None)"
  by (auto simp: last_before_def lastp_Cons filter_empty_conv)

lemma last_before_all: "(\<And>x. x \<in> set xs \<Longrightarrow> f x < t) \<Longrightarrow> last_before f t xs = lastp xs"
  by (simp add: last_before_def)

lemma chain_insert:
  assumes "chain h p (A @ B)" and "e \<notin> set (A @ B)" and "h' e = firstp B"
    and "\<And>x. x \<in> set B \<Longrightarrow> h' x = h x"
    and "\<And>x. x \<in> set A \<Longrightarrow> h' x = (if lastp A = Some x then Some e else h x)"
  shows "chain h' (firstp (A @ e # B)) (A @ e # B)"
proof -
  have dist: "distinct (A @ B)" using assms(1) by (rule chain_distinct)
  obtain r where rA: "seg h p A r" and rB: "chain h r B" using assms(1) by (auto simp: seg_append)
  have cB: "chain h' (firstp B) B"
    using rB chain_firstp [OF rB] assms(4) by (subst seg_cong [where h' = h]) auto
  have "seg h' (firstp (A @ [e])) A (Some e)"
  proof (cases A rule: rev_cases)
    case (snoc as l)
    have "firstp (A @ [e]) = p" using rA by (cases as) (auto simp: snoc)
    moreover have "seg h' p as (Some l) \<longleftrightarrow> seg h p as (Some l)"
      using dist assms(5) by (intro seg_cong) (auto simp: snoc)
    ultimately show ?thesis using rA assms(5) [of l] by (simp add: snoc seg_append)
  qed simp
  moreover have "firstp (A @ [e]) = firstp (A @ e # B)" by (cases A) auto
  ultimately show ?thesis using cB assms(3) by (auto simp: seg_append)
qed

text \<open>
  The last smaller event of a later event \<open>x\<close> after \<open>e\<close> has come in before it: it is \<open>e\<close> for
  the block that directly follows.
\<close>

lemma last_before_insert:
  assumes srt: "future_sorted now f B" and x: "x \<in> set B" and t: "now < f e"
    and B: "\<And>y. y \<in> set B \<Longrightarrow> f e < f y"
  shows "last_before f (f x) (A @ e # B) =
    (if f x = f (hd B) then Some e else last_before f (f x) (A @ B))"
proof -
  obtain b bs where Bb: "B = b # bs" using x by (cases B) auto
  then have nb: "now < f b" using B [of b] t by simp
  have min: "f b \<le> f y" if "y \<in> set B" for y
    using srt that nb by (auto simp: Bb future_sorted_Cons)
  show ?thesis
  proof (cases "f x = f b")
    case True
    then have "\<not> (\<exists>y\<in>set B. f y < f x)" using min by (auto simp: not_less)
    then show ?thesis using True B [OF x] by (simp add: last_before_append last_before_Cons [of _ _ e] Bb)
  next
    case False
    then have "f b < f x" using min [OF x] by simp
    then have "\<exists>y\<in>set B. f y < f x" by (auto simp: Bb)
    then show ?thesis using False by (simp add: last_before_append last_before_Cons [of _ _ e] Bb)
  qed
qed

text \<open>
  What an insertion of \<open>e\<close> between \<open>A\<close> and \<open>B\<close> must do to the pointers for the queue to
  keep its shape.
\<close>

lemma shape_insert:
  assumes s: "clock_shape now c (A @ B)" and e: "e \<notin> set (A @ B)" and t: "now < tm c e"
    and A: "\<And>x. x \<in> set A \<Longrightarrow> tm c x \<le> tm c e" and B: "\<And>x. x \<in> set B \<Longrightarrow> tm c e < tm c x"
    and tm: "\<And>x. tm c' x = tm c x"
    and ends: "queueHead c' = firstp (A @ e # B)" "queueTail c' = lastp (A @ e # B)"
    and nxt: "nxt c' e = firstp B" "\<And>x. x \<in> set B \<Longrightarrow> nxt c' x = nxt c x"
      "\<And>x. x \<in> set A \<Longrightarrow> nxt c' x = (if lastp A = Some x then Some e else nxt c x)"
    and prv: "prv c' e = last_before (tm c) (tm c e) A" "\<And>x. x \<in> set A \<Longrightarrow> prv c' x = prv c x"
      "\<And>x. x \<in> set B \<Longrightarrow> prv c' x = (if tm c x = tm c (hd B) then Some e else prv c x)"
  shows "clock_shape now c' (A @ e # B)"
proof -
  have "chain (nxt c) (queueHead c) (A @ B)" using s by (simp add: clock_shape_def)
  then have chain: "chain (nxt c') (queueHead c') (A @ e # B)"
    unfolding ends(1) using e nxt by (rule chain_insert)
  have srt0: "future_sorted now (tm c) (A @ B)" using s by (simp add: clock_shape_def)
  then have srt: "future_sorted now (tm c) (A @ e # B)"
    using A B t by (fastforce simp: future_sorted_append future_sorted_Cons intro: less_imp_le)
  have old: "prv c x = last_before (tm c) (tm c x) (A @ B)" if "x \<in> set (A @ B)" "now < tm c x" for x
    using s that by (auto simp: clock_shape_def)
  have prvA: "prv c' x = last_before (tm c) (tm c x) (A @ e # B)" if x: "x \<in> set A" "now < tm c x" for x
  proof -
    have "\<not> tm c y < tm c x" if "y \<in> set (e # B)" for y
      using A [OF x(1)] B [of y] that by fastforce
    then show ?thesis using x prv(2) old by (simp add: last_before_append last_before_Cons)
  qed
  have prvB: "prv c' x = last_before (tm c) (tm c x) (A @ e # B)" if x: "x \<in> set B" "now < tm c x" for x
    using srt0 x t B prv(3) [OF x(1)] old by (subst last_before_insert [of now])
      (auto simp: future_sorted_append)
  have prve: "prv c' e = last_before (tm c) (tm c e) (A @ e # B)"
    using prv(1) B by (auto simp: last_before_append last_before_Cons dest: less_asym)
  show ?thesis
    using chain srt prvA prvB prve ends(2) by (auto simp: clock_shape_def tm)
qed

text \<open>The first block of equal times of a queue that lies in the future.\<close>

lemma block_takeWhile:
  assumes "future_sorted now f (b # B)" and "now < f b"
  shows "set (takeWhile (\<lambda>x. f x = f b) (b # B)) = {x \<in> set (b # B). f x = f b}"
proof -
  have min: "f b \<le> f y" if "y \<in> set (b # B)" for y
    using assms that by (auto simp: future_sorted_Cons)
  have "sorted_wrt (\<lambda>x y. now < f x \<longrightarrow> f x \<le> f y) (b # B)"
    using assms(1) by (simp add: future_sorted_def)
  then have "sorted_wrt (\<lambda>x y. \<not> f x = f b \<longrightarrow> \<not> f y = f b) (b # B)"
  proof (rule sorted_wrt_mono_rel [rotated])
    fix x y assume "x \<in> set (b # B)" and r: "now < f x \<longrightarrow> f x \<le> f y"
    then have "f b \<le> f x" by (intro min)
    with r assms(2) show "\<not> f x = f b \<longrightarrow> \<not> f y = f b" by auto
  qed
  then have "filter (\<lambda>x. f x = f b) (b # B) = takeWhile (\<lambda>x. f x = f b) (b # B)"
    by (rule filter_eq_takeWhile)
  then show ?thesis by (metis set_filter)
qed

text \<open>Which events in front of the queue have no \<^verbatim>\<open>previous\<close>: those of its first block.\<close>

lemma no_previous_block:
  assumes s: "clock_shape now c (b # B)" and t: "now < tm c b"
  shows "takeWhile (\<lambda>x. prv c x = None) (b # B) = takeWhile (\<lambda>x. tm c x = tm c b) (b # B)"
proof (rule takeWhile_cong)
  fix x assume x: "x \<in> set (b # B)"
  have min: "tm c b \<le> tm c y" if "y \<in> set (b # B)" for y
    using that s t by (auto simp: clock_shape_def future_sorted_Cons)
  have "now < tm c x" using t min [OF x] by simp
  then have "prv c x = last_before (tm c) (tm c x) (b # B)" using s x unfolding clock_shape_def by blast
  also have "\<dots> = None \<longleftrightarrow> (\<forall>y\<in>set (b # B). tm c x \<le> tm c y)"
    by (auto simp: last_before_def filter_empty_conv not_less)
  also have "\<dots> \<longleftrightarrow> tm c x = tm c b"
  proof
    assume "\<forall>y\<in>set (b # B). tm c x \<le> tm c y"
    then have "tm c x \<le> tm c b" by simp
    with min [OF x] show "tm c x = tm c b" by simp
  next
    assume "tm c x = tm c b"
    then show "\<forall>y\<in>set (b # B). tm c x \<le> tm c y" using min by simp
  qed
  finally show "(prv c x = None) = (tm c x = tm c b)" .
qed simp

text \<open>The three ways \<^verbatim>\<open>enqueue\<close> goes: an empty queue, a new first event, a place behind one.\<close>

definition first_start :: "time \<Rightarrow> (event_id \<Rightarrow> time) \<Rightarrow> event_id \<Rightarrow> event_id list \<Rightarrow> bool" where
  "first_start now f e xs \<longleftrightarrow> (\<forall>x\<in>set (takeWhile (\<lambda>x. f x \<le> f e) xs). f x \<le> now)"

definition enqueued :: "time \<Rightarrow> event_id \<Rightarrow> clock \<Rightarrow> event_id list \<Rightarrow> clock \<Rightarrow> bool" where
  "enqueued now e c xs c' \<longleftrightarrow> clock_shape now c' (insert_event (tm c) e xs) \<and>
     (\<forall>x. tm c' x = tm c x \<and> queued (events c' x) = (x = e \<or> queued (events c x)))"

lemma enqueue_empty:
  assumes s: "clock_shape now c []"
  shows "\<exists>c'. enqueue now e c = Inr (c', True) \<and> enqueued now e c [] c' \<and>
    nonePendingHead c' = nonePendingHead c"
  using s by (simp add: enqueue_def clock_shape_def enqueued_def insert_event_def future_sorted_def
      last_before_Cons)

lemma enqueue_first:
  assumes s: "clock_shape now c (b # B)" and e: "e \<notin> set (b # B)" and t: "now < tm c e"
    and late: "tm c e < tm c b"
  shows "\<exists>c'. enqueue now e c = Inr (c', True) \<and> enqueued now e c (b # B) c' \<and>
    nonePendingHead c' = (if nonePendingHead c = None then None else Some e)"
proof -
  define c0 where "c0 = upd_ev e (\<lambda>ev. ev\<lparr>queued := True, ev_next := None\<rparr>) c"
  have s0: "clock_shape now c0 (b # B)"
    using s e by (subst clock_shape_cong [where c = c]) (auto simp: c0_def)
  have tm0: "tm c0 x = tm c x" for x by (simp add: c0_def)
  have min: "tm c e < tm c x" if "x \<in> set (b # B)" for x
    using s that late t by (auto simp: clock_shape_def future_sorted_Cons)
  have nb: "now < tm c0 b" using late t by (simp add: tm0)
  have "filter (\<lambda>y. tm c0 y \<le> tm c0 e) (b # B) = []"
    using min by (auto simp: filter_empty_conv tm0 not_le)
  then have loop: "for_ptr (\<lambda>c x. tm c x > tm c e) prv (\<lambda>x c. Inr c) (queueTail c0) c0 = Inr (None, c0)"
    using search_back [OF s0, of e "\<lambda>_. True"] s0 t by (simp add: clock_shape_def tm0)
  define M where "M = set (takeWhile (\<lambda>x. prv c0 x = None) (b # B))"
  have M: "M = {x \<in> set (b # B). tm c0 x = tm c0 b}"
    unfolding M_def no_previous_block [OF s0 nb]
    using s0 nb by (intro block_takeWhile) (auto simp: clock_shape_def)
  have ch: "chain (nxt c0) (queueHead c0) (b # B)" using s0 by (simp add: clock_shape_def)
  then have q0: "queueHead c0 = Some b" by simp
  have mark: "set_previous (\<lambda>c x. prv c x = None) (queueHead c0) (Some e) c0 = Inr (mark M (Some e) c0)"
    unfolding M_def using ch by (rule set_previous_mark) simp
  define c3 where "c3 = (upd_ev e (\<lambda>ev. ev\<lparr>ev_next := Some b, ev_previous := None\<rparr>) (mark M (Some e) c0))
      \<lparr>queueHead := Some e\<rparr>"
  define c' where "c' = (if nonePendingHead c3 \<noteq> None then c3\<lparr>nonePendingHead := queueHead c3\<rparr> else c3)"
  have enq: "enqueue now e c = Inr (c', True)"
    using q0 loop mark unfolding enqueue_def c0_def [symmetric] by (simp add: c'_def c3_def)
  have "clock_shape now c' ([] @ e # (b # B))"
  proof (rule shape_insert [where c = c0])
    show "clock_shape now c0 ([] @ b # B)" using s0 by simp
    show "queueTail c' = lastp ([] @ e # b # B)"
      using s0 by (simp add: c'_def c3_def clock_shape_def)
  qed (use e t min in \<open>auto simp: c'_def c3_def tm0 M\<close>)
  then have "enqueued now e c (b # B) c'"
    using late by (auto simp: enqueued_def insert_event_def leD c'_def c3_def tm0 M, auto simp: c0_def mark_def)
  with enq show ?thesis by (auto simp: c'_def c3_def c0_def)
qed

lemma enqueue_behind:
  assumes s: "clock_shape now c (A @ B)" and e: "e \<notin> set (A @ B)" and t: "now < tm c e"
    and A: "\<And>x. x \<in> set A \<Longrightarrow> tm c x \<le> tm c e" and B: "\<And>x. x \<in> set B \<Longrightarrow> tm c e < tm c x"
    and p: "lastp A = Some p"
  shows "\<exists>c'. enqueue now e c = Inr (c', tm c p \<le> now) \<and> clock_shape now c' (A @ e # B) \<and>
    (\<forall>x. tm c' x = tm c x \<and> queued (events c' x) = (x = e \<or> queued (events c x))) \<and>
    nonePendingHead c' = (if nonePendingHead c = firstp B then Some e else nonePendingHead c)"
proof -
  obtain as where as: "A = as @ [p]" using p lastp_Some by metis
  define c0 where "c0 = upd_ev e (\<lambda>ev. ev\<lparr>queued := True, ev_next := None\<rparr>) c"
  have tm0: "tm c0 x = tm c x" for x by (simp add: c0_def)
  have s0: "clock_shape now c0 (A @ B)"
    using s e by (subst clock_shape_cong [where c = c]) (auto simp: c0_def)
  have dist: "distinct (A @ B)" using s by (rule clock_shape_distinct)
  have "filter (\<lambda>y. tm c0 y \<le> tm c0 e) (A @ B) = A"
    using A B by (auto simp: tm0 filter_id_conv filter_empty_conv not_le)
  then have loop: "for_ptr (\<lambda>c x. tm c x > tm c e) prv (\<lambda>x c. Inr c) (queueTail c0) c0 = Inr (Some p, c0)"
    using search_back [OF s0, of e "\<lambda>_. True"] s0 t p by (simp add: clock_shape_def tm0)
  have ch: "chain (nxt c0) (queueHead c0) (A @ B)" using s0 by (simp add: clock_shape_def)
  then have np: "nxt c0 p = firstp B" and chB: "chain (nxt c0) (nxt c0 p) B"
    by (auto simp: as seg_append dest: chain_firstp)
  have h0: "queueHead c0 = firstp A" using ch as by (cases as) auto
  have pe: "p \<noteq> e" "p \<notin> set B" and eB: "e \<notin> set B" and pA: "p \<in> set A"
    using e dist by (auto simp: as)
  define c3 where "c3 = upd_ev p (\<lambda>ev. ev\<lparr>ev_next := Some e\<rparr>)
      (upd_ev e (\<lambda>ev. ev\<lparr>ev_previous := (if tm c0 p = tm c0 e then prv c0 p else Some p),
                         ev_next := nxt c0 p\<rparr>) c0)"
  define c4 where "c4 = (if nxt c3 e = nonePendingHead c3 then c3\<lparr>nonePendingHead := Some e\<rparr> else c3)"
  have c4: "tm c4 x = tm c x" "nxt c4 x = (if x = p then Some e else if x = e then firstp B else nxt c0 x)"
    "prv c4 x = (if x = e then (if tm c0 p = tm c0 e then prv c0 p else Some p) else prv c0 x)"
    "queueHead c4 = queueHead c0" "queueTail c4 = queueTail c0"
    "queued (events c4 x) = (x = e \<or> queued (events c x))"
    "nonePendingHead c4 = (if nonePendingHead c = firstp B then Some e else nonePendingHead c)" for x
    using pe np by (auto simp: c4_def c3_def tm0, auto simp: c0_def)
  have first: "(tm c0 p \<noteq> tm c0 e \<and> tm c0 p \<le> now) = (tm c p \<le> now)"
    using t by (auto simp: tm0)
  define M where "M = (case B of [] \<Rightarrow> {} | b # _ \<Rightarrow> {x \<in> set B. tm c x = tm c b})"
  define c' where "c' = (if B = [] then c4\<lparr>queueTail := Some e\<rparr> else mark M (Some e) c4)"
  have step: "enqueue now e c =
      (case nxt c4 e of None \<Rightarrow> Inr (c4\<lparr>queueTail := Some e\<rparr>, tm c0 p \<noteq> tm c0 e \<and> tm c0 p \<le> now)
       | Some n \<Rightarrow> bindR (set_previous (\<lambda>c x. tm c x = tm c4 n) (Some n) (Some e) c4)
           (\<lambda>c5. Inr (c5, tm c0 p \<noteq> tm c0 e \<and> tm c0 p \<le> now)))"
  proof -
    have "queueHead c0 \<noteq> None" using h0 as by simp
    then show ?thesis
      by (simp only: enqueue_def c0_def [symmetric] Let_def loop if_False bindR_Inr prod.case
          option.case c3_def c4_def)
  qed
  have enq: "enqueue now e c = Inr (c', tm c p \<le> now)"
  proof (cases B)
    case Nil
    then show ?thesis using pe unfolding step first by (simp add: c4 c'_def)
  next
    case (Cons b bs)
    have "set_previous (\<lambda>c x. tm c x = tm c4 b) (Some b) (Some e) c4 = Inr (mark M (Some e) c4)"
    proof -
      have "chain (nxt c4) (Some b) B = chain (nxt c0) (Some b) B"
        using pe eB by (intro seg_cong) (auto simp: c4)
      then have "chain (nxt c4) (Some b) B" using chB np Cons by simp
      moreover have "set (takeWhile (\<lambda>x. tm c4 x = tm c4 b) B) = M"
        using s B [of b] t unfolding M_def Cons
        by (simp only: c4 list.case, intro block_takeWhile [where now = now])
           (auto simp: clock_shape_def future_sorted_append)
      ultimately show ?thesis by (subst set_previous_mark [where xs = B]) auto
    qed
    then show ?thesis using pe unfolding step first by (simp add: c4(2) c'_def Cons)
  qed
  have M: "x \<in> M \<longleftrightarrow> x \<in> set B \<and> tm c x = tm c (hd B)" for x
    by (cases B) (auto simp: M_def)
  have c': "tm c' x = tm c x" "nxt c' x = nxt c4 x" "prv c' x = (if x \<in> M then Some e else prv c4 x)"
    "queueHead c' = queueHead c0" for x
    by (auto simp: c'_def c4 M)
  have "clock_shape now c' (A @ e # B)"
  proof (rule shape_insert [where c = c0])
    show "queueHead c' = firstp (A @ e # B)" using h0 as by (cases as) (simp_all add: c')
    show "nxt c' x = (if lastp A = Some x then Some e else nxt c0 x)" if "x \<in> set A" for x
      using that e by (auto simp: c' c4 p)
    show "prv c' x = prv c0 x" if "x \<in> set A" for x
      using that e dist by (auto simp: c' c4 M)
    show "prv c' x = (if tm c0 x = tm c0 (hd B) then Some e else prv c0 x)" if "x \<in> set B" for x
      using that eB by (auto simp: c' c4 M tm0)
    show "queueTail c' = lastp (A @ e # B)"
      using s0 by (auto simp: c'_def c4 clock_shape_def lastp_Cons lastp_append)
    have "prv c0 p = last_before (tm c) (tm c e) A" if "tm c p = tm c e"
    proof -
      have "prv c0 p = last_before (tm c) (tm c e) (A @ B)"
        using s0 t that pA by (simp add: clock_shape_def tm0)
      then show ?thesis using B by (simp add: last_before_append) (meson less_asym)
    qed
    moreover have "last_before (tm c) (tm c e) A = Some p" if "tm c p \<noteq> tm c e"
      using A [OF pA] that by (simp add: as last_before_append last_before_Cons order_less_le)
    ultimately show "prv c' e = last_before (tm c0) (tm c0 e) A"
      using eB by (auto simp: c' c4 M tm0)
    show "nxt c' x = nxt c0 x" if "x \<in> set B" for x using that pe eB by (auto simp: c' c4)
  qed (use s0 e t A B pe in \<open>simp_all add: c' c4 tm0\<close>)
  with enq show ?thesis by (intro exI [of _ c']) (auto simp: c'_def c4)
qed

definition nph_insert :: "clock \<Rightarrow> event_id \<Rightarrow> event_id list \<Rightarrow> event_id option" where
  "nph_insert c e xs =
     (let A = takeWhile (\<lambda>x. tm c x \<le> tm c e) xs; B = dropWhile (\<lambda>x. tm c x \<le> tm c e) xs
      in if xs = [] then nonePendingHead c
         else if A = [] then (if nonePendingHead c = None then None else Some e)
         else if nonePendingHead c = firstp B then Some e else nonePendingHead c)"

lemma enqueue_spec:
  assumes s: "clock_shape now c xs" and e: "e \<notin> set xs" and t: "now < tm c e"
  shows "\<exists>c'. enqueue now e c = Inr (c', first_start now (tm c) e xs) \<and> enqueued now e c xs c' \<and>
    nonePendingHead c' = nph_insert c e xs"
proof -
  define A where "A = takeWhile (\<lambda>x. tm c x \<le> tm c e) xs"
  define B where "B = dropWhile (\<lambda>x. tm c x \<le> tm c e) xs"
  have srt: "future_sorted now (tm c) xs" using s by (simp add: clock_shape_def)
  note AB = split_at_time [OF srt, of "tm c e", folded A_def B_def]
  have xs: "xs = A @ B" and A: "\<And>x. x \<in> set A \<Longrightarrow> tm c x \<le> tm c e"
    and B: "\<And>x. x \<in> set B \<Longrightarrow> tm c e < tm c x"
    using AB t by auto
  show ?thesis
  proof (cases A rule: rev_cases)
    case Nil
    then have B': "xs = B" by (simp add: xs)
    show ?thesis
    proof (cases xs)
      case Nil
      then show ?thesis using enqueue_empty s by (simp add: first_start_def nph_insert_def)
    next
      case (Cons b bs)
      then have "tm c e < tm c b" using B B' by simp
      then show ?thesis
        using enqueue_first [of now c b bs e] s e t Cons
        by (simp add: first_start_def nph_insert_def not_le [symmetric])
    qed
  next
    case (snoc as p)
    have "first_start now (tm c) e xs = (tm c p \<le> now)"
    proof
      assume "tm c p \<le> now"
      moreover have "\<not> now < tm c x" if "x \<in> set as" for x
        using srt that \<open>tm c p \<le> now\<close> by (auto simp: xs snoc future_sorted_append)
      ultimately show "first_start now (tm c) e xs"
        by (auto simp: first_start_def A_def [symmetric] snoc not_less)
    qed (simp add: first_start_def A_def [symmetric] snoc)
    moreover have "insert_event (tm c) e xs = A @ e # B" by (simp add: insert_event_def A_def B_def)
    moreover have "nph_insert c e xs = (if nonePendingHead c = firstp B then Some e else nonePendingHead c)"
    proof -
      have "xs \<noteq> []" and "A \<noteq> []" using snoc by (auto simp: xs)
      then show ?thesis by (simp add: nph_insert_def A_def [symmetric] B_def [symmetric])
    qed
    ultimately show ?thesis
      using enqueue_behind [of now c A B e p] s e t A B by (simp add: xs snoc enqueued_def)
  qed
qed

lemma enqueueHead_spec:
  assumes s: "clock_shape now c xs" and e: "e \<notin> set xs" and t: "tm c e \<le> now"
  shows "\<exists>c'. enqueueHead e c = Inr c' \<and> clock_shape now c' (e # xs) \<and>
    (\<forall>x. tm c' x = tm c x \<and> queued (events c' x) = queued (events c x)) \<and>
    nonePendingHead c' = nonePendingHead c"
proof (cases xs)
  case Nil
  then show ?thesis using s t
    by (auto simp: enqueueHead_def clock_shape_def future_sorted_def last_before_Cons leD)
next
  case (Cons h B)
  have ch: "chain (nxt c) (queueHead c) (h # B)" and srt: "future_sorted now (tm c) (h # B)"
    using s by (simp_all add: clock_shape_def Cons)
  then have h: "queueHead c = Some h" by simp
  define M where "M = (if tm c e < tm c h then set (takeWhile (\<lambda>x. tm c x = tm c h) (h # B)) else {})"
  define c' where "c' = (upd_ev e (\<lambda>ev. ev\<lparr>ev_next := Some h, ev_previous := None\<rparr>) (mark M (Some e) c))
      \<lparr>queueHead := Some e\<rparr>"
  have "set_previous (\<lambda>c x. tm c x = tm c h) (Some h) (Some e) c =
      Inr (mark (set (takeWhile (\<lambda>x. tm c x = tm c h) (h # B))) (Some e) c)"
    using ch h by (intro set_previous_mark) auto
  then have run: "enqueueHead e c = Inr c'"
    using h by (auto simp: enqueueHead_def c'_def M_def mark_def)
  have prv: "prv c' x = last_before (tm c) (tm c x) (e # h # B)" if x: "x \<in> set (h # B)" "now < tm c x" for x
  proof -
    have old: "prv c x = last_before (tm c) (tm c x) (h # B)" using s x Cons unfolding clock_shape_def by blast
    have ex: "x \<noteq> e" using x e Cons by auto
    show ?thesis
    proof (cases "tm c h < tm c x")
      case True
      then have "x \<notin> M" by (auto simp: M_def dest: set_takeWhileD)
      moreover have "\<exists>y\<in>set (h # B). tm c y < tm c x" using True by auto
      ultimately show ?thesis using old ex by (simp add: c'_def last_before_Cons [of _ _ e])
    next
      case False
      then have nh: "now < tm c h" using x(2) by simp
      have min: "tm c h \<le> tm c y" if "y \<in> set (h # B)" for y
        using srt nh that by (auto simp: future_sorted_Cons)
      then have xh: "tm c x = tm c h" using False x(1) by (meson antisym_conv3 leD)
      have "x \<in> M" using block_takeWhile [OF srt nh] x(1) xh t nh by (simp add: M_def)
      moreover have "\<not> (\<exists>y\<in>set (h # B). tm c y < tm c x)" using min xh by (auto simp: not_less)
      ultimately show ?thesis using ex t x(2) by (auto simp: c'_def last_before_Cons [of _ _ e])
    qed
  qed
  have "chain (nxt c') (Some h) (h # B)"
    using ch h e Cons by (subst seg_cong [where h' = "nxt c"]) (auto simp: c'_def)
  moreover have ends: "queueHead c' = Some e" "queueTail c' = lastp (h # B)" "nxt c' e = Some h"
    using s by (simp_all add: c'_def clock_shape_def Cons)
  moreover have tmf: "tm c' = tm c" by (auto simp: c'_def)
  moreover have "\<forall>x\<in>set (e # h # B). now < tm c x \<longrightarrow> prv c' x = last_before (tm c) (tm c x) (e # h # B)"
    using prv t by auto
  moreover have "future_sorted now (tm c) (e # h # B)"
    using srt t by (subst future_sorted_Cons) auto
  ultimately have "clock_shape now c' (e # xs)"
    unfolding clock_shape_def tmf Cons using fun_cong [OF tmf] by simp
  with run show ?thesis by (auto simp: c'_def)
qed

section \<open>Starting an event\<close>

lemma sint_small: "(a :: time) < 2 ^ 63 \<Longrightarrow> sint a = uint a"
proof -
  assume "a < 2 ^ 63"
  then have "uint a < 2 ^ 63" by (simp add: word_less_alt)
  moreover have "- (2 ^ 63) \<le> uint a" by (rule order_trans [OF _ uint_ge_0]) simp
  ultimately have "signed_take_bit 63 (uint a) = uint a" by (intro signed_take_bit_int_eq_self)
  then show ?thesis by (simp add: sint_uint)
qed

lemma int64_diff_small:
  assumes "(a :: time) < 2 ^ 63" and "b < 2 ^ 63"
  shows "int64_diff a b = Inr (uint a - uint b)"
proof -
  have "uint a < 2 ^ 63" "uint b < 2 ^ 63" using assms by (simp_all add: word_less_alt)
  with uint_ge_0 [of a] uint_ge_0 [of b]
  have "- (2 ^ 63) \<le> uint a - uint b \<and> uint a - uint b < 2 ^ 63" by linarith
  then show ?thesis using assms by (simp add: int64_diff_def sint_small Let_def)
qed

text \<open>Where a started event goes, and what the clock asks its surroundings to do.\<close>

definition place_event :: "time \<Rightarrow> (event_id \<Rightarrow> time) \<Rightarrow> event_id \<Rightarrow> event_id list \<Rightarrow> event_id list" where
  "place_event now f e xs = (if now < f e then insert_event f e xs else e # xs)"

definition start_calls :: "time \<Rightarrow> (event_id \<Rightarrow> time) \<Rightarrow> event_id \<Rightarrow> event_id list \<Rightarrow> clock_call list" where
  "start_calls now f e xs =
     (if now < f e then (if first_start now f e xs then [StartTimer (f e - now)] else [])
      else [SignalScheduler])"

lemma set_insert_event [simp]: "set (insert_event f e xs) = insert e (set xs)"
  unfolding insert_event_def
  by (metis Un_insert_right list.simps(15) set_append takeWhile_dropWhile_id)

lemma set_place_event [simp]: "set (place_event now f e xs) = insert e (set xs)"
  by (simp add: place_event_def)

lemma clock_rep_set_time:
  assumes "clock_rep now c xs" and "e \<notin> set xs"
  shows "clock_rep now (upd_ev e (\<lambda>ev. ev\<lparr>nextActivation_ms := t\<rparr>) c) xs"
proof -
  have "clock_shape now (upd_ev e (\<lambda>ev. ev\<lparr>nextActivation_ms := t\<rparr>) c) xs"
    using assms by (subst clock_shape_cong [where c = c]) (auto simp: clock_rep_def)
  then show ?thesis using assms by (auto simp: clock_rep_def flags_ok_def)
qed

lemma place_spec:
  assumes r: "clock_rep now c xs" and e: "e \<notin> set xs" and "now < 2 ^ 63" and "t < 2 ^ 63"
  defines "c0 \<equiv> upd_ev e (\<lambda>ev. ev\<lparr>nextActivation_ms := t\<rparr>) c"
  shows "\<exists>c'. startAt now e t c = Inr (c', start_calls now (tm c0) e xs) \<and>
    clock_rep now c' (place_event now (tm c0) e xs) \<and> (\<forall>x. tm c' x = tm c0 x) \<and>
    nonePendingHead c' = (if now < t then nph_insert c0 e xs else nonePendingHead c)"
proof -
  have r0: "clock_rep now c0 xs" unfolding c0_def using r e by (rule clock_rep_set_time)
  then have s0: "clock_shape now c0 xs" and f0: "flags_ok now c0 xs" by (simp_all add: clock_rep_def)
  have te: "tm c0 e = t" and nq: "\<not> queued (events c e)" and nph: "nonePendingHead c0 = nonePendingHead c"
    using r e by (auto simp: c0_def clock_rep_def flags_ok_def)
  have d: "int64_diff t now = Inr (uint t - uint now)" using assms by (intro int64_diff_small)
  have lt: "(0 < uint t - uint now) = (now < t)" by (simp add: word_less_alt)
  have wd: "word_of_int (uint t - uint now) = t - now"
    by (simp add: wi_hom_sub [symmetric])
  show ?thesis
  proof (cases "now < t")
    case True
    obtain c' where en: "enqueue now e c0 = Inr (c', first_start now (tm c0) e xs)"
      and q: "enqueued now e c0 xs c'" and n: "nonePendingHead c' = nph_insert c0 e xs"
      using enqueue_spec [OF s0 e] True te by auto
    have "clock_rep now c' (place_event now (tm c0) e xs)"
      using q f0 True te by (auto simp: clock_rep_def enqueued_def flags_ok_def place_event_def)
    moreover have "startAt now e t c = Inr (c', start_calls now (tm c0) e xs)"
      unfolding startAt_def d bindR_Inr lt wd c0_def [symmetric] Let_def
      using nq True te en by (simp add: start_calls_def)
    ultimately show ?thesis using q n True by (intro exI [of _ c']) (simp add: enqueued_def)
  next
    case False
    then have "tm c0 e \<le> now" using te by simp
    then obtain c' where en: "enqueueHead e c0 = Inr c'" and q: "clock_shape now c' (e # xs)"
      "\<forall>x. tm c' x = tm c0 x \<and> queued (events c' x) = queued (events c0 x)"
      "nonePendingHead c' = nonePendingHead c0"
      using enqueueHead_spec [OF s0 e] by auto
    have "clock_rep now c' (place_event now (tm c0) e xs)"
      using q f0 False te by (auto simp: clock_rep_def flags_ok_def place_event_def)
    moreover have "startAt now e t c = Inr (c', start_calls now (tm c0) e xs)"
      unfolding startAt_def d bindR_Inr lt wd c0_def [symmetric] Let_def
      using nq False te en by (simp add: start_calls_def)
    ultimately show ?thesis using q False nph by (intro exI [of _ c']) simp
  qed
qed

end
