(* ===== verification/ClockQueue.thy ===== *)
theory ClockQueue
  imports ClockProofs
begin

text \<open>
  The clock queue, continued: removal of events, the pending events, the next start time and
  the life of the queue under any sequence of operations.
\<close>

section \<open>Removal\<close>

text \<open>
  The last smaller event of a later event \<open>x\<close> after \<open>e\<close> has left: it changes for the block that
  directly followed the block of \<open>e\<close>, and only when \<open>e\<close> is the last of its block.
\<close>

lemma last_before_remove:
  assumes srt: "future_sorted now f (A @ e # B)" and x: "x \<in> set B" "now < f x"
  shows "last_before f (f x) (A @ B) =
    (if f e \<noteq> f (hd B) \<and> f x = f (hd B) then lastp A else last_before f (f x) (A @ e # B))"
proof -
  obtain b bs where Bb: "B = b # bs" using x by (cases B) auto
  have fut: "f b \<le> y" if "y \<in> f ` set B" "now < f b" for y
    using srt that by (auto simp: Bb future_sorted_append future_sorted_Cons)
  show ?thesis
  proof (cases "\<exists>y\<in>set B. f y < f x")
    case True
    have "f x \<noteq> f b" using True fut x by (metis image_eqI leD)
    then show ?thesis using True by (simp add: Bb last_before_append last_before_Cons [of _ _ e])
  next
    case False
    then have le: "f x \<le> f b" by (auto simp: Bb not_less)
    then have xb: "f x = f b" using fut [of "f x"] x by auto
    show ?thesis
    proof (cases "f e = f b")
      case True
      then show ?thesis using False xb by (simp add: Bb last_before_append last_before_Cons [of _ _ e])
    next
      case ne: False
      have "f a < f x" if "a \<in> set A" for a
      proof (cases "now < f a")
        case True
        then have "f a \<le> f e" "f a \<le> f x" using srt that x by (auto simp: future_sorted_append)
        moreover have "f e \<le> f x"
          using srt x True calculation by (auto simp: future_sorted_append future_sorted_Cons)
        ultimately show ?thesis using ne xb by auto
      qed (use x in auto)
      then have "last_before f (f x) (A @ B) = lastp A"
        using False by (simp add: last_before_append last_before_all)
      then show ?thesis using ne xb by (simp add: Bb)
    qed
  qed
qed

lemma chain_remove:
  assumes "chain h p (A @ e # B)" and "\<And>x. x \<in> set B \<Longrightarrow> h' x = h x"
    and "\<And>x. x \<in> set A \<Longrightarrow> h' x = (if lastp A = Some x then firstp B else h x)"
  shows "chain h' (firstp (A @ B)) (A @ B)"
proof -
  have dist: "distinct (A @ e # B)" using assms(1) by (rule chain_distinct)
  have rA: "seg h p A (Some e)" and rB: "chain h (h e) B" using assms(1) by (auto simp: seg_append)
  have cB: "chain h' (firstp B) B"
    using rB chain_firstp [OF rB] assms(2) by (subst seg_cong [where h' = h]) auto
  have "seg h' (firstp (A @ B)) A (firstp B)"
  proof (cases A rule: rev_cases)
    case (snoc as l)
    have "firstp (A @ B) = p" using rA by (cases as) (auto simp: snoc)
    moreover have "seg h' p as (Some l) \<longleftrightarrow> seg h p as (Some l)"
      using dist assms(3) by (intro seg_cong) (auto simp: snoc)
    ultimately show ?thesis using rA assms(3) [of l] by (simp add: snoc seg_append)
  qed simp
  then show ?thesis using cB by (auto simp: seg_append)
qed

text \<open>What a removal of \<open>e\<close> from between \<open>A\<close> and \<open>B\<close> must do to the pointers.\<close>

lemma shape_remove:
  assumes s: "clock_shape now c (A @ e # B)"
    and tm: "\<And>x. tm c' x = tm c x"
    and ends: "queueHead c' = firstp (A @ B)" "queueTail c' = lastp (A @ B)"
    and nxt: "\<And>x. x \<in> set B \<Longrightarrow> nxt c' x = nxt c x"
      "\<And>x. x \<in> set A \<Longrightarrow> nxt c' x = (if lastp A = Some x then firstp B else nxt c x)"
    and prv: "\<And>x. x \<in> set A \<Longrightarrow> prv c' x = prv c x"
      "\<And>x. x \<in> set B \<Longrightarrow> now < tm c x \<Longrightarrow>
        prv c' x = (if tm c e \<noteq> tm c (hd B) \<and> tm c x = tm c (hd B) then lastp A else prv c x)"
  shows "clock_shape now c' (A @ B)"
proof -
  have "chain (nxt c) (queueHead c) (A @ e # B)" using s by (simp add: clock_shape_def)
  then have chain: "chain (nxt c') (queueHead c') (A @ B)"
    unfolding ends(1) using nxt by (rule chain_remove)
  have srt: "future_sorted now (tm c) (A @ e # B)" using s by (simp add: clock_shape_def)
  then have srt': "future_sorted now (tm c) (A @ B)"
    by (auto simp: future_sorted_append future_sorted_Cons)
  have old: "prv c x = last_before (tm c) (tm c x) (A @ e # B)"
    if "x \<in> set (A @ B)" "now < tm c x" for x
    using s that by (auto simp: clock_shape_def)
  have prvA: "prv c' x = last_before (tm c) (tm c x) (A @ B)" if x: "x \<in> set A" "now < tm c x" for x
  proof -
    have "\<not> tm c y < tm c x" if "y \<in> set (e # B)" for y
      using srt x that by (auto simp: future_sorted_append not_less)
    then show ?thesis using x prv(1) old by (simp add: last_before_append last_before_Cons)
  qed
  have prvB: "prv c' x = last_before (tm c) (tm c x) (A @ B)" if x: "x \<in> set B" "now < tm c x" for x
    unfolding last_before_remove [OF srt x] using prv(2) [OF x] old x by simp
  have tmf: "tm c' = tm c" by (auto simp: tm)
  show ?thesis
    using chain srt' prvA prvB ends(2) unfolding clock_shape_def tmf by (auto simp: tm)
qed

text \<open>The event that left is cleared; the others keep their flags.\<close>

abbreviation clear_ev :: "event_id \<Rightarrow> clock \<Rightarrow> clock" where
  "clear_ev e \<equiv> upd_ev e (\<lambda>ev. ev\<lparr>queued := False, ev_next := None, ev_previous := None\<rparr>)"

lemma flags_ok_remove:
  assumes "flags_ok now c (A @ e # B)" and "distinct (A @ e # B)"
    and "\<And>x. tm c' x = tm c x" and "\<And>x. queued (events c' x) = (x \<noteq> e \<and> queued (events c x))"
  shows "flags_ok now c' (A @ B)"
  using assms by (auto simp: flags_ok_def)

text \<open>The search of \<^verbatim>\<open>dequeue\<close> stops at the event and has its predecessor.\<close>

lemma dequeue_search:
  assumes "chain h p (A @ e # B)" and "e \<notin> set A"
  shows "for_ptr (\<lambda>prev x. x \<noteq> e) (\<lambda>prev x. h x) (\<lambda>x prev. Inr (Some x)) p None =
    Inr (Some e, lastp A)"
proof -
  have "find (\<lambda>x. \<not> x \<noteq> e) (A @ e # B) = Some e" "takeWhile (\<lambda>x. x \<noteq> e) (A @ e # B) = A"
    using assms(2) by (induction A) auto
  moreover have "fold (\<lambda>x prev. Some x) A v = (if A = [] then v else lastp A)" for v
    by (induction A rule: rev_induct) auto
  ultimately show ?thesis
    using assms(1) by (subst for_ptr_fold [where xs = "A @ e # B"]) auto
qed

definition nph_remove :: "clock \<Rightarrow> event_id \<Rightarrow> event_id option" where
  "nph_remove c e = (if nonePendingHead c = Some e then nxt c e else nonePendingHead c)"

lemma dequeue_present:
  assumes s: "clock_shape now c (A @ e # B)"
  shows "\<exists>c'. dequeue e c = Inr c' \<and> clock_shape now c' (A @ B) \<and>
    (\<forall>x. tm c' x = tm c x \<and> queued (events c' x) = (x \<noteq> e \<and> queued (events c x))) \<and>
    nonePendingHead c' = nph_remove c e"
proof -
  have dist: "distinct (A @ e # B)" using s by (rule clock_shape_distinct)
  then have eA: "e \<notin> set A" and eB: "e \<notin> set B" by auto
  define c0 where "c0 = (if nonePendingHead c = Some e then c\<lparr>nonePendingHead := nxt c e\<rparr> else c)"
  have c0: "events c0 = events c" "queueHead c0 = queueHead c" "queueTail c0 = queueTail c"
    "nonePendingHead c0 = nph_remove c e"
    by (simp_all add: c0_def nph_remove_def)
  have ch: "chain (nxt c0) (queueHead c0) (A @ e # B)" using s by (simp add: clock_shape_def c0)
  then have h: "queueHead c0 = firstp (A @ e # B)" and ne: "nxt c0 e = firstp B"
    by (auto simp: seg_append dest: chain_firstp) (cases A; simp)
  have search: "for_ptr (\<lambda>prev x. x \<noteq> e) (\<lambda>prev x. nxt c0 x) (\<lambda>x prev. Inr (Some x)) (queueHead c0) None =
      Inr (Some e, lastp A)" using ch eA by (rule dequeue_search)
  have tl: "queueTail c0 = lastp (A @ e # B)" using s by (simp add: clock_shape_def c0)
  have heads: "(queueHead c0 = Some e) = (A = [])" using eA h by (cases A) auto
  have tails: "(queueTail c0 = Some e) = (B = [])"
    using eB tl by (auto simp: lastp_Cons lastp_def)
  define c1 where "c1 = (case lastp A of None \<Rightarrow> c0\<lparr>queueHead := firstp B\<rparr>
      | Some l \<Rightarrow> upd_ev l (\<lambda>ev. ev\<lparr>ev_next := firstp B\<rparr>) c0)"
  define M where "M = (if B \<noteq> [] \<and> tm c e \<noteq> tm c (hd B)
      then set (takeWhile (\<lambda>x. tm c x = tm c (hd B)) B) else {})"
  define c2 where "c2 = (if B = [] then c1\<lparr>queueTail := lastp A\<rparr> else mark M (lastp A) c1)"
  have c1: "tm c1 x = tm c x" "prv c1 x = prv c x" "queued (events c1 x) = queued (events c x)"
    "nxt c1 x = (if lastp A = Some x then firstp B else nxt c x)" "queueTail c1 = queueTail c0"
    "queueHead c1 = firstp (A @ B)" "nonePendingHead c1 = nph_remove c e" for x
    using h by (auto simp: c1_def c0 lastp_def split: option.split) (cases A; simp)+
  have c2: "tm c2 x = tm c x" "prv c2 x = (if x \<in> M then lastp A else prv c x)"
    "queued (events c2 x) = queued (events c x)" "nxt c2 x = nxt c1 x"
    "queueTail c2 = lastp (A @ B)" "queueHead c2 = firstp (A @ B)" "nonePendingHead c2 = nph_remove c e" for x
    using tl by (auto simp: c2_def c1 M_def lastp_append lastp_Cons)
  have "dequeue e c = Inr (clear_ev e c2)"
  proof (cases "B = []")
    case True
    then show ?thesis
      using search heads tails h ne unfolding dequeue_def c0_def [symmetric] c2_def c1_def
      by (cases "lastp A") (auto simp: lastp_def upd_ev_def)
  next
    case False
    then obtain b bs where Bb: "B = b # bs" by (cases B) auto
    have rel: "(if queueHead c0 = Some e then Inr (c0\<lparr>queueHead := nxt c0 e\<rparr>)
        else deref (lastp A) (\<lambda>p. Inr (upd_ev p (\<lambda>ev. ev\<lparr>ev_next := nxt c0 e\<rparr>) c0))) = Inr c1"
      using heads ne by (cases "lastp A") (auto simp: c1_def lastp_def)
    have mk: "set_previous (\<lambda>c x. tm c x = tm c1 b) (Some b) (lastp A) c1 =
        Inr (mark (set (takeWhile (\<lambda>x. tm c x = tm c b) B)) (lastp A) c1)"
    proof -
      have "chain (nxt c1) (Some b) B"
      proof -
        have "chain (nxt c) (Some b) B" using ch ne by (auto simp: c0 seg_append Bb)
        then show ?thesis
          using dist by (subst seg_cong [where h' = "nxt c"]) (auto simp: c1 dest: lastp_in_set)
      qed
      then show ?thesis by (subst set_previous_mark [where xs = B]) (auto simp: c1)
    qed
    have n1: "nxt c1 e = Some b" using eA ne c0 by (auto simp: c1 Bb lastp_def)
    show ?thesis
      unfolding dequeue_def c0_def [symmetric] Let_def search
      using h False tails rel n1 mk
      by (auto simp: c2_def M_def Bb c1 mark_def)
  qed
  moreover have "clock_shape now c2 (A @ B)"
  proof (rule shape_remove [OF s])
    show "prv c2 x = (if tm c e \<noteq> tm c (hd B) \<and> tm c x = tm c (hd B) then lastp A else prv c x)"
      if x: "x \<in> set B" "now < tm c x" for x
    proof (cases B)
      case (Cons b bs)
      have "future_sorted now (tm c) B"
        using s by (simp add: clock_shape_def future_sorted_append future_sorted_Cons)
      then have "set (takeWhile (\<lambda>x. tm c x = tm c b) B) = {x \<in> set B. tm c x = tm c b}" if "now < tm c b"
        using that unfolding Cons by (rule block_takeWhile)
      then have "x \<in> M \<longleftrightarrow> tm c e \<noteq> tm c b \<and> tm c x = tm c b"
        using x by (auto simp: M_def Cons dest: set_takeWhileD)
      then show ?thesis by (simp add: c2 Cons)
    qed (use x in simp)
    show "prv c2 x = prv c x" if "x \<in> set A" for x
      using that dist by (auto simp: c2 M_def dest: set_takeWhileD)
    show "nxt c2 x = nxt c x" if "x \<in> set B" for x
      using that dist by (auto simp: c2 c1 dest: lastp_in_set)
  qed (auto simp: c2 c1)
  then have "clock_shape now (clear_ev e c2) (A @ B)"
    using eA eB by (subst clock_shape_cong [where c = c2]) auto
  ultimately show ?thesis by (auto simp: c2)
qed

lemma dequeue_spec:
  assumes r: "clock_rep now c xs"
  shows "\<exists>c'. dequeue e c = Inr c' \<and> clock_rep now c' (remove1 e xs) \<and>
    (\<forall>x. tm c' x = tm c x \<and> queued (events c' x) = (x \<noteq> e \<and> queued (events c x))) \<and>
    (e \<in> set xs \<longrightarrow> nonePendingHead c' = nph_remove c e)"
proof (cases "e \<in> set xs")
  case True
  then obtain A B where xs: "xs = A @ e # B" and "e \<notin> set A" by (metis split_list_first)
  then have rm: "remove1 e xs = A @ B" by (simp add: remove1_append)
  have s: "clock_shape now c (A @ e # B)" and f: "flags_ok now c (A @ e # B)"
    using r by (simp_all add: clock_rep_def xs)
  obtain c' where c': "dequeue e c = Inr c'" "clock_shape now c' (A @ B)"
    "\<forall>x. tm c' x = tm c x \<and> queued (events c' x) = (x \<noteq> e \<and> queued (events c x))"
    "nonePendingHead c' = nph_remove c e"
    using dequeue_present [OF s] by blast
  have "flags_ok now c' (A @ B)"
    by (rule flags_ok_remove [OF f clock_shape_distinct [OF s]]) (use c'(3) in blast)+
  then show ?thesis using c' by (simp add: clock_rep_def rm)
next
  case False
  define c0 where "c0 = (if nonePendingHead c = Some e then c\<lparr>nonePendingHead := nxt c e\<rparr> else c)"
  have ch: "chain (nxt c0) (queueHead c0) xs" using r by (simp add: clock_rep_def clock_shape_def c0_def)
  have "find (\<lambda>x. \<not> x \<noteq> e) xs = None" using False by (induction xs) auto
  then have "for_ptr (\<lambda>prev x. x \<noteq> e) (\<lambda>prev x. nxt c0 x) (\<lambda>x prev. Inr (Some x)) (queueHead c0) None =
      Inr (None, fold (\<lambda>x prev. Some x) (takeWhile (\<lambda>x. x \<noteq> e) xs) None)"
    using ch by (subst for_ptr_fold [where xs = xs]) auto
  then have "dequeue e c = Inr (clear_ev e c0)"
    unfolding dequeue_def c0_def [symmetric] by (simp add: Let_def)
  moreover have "clock_rep now (clear_ev e c0) xs"
    using r False unfolding clock_rep_def
    by (subst clock_shape_cong [where c = c]) (auto simp: c0_def flags_ok_def)
  ultimately show ?thesis using False by (auto simp: remove1_idem c0_def)
qed

section \<open>The pending events\<close>

lemma readFirstPending_spec:
  assumes r: "clock_rep now c (h # B)" and due: "tm c h \<le> now"
  shows "\<exists>c'. readFirstPending now c = Inr (c', Some h) \<and> clock_rep now c' B \<and>
    (\<forall>x. tm c' x = tm c x) \<and> nonePendingHead c' = nph_remove c h"
proof -
  have s: "clock_shape now c ([] @ h # B)" and f: "flags_ok now c ([] @ h # B)"
    using r by (auto simp: clock_rep_def)
  have dist: "distinct (h # B)" using clock_shape_distinct [OF s] by simp
  have ch: "chain (nxt c) (queueHead c) (h # B)" using s by (simp add: clock_shape_def)
  then have h: "queueHead c = Some h" and nh: "nxt c h = firstp B" by (auto dest: chain_firstp)
  define c1 where "c1 = (upd_ev h (\<lambda>ev. ev\<lparr>queued := False, ev_next := None\<rparr>)
      (if nonePendingHead c = Some h then c\<lparr>nonePendingHead := nxt c h\<rparr> else c))\<lparr>queueHead := firstp B\<rparr>"
  have c1: "tm c1 x = tm c x" "prv c1 x = prv c x" "nxt c1 x = (if x = h then None else nxt c x)"
    "queued (events c1 x) = (x \<noteq> h \<and> queued (events c x))" "queueTail c1 = queueTail c"
    "queueHead c1 = firstp B" "nonePendingHead c1 = nph_remove c h" for x
    by (auto simp: c1_def nph_remove_def)
  define M where "M = (if B \<noteq> [] \<and> prv c (hd B) \<noteq> None
      then set (takeWhile (\<lambda>x. tm c x = tm c (hd B)) B) else {})"
  define c' where "c' = (if B = [] then c1\<lparr>queueTail := None\<rparr> else mark M None c1)"
  have c': "tm c' x = tm c x" "prv c' x = (if x \<in> M then None else prv c x)" "nxt c' x = nxt c1 x"
    "queued (events c' x) = (x \<noteq> h \<and> queued (events c x))" "queueTail c' = lastp B"
    "queueHead c' = firstp B" "nonePendingHead c' = nph_remove c h" for x
    using s by (auto simp: c'_def c1 M_def clock_shape_def lastp_Cons)
  have run: "readFirstPending now c = Inr (c', Some h)"
  proof (cases B)
    case Nil
    then show ?thesis using h nh due by (simp add: readFirstPending_def c'_def c1_def Let_def)
  next
    case (Cons b bs)
    have "chain (nxt c1) (Some b) B"
      using ch dist Cons by (subst seg_cong [where h' = "nxt c"]) (auto simp: c1)
    then have "set_previous (\<lambda>c x. tm c x = tm c1 b) (Some b) None c1 =
        Inr (mark (set (takeWhile (\<lambda>x. tm c x = tm c b) B)) None c1)"
      by (subst set_previous_mark [where xs = B]) (auto simp: c1)
    moreover have "readFirstPending now c =
        (if prv c1 b \<noteq> None
         then bindR (set_previous (\<lambda>c x. tm c x = tm c1 b) (Some b) None c1) (\<lambda>c2. Inr (c2, Some h))
         else Inr (c1, Some h))"
      using h nh due by (simp add: readFirstPending_def Let_def c1_def Cons)
    ultimately show ?thesis by (auto simp: c1(2) c'_def M_def Cons mark_def)
  qed
  have "clock_shape now c' ([] @ B)"
  proof (rule shape_remove [OF s])
    fix x assume x: "x \<in> set B" "now < tm c x"
    then obtain b bs where Bb: "B = b # bs" by (cases B) auto
    have srt: "future_sorted now (tm c) (b # bs)" using s by (simp add: clock_shape_def Bb future_sorted_Cons)
    show "prv c' x = (if tm c h \<noteq> tm c (hd B) \<and> tm c x = tm c (hd B) then lastp [] else prv c x)"
    proof (cases "now < tm c b")
      case True
      then have "prv c b = last_before (tm c) (tm c b) (h # B)"
        using s by (simp add: clock_shape_def Bb)
      then have "prv c b \<noteq> None" using True due by (auto simp: last_before_def filter_empty_conv)
      then show ?thesis
        using block_takeWhile [OF srt True] True due x by (auto simp: c' M_def Bb)
    next
      case False
      then have "x \<notin> M" "tm c x \<noteq> tm c b" using x by (auto simp: M_def Bb dest: set_takeWhileD)
      then show ?thesis by (simp add: c' Bb)
    qed
  qed (use dist in \<open>auto simp: c' c1\<close>)
  moreover have "flags_ok now c' ([] @ B)"
    by (rule flags_ok_remove [OF f]) (use dist in \<open>simp_all add: c'\<close>)
  ultimately show ?thesis using run by (auto simp: clock_rep_def c')
qed

lemma readFirstPending_none:
  assumes "clock_rep now c xs" and "\<not> (\<exists>x ys. xs = x # ys \<and> tm c x \<le> now)"
  shows "readFirstPending now c = Inr (c, None)"
  using assms by (cases xs) (auto simp: readFirstPending_def clock_rep_def clock_shape_def)

section \<open>Clearing the queue\<close>

lemma clear_chain:
  assumes "chain (nxt c) p xs"
  shows "\<exists>c' v'. for_ptr (\<lambda>s x. True) (\<lambda>s x. snd s)
      (\<lambda>x s. Inr (clear_ev x (fst s), nxt (fst s) x)) p (c, v) = Inr (None, (c', v')) \<and>
    (\<forall>x. tm c' x = tm c x \<and> queued (events c' x) = (x \<notin> set xs \<and> queued (events c x))) \<and>
    nonePendingHead c' = nonePendingHead c"
  using assms
proof (induction xs arbitrary: c p v)
  case Nil
  then show ?case by simp
next
  case (Cons a xs)
  then have p: "p = Some a" and a: "a \<notin> set xs" using chain_distinct [OF Cons.prems] by auto
  define c1 where "c1 = clear_ev a c"
  have "chain (nxt c1) (nxt c a) xs"
    using Cons.prems a by (subst seg_cong [where h' = "nxt c"]) (auto simp: c1_def)
  from Cons.IH [OF this, of "nxt c a"] show ?case
    by (auto simp: p for_ptr_Some c1_def [symmetric]) (auto simp: c1_def split: if_splits)
qed

lemma dequeueAll_spec:
  assumes "clock_rep now c xs"
  shows "\<exists>c'. dequeueAll c = Inr c' \<and> clock_rep now c' [] \<and> (\<forall>x. tm c' x = tm c x) \<and>
    nonePendingHead c' = None"
proof -
  have "chain (nxt (c\<lparr>nonePendingHead := None\<rparr>)) (queueHead c) xs"
    using assms by (simp add: clock_rep_def clock_shape_def)
  from clear_chain [OF this, of None] obtain c' v' where
    l: "for_ptr (\<lambda>s x. True) (\<lambda>s x. snd s) (\<lambda>x s. Inr (clear_ev x (fst s), nxt (fst s) x))
          (queueHead c) (c\<lparr>nonePendingHead := None\<rparr>, None) = Inr (None, (c', v'))" and
    c': "\<forall>x. tm c' x = tm c x \<and> queued (events c' x) = (x \<notin> set xs \<and> queued (events c x))"
      "nonePendingHead c' = None"
    by auto
  have "\<not> queued (events c' x)" for x
    using assms c'(1) by (auto simp: clock_rep_def flags_ok_def)
  with l c' show ?thesis
    by (auto simp: dequeueAll_def clock_rep_def clock_shape_def flags_ok_def future_sorted_def)
qed

section \<open>The next start time\<close>

text \<open>\<^verbatim>\<open>nonePendingHead\<close> is a hint: nothing in front of it starts in the future.\<close>

definition nph_ok :: "time \<Rightarrow> clock \<Rightarrow> event_id list \<Rightarrow> bool" where
  "nph_ok now c xs \<longleftrightarrow>
     (\<forall>p. nonePendingHead c = Some p \<longrightarrow> (\<exists>A B. xs = A @ p # B \<and> (\<forall>x\<in>set A. tm c x \<le> now)))"

lemma nph_ok_init: "nph_ok now clock_init []"
  by (simp add: nph_ok_def clock_init_def)

lemma nph_ok_later: "nph_ok now c xs \<Longrightarrow> now \<le> now' \<Longrightarrow> nph_ok now' c xs"
  by (fastforce simp: nph_ok_def)

definition first_future :: "time \<Rightarrow> (event_id \<Rightarrow> time) \<Rightarrow> event_id list \<Rightarrow> event_id option" where
  "first_future now f xs = find (\<lambda>x. now < f x) xs"

lemma search_future:
  assumes "chain (nxt c) p xs"
  shows "for_ptr (\<lambda>nst x. nst = 0) (\<lambda>nst x. if tm c x \<le> now then nxt c x else Some x)
      (\<lambda>x nst. Inr (if tm c x \<le> now then nst else tm c x)) p 0 =
    Inr (first_future now (tm c) xs,
         case first_future now (tm c) xs of None \<Rightarrow> 0 | Some x \<Rightarrow> tm c x)"
  using assms
proof (induction xs arbitrary: p)
  case Nil
  then show ?case by (simp add: first_future_def)
next
  case (Cons a xs)
  then have p: "p = Some a" by simp
  show ?case
  proof (cases "tm c a \<le> now")
    case True
    then show ?thesis using Cons by (simp add: p for_ptr_Some first_future_def leD)
  next
    case False
    then have "tm c a \<noteq> 0" by auto
    then show ?thesis using False by (auto simp: p for_ptr_Some first_future_def)
  qed
qed

lemma getNextStartTime_spec:
  assumes r: "clock_rep now c xs" and n: "nph_ok now c xs"
  shows "\<exists>c'. getNextStartTime now c =
      Inr (c', case first_future now (tm c) xs of None \<Rightarrow> 0 | Some x \<Rightarrow> tm c x) \<and>
    clock_rep now c' xs \<and> nph_ok now c' xs"
proof -
  have ch: "chain (nxt c) (queueHead c) xs" using r by (simp add: clock_rep_def clock_shape_def)
  obtain A B where xs: "xs = A @ B" and A: "\<forall>x\<in>set A. tm c x \<le> now" and
    p: "(if nonePendingHead c = None then queueHead c else nonePendingHead c) = firstp B"
  proof (cases "nonePendingHead c")
    case None
    then show ?thesis using that [of "[]" xs] chain_firstp [OF ch] by simp
  next
    case (Some q)
    then show ?thesis using n that by (force simp: nph_ok_def)
  qed
  have cB: "chain (nxt c) (firstp B) B" using ch by (auto simp: xs seg_append dest: chain_firstp)
  have ff: "first_future now (tm c) B = first_future now (tm c) xs"
    unfolding first_future_def xs using A by (induction A) (auto simp: leD)
  define c' where "c' = c\<lparr>nonePendingHead := first_future now (tm c) xs\<rparr>"
  have "getNextStartTime now c =
      Inr (c', case first_future now (tm c) xs of None \<Rightarrow> 0 | Some x \<Rightarrow> tm c x)"
    unfolding getNextStartTime_def p search_future [OF cB] ff by (simp add: c'_def)
  moreover have "clock_rep now c' xs"
    using r by (auto simp: clock_rep_def clock_shape_def flags_ok_def c'_def)
  moreover have "nph_ok now c' xs"
  proof -
    have "\<exists>A B. xs = A @ q # B \<and> (\<forall>x\<in>set A. tm c x \<le> now)"
      if "first_future now (tm c) xs = Some q" for q
      using find_SomeD [OF that [unfolded first_future_def]] by (auto simp: not_less)
    then show ?thesis by (simp add: nph_ok_def c'_def)
  qed
  ultimately show ?thesis by blast
qed

text \<open>The first event in the future is one of the earliest in the future.\<close>

lemma first_future_min:
  assumes "future_sorted now f xs" and "first_future now f xs = Some x" and "y \<in> set xs" and "now < f y"
  shows "x \<in> set xs" and "now < f x" and "f x \<le> f y"
proof -
  obtain A B where xs: "xs = A @ x # B" and nx: "now < f x" and A: "\<forall>a\<in>set A. \<not> now < f a"
    using find_SomeD [OF assms(2) [unfolded first_future_def]] by blast
  show "x \<in> set xs" "now < f x" using nx by (auto simp: xs)
  show "f x \<le> f y"
    using assms nx A by (auto simp: xs future_sorted_append future_sorted_Cons)
qed

lemma first_future_None: "first_future now f xs = None \<longleftrightarrow> (\<forall>x\<in>set xs. f x \<le> now)"
  by (auto simp: first_future_def find_None_iff not_less)

section \<open>The life of the queue\<close>

text \<open>
  Any sequence of starts, cancellations, resets and fetches of pending events, with time
  passing in between. An event is started only when it is not waiting already.
\<close>

inductive clock_run :: "time \<Rightarrow> clock \<Rightarrow> event_id list \<Rightarrow> bool" where
  run_init: "clock_run now clock_init []"
| run_later: "clock_run now c xs \<Longrightarrow> now \<le> now' \<Longrightarrow> clock_run now' c xs"
| run_start: "clock_run now c xs \<Longrightarrow> e \<notin> set xs \<Longrightarrow> now < 2 ^ 63 \<Longrightarrow> t < 2 ^ 63 \<Longrightarrow>
    startAt now e t c = Inr (c', calls) \<Longrightarrow> clock_run now c' (place_event now (tm c') e xs)"
| run_cancel: "clock_run now c xs \<Longrightarrow> dequeue e c = Inr c' \<Longrightarrow> clock_run now c' (remove1 e xs)"
| run_clear: "clock_run now c xs \<Longrightarrow> dequeueAll c = Inr c' \<Longrightarrow> clock_run now c' []"
| run_fetch: "clock_run now c xs \<Longrightarrow> readFirstPending now c = Inr (c', Some h) \<Longrightarrow>
    clock_run now c' (tl xs)"

lemma start_rep:
  assumes "clock_rep now c xs" and "e \<notin> set xs" and "now < 2 ^ 63" and "t < 2 ^ 63"
  shows "\<exists>c'. startAt now e t c = Inr (c', start_calls now (tm c') e xs) \<and>
    clock_rep now c' (place_event now (tm c') e xs) \<and> tm c' = (tm c)(e := t)"
proof -
  obtain c' where c': "startAt now e t c =
      Inr (c', start_calls now (tm (upd_ev e (\<lambda>ev. ev\<lparr>nextActivation_ms := t\<rparr>) c)) e xs)"
    "clock_rep now c' (place_event now (tm (upd_ev e (\<lambda>ev. ev\<lparr>nextActivation_ms := t\<rparr>) c)) e xs)"
    "\<forall>x. tm c' x = tm (upd_ev e (\<lambda>ev. ev\<lparr>nextActivation_ms := t\<rparr>) c) x"
    using place_spec [OF assms] by blast
  have "tm c' = (tm c)(e := t)" using c'(3) by auto
  moreover have "tm (upd_ev e (\<lambda>ev. ev\<lparr>nextActivation_ms := t\<rparr>) c) = tm c'" using c'(3) by auto
  ultimately show ?thesis using c'(1,2) by (metis (no_types))
qed

lemma clock_run_rep: "clock_run now c xs \<Longrightarrow> clock_rep now c xs"
proof (induction rule: clock_run.induct)
  case (run_start now c xs e t c' calls)
  then show ?case using start_rep [of now c xs e t] by auto
next
  case (run_cancel now c xs e c')
  then show ?case using dequeue_spec [of now c xs e] by auto
next
  case (run_clear now c xs c')
  then show ?case using dequeueAll_spec [of now c xs] by auto
next
  case (run_fetch now c xs c' h)
  then obtain ys where "xs = h # ys" and "tm c h \<le> now"
    by (cases xs) (auto simp: readFirstPending_def clock_rep_def clock_shape_def Let_def bindR_eq_Inr
        split: if_splits option.splits)
  then show ?case using readFirstPending_spec [of now c h ys] run_fetch by auto
qed (auto simp: clock_rep_init clock_rep_later)

text \<open>A clock for the witnesses: event 3 for the time 20 and event 2 for the time 10.\<close>

lemmas clock_eval = startAt_def enqueue_def enqueueHead_def readFirstPending_def getNextStartTime_def
  dequeue_def set_previous_def for_ptr_Some int64_diff_def Let_def upd_ev_def clock_init_def event_init_def

lemma clock_example:
  "\<exists>c. clock_run 0 c [2, 3] \<and> tm c 3 = 20 \<and> tm c 2 = 10 \<and> nph_ok 0 c [2, 3]"
proof -
  obtain c1 where c1: "startAt 0 3 20 clock_init = Inr (c1, start_calls 0 (tm c1) 3 [])"
    "tm c1 = (tm clock_init)(3 := 20)"
    using start_rep [OF clock_rep_init, of 3 0 20] by auto
  have "nonePendingHead c1 = None"
    using c1(1) by (auto simp: clock_eval)
  have r1: "clock_run 0 c1 [3]"
    using run_start [OF run_init _ _ _ c1(1)] c1(2) by (simp add: place_event_def insert_event_def)
  obtain c2 where c2: "startAt 0 2 10 c1 = Inr (c2, start_calls 0 (tm c2) 2 [3])"
    "tm c2 = (tm c1)(2 := 10)"
    using start_rep [OF clock_run_rep [OF r1], of 2 10] by auto
  have "clock_run 0 c2 [2, 3]"
    using run_start [OF r1 _ _ _ c2(1)] c2(2) c1(2) by (simp add: place_event_def insert_event_def)
  moreover have "nonePendingHead c2 = None"
    using place_spec [OF clock_run_rep [OF r1], of 2 10] c2(1) \<open>nonePendingHead c1 = None\<close>
      fun_cong [OF c1(2), of 3]
    by (auto simp: nph_insert_def Let_def)
  moreover have "tm c2 3 = 20" "tm c2 2 = 10"
    using fun_cong [OF c2(2), of 3] fun_cong [OF c2(2), of 2] fun_cong [OF c1(2), of 3] by auto
  ultimately show ?thesis by (intro exI [of _ c2]) (simp add: nph_ok_def)
qed

section \<open>Properties\<close>

text \<open>C3: Starting an event for the time \<open>t\<close> succeeds, in every clock that a sequence of starts, cancellations, clearings
  and fetches can lead to, for times below 2 to the 63 and unless the event waits in the queue with its time reached and without
  the flag \<^verbatim>\<open>queued\<close>. An event that is in the queue already stays as it is, and nothing is called. Any other event goes
  where it belongs: behind every event that is not later when \<open>t\<close> lies in the future, in front of the queue
  otherwise; no other event's time changes, and the call asks for the timer exactly when the event is the next one in
  the future, or for a signal to the scheduler when it is due. Events for the same time thereby keep the order of their starts,
  as the test \<^verbatim>\<open>EnqueueSeveralElements\<close> expects and other than the comment in \<^verbatim>\<open>clock_impl.h\<close>, line 84, says.\<close>
theorem startAt_refines:
  assumes "clock_run now c xs" and "e \<in> set xs \<longrightarrow> queued (events c e)" and "now < 2 ^ 63" and "t < 2 ^ 63"
  shows "\<exists>c' calls. startAt now e t c = Inr (c', calls) \<and>
    (if e \<in> set xs then c' = c \<and> calls = []
     else calls = start_calls now (tm c') e xs \<and> clock_rep now c' (place_event now (tm c') e xs) \<and> tm c' = (tm c)(e := t))"
proof (cases "e \<in> set xs")
  case True
  then show ?thesis using assms(2) by (simp add: startAt_def)
next
  case False
  then show ?thesis using start_rep [OF clock_run_rep [OF assms(1)] False assms(3,4)] by auto
qed

theorem startAt_refines_witness:
  "\<exists>c c'. tm c 3 = 20 \<and> tm c 2 = 10 \<and> startAt 0 4 10 c = Inr (c', []) \<and> clock_rep 0 c' [2, 4, 3] \<and> startAt 0 3 5 c = Inr (c, [])"
proof -
  obtain c where c: "clock_run 0 c [2, 3]" "tm c 3 = 20" "tm c 2 = 10" using clock_example by auto
  obtain c' where c': "startAt 0 4 10 c = Inr (c', start_calls 0 (tm c') 4 [2, 3])"
    "clock_rep 0 c' (place_event 0 (tm c') 4 [2, 3])" "tm c' = (tm c)(4 := 10)"
    using startAt_refines [OF c(1), of 4 10] by auto
  have "tm c' 2 = 10" "tm c' 3 = 20" "tm c' 4 = 10"
    using c(2,3) fun_cong [OF c'(3), of 2] fun_cong [OF c'(3), of 3] fun_cong [OF c'(3), of 4] by auto
  moreover have "queued (events c 3)" using clock_run_rep [OF c(1)] c(2) by (simp add: clock_rep_def flags_ok_def)
  then have "startAt 0 3 5 c = Inr (c, [])" using startAt_refines [OF c(1), of 3 5] by auto
  ultimately show ?thesis using c c'
    by (intro exI [of _ c] exI [of _ c']) (simp add: start_calls_def place_event_def insert_event_def first_start_def)
qed

text \<open>C23: Cancelling an event takes exactly that event out of the queue and keeps the others, their
  order, their times and their pointers to the last earlier event.\<close>
theorem dequeue_refines:
  assumes "clock_run now c xs"
  shows "\<exists>c'. dequeue e c = Inr c' \<and> clock_rep now c' (remove1 e xs) \<and> tm c' = tm c \<and>
    (\<forall>x. queued (events c' x) = (x \<noteq> e \<and> queued (events c x)))"
  using dequeue_spec [OF clock_run_rep [OF assms], of e] by (auto simp: fun_eq_iff)

theorem dequeue_refines_witness:
  "\<exists>c c'. clock_run 0 c [2, 3] \<and> dequeue 2 c = Inr c' \<and> clock_rep 0 c' [3]"
  using clock_example dequeue_refines [where e = 2] by fastforce

text \<open>C4: Fetching a pending event returns an event that is due and removes it, and returns none only
  if no event in the queue is due: no start is missed.\<close>
theorem readFirstPending_complete:
  assumes "clock_run now c xs"
  shows "\<exists>c' r. readFirstPending now c = Inr (c', r) \<and>
    (case r of
       None \<Rightarrow> c' = c \<and> (\<forall>x\<in>set xs. now < tm c x)
     | Some e \<Rightarrow> tm c e \<le> now \<and> xs = e # tl xs \<and> clock_rep now c' (tl xs) \<and> tm c' = tm c)"
proof (cases "\<exists>x ys. xs = x # ys \<and> tm c x \<le> now")
  case True
  then obtain x ys where "xs = x # ys" "tm c x \<le> now" by blast
  then show ?thesis
    using readFirstPending_spec [of now c x ys] clock_run_rep [OF assms] by (auto simp: fun_eq_iff)
next
  case False
  have srt: "future_sorted now (tm c) xs"
    using clock_run_rep [OF assms] by (simp add: clock_rep_def clock_shape_def)
  have "now < tm c x" if "x \<in> set xs" for x
    using False srt that by (cases xs) (auto simp: future_sorted_Cons not_le)
  then show ?thesis using readFirstPending_none [OF clock_run_rep [OF assms] False] by simp
qed

theorem readFirstPending_complete_witness:
  "\<exists>c c'. clock_run 15 c [2, 3] \<and> readFirstPending 15 c = Inr (c', Some 2) \<and> clock_rep 15 c' [3]"
proof -
  obtain c where c: "clock_run 0 c [2, 3]" "tm c 3 = 20" "tm c 2 = 10" using clock_example by auto
  then have r: "clock_run 15 c [2, 3]" by (simp add: run_later [OF c(1)])
  show ?thesis using readFirstPending_complete [OF r] c r by (auto split: option.splits)
qed

text \<open>C26: As long as \<^verbatim>\<open>nonePendingHead\<close> is a true hint, the next start time is the time of the
  earliest event in the future, and 0 if there is none; the call leaves a true hint.\<close>
theorem getNextStartTime_earliest:
  assumes "clock_run now c xs" and "nph_ok now c xs"
  shows "\<exists>c' t. getNextStartTime now c = Inr (c', t) \<and> clock_rep now c' xs \<and> nph_ok now c' xs \<and>
    (if \<exists>x\<in>set xs. now < tm c x then t = Min (tm c ` {x \<in> set xs. now < tm c x}) else t = 0)"
proof -
  have r: "clock_rep now c xs" using assms(1) by (rule clock_run_rep)
  then have srt: "future_sorted now (tm c) xs" by (simp add: clock_rep_def clock_shape_def)
  show ?thesis
  proof (cases "first_future now (tm c) xs")
    case None
    then have "\<forall>x\<in>set xs. tm c x \<le> now" by (simp add: first_future_None)
    then show ?thesis using getNextStartTime_spec [OF r assms(2)] None by (auto simp: leD)
  next
    case (Some x)
    then have x: "x \<in> set xs" "now < tm c x"
      using find_SomeD by (fastforce simp: first_future_def)+
    then have "Min (tm c ` {x \<in> set xs. now < tm c x}) = tm c x"
      using first_future_min [OF srt Some] by (intro Min_eqI) auto
    then show ?thesis using getNextStartTime_spec [OF r assms(2)] Some x by auto
  qed
qed

theorem getNextStartTime_earliest_witness:
  "\<exists>c c'. clock_run 0 c [2, 3] \<and> nph_ok 0 c [2, 3] \<and> getNextStartTime 0 c = Inr (c', 10)"
proof -
  obtain c where c: "clock_run 0 c [2, 3]" "tm c 3 = 20" "tm c 2 = 10" "nph_ok 0 c [2, 3]"
    using clock_example by auto
  have "{x \<in> set [2, 3]. 0 < tm c x} = {2, 3}" using c(2,3) by auto
  then show ?thesis
    using getNextStartTime_earliest [OF c(1,4)] c by (auto simp: image_insert)
qed




text \<open>When the first two starts are appended to the queue, the next start time skips the earlier one:
  \<^verbatim>\<open>event.next == nonePendingHead\<close> holds although both are null.\<close>
theorem getNextStartTime_skips:
  "bindR (startAt 0 1 10 clock_init) (\<lambda>(c1, _). bindR (startAt 0 2 20 c1) (\<lambda>(c2, _).
   bindR (getNextStartTime 0 c2) (\<lambda>(c3, t). Inr (t, getHeadTime c3)))) = Inr (20, 10)"
  by (simp add: clock_eval getHeadTime_def)

end
