(* ===== verification/TaskUtils.thy ===== *)
theory TaskUtils
  imports Prelude
begin

text \<open>
  Identifications and names (\<^verbatim>\<open>include/impl/taskUtils_impl.h\<close>, \<^verbatim>\<open>src/taskUtils.cpp\<close>):
  up to four characters of a name are packed into an unsigned 32 bit number. The templates
  are modelled at the width of \<^verbatim>\<open>TaskId\<close> and \<^verbatim>\<open>ChannelId\<close>, a \<^verbatim>\<open>char\<close> is signed as on the
  supported platforms, and the memory behind a \<^verbatim>\<open>char*\<close> is a list of bytes.
\<close>

unbundle bit_operations_syntax

type_synonym id32 = "32 word"
type_synonym byte = "8 word"

section \<open>Names to identifications\<close>

text \<open>The loop: \<open>i\<close> characters are read, \<open>idv\<close> is the identification so far.\<close>

function id_loop :: "byte list \<Rightarrow> nat \<Rightarrow> id32 \<Rightarrow> (id32 \<times> nat) res" where
  "id_loop name i idv =
     (if i < 4
      then if i < length name
           then if name ! i \<noteq> 0 then id_loop name (Suc i) (push_bit 8 idv + scast (name ! i))
                else Inr (idv, i)
           else Inl OutOfBounds
      else Inr (idv, i))"
  by pat_completeness auto
termination by (relation "measure (\<lambda>(name, i, idv). 4 - i)") auto

declare id_loop.simps [simp del]

definition getIdentificationFromName :: "byte list option \<Rightarrow> id32 res" where
  "getIdentificationFromName name =
     (case name of
        None \<Rightarrow> Inr 0
      | Some s \<Rightarrow>
          if s = [] then Inl OutOfBounds
          else if s ! 0 \<noteq> 0
          then bindR (id_loop s 0 0) (\<lambda>(idv, i). Inr (push_bit (8 * (4 - i)) idv))
          else Inr 0)"

section \<open>Identifications to names\<close>

text \<open>
  The loop writes \<open>buffer[pos]\<close> while there is room before the last byte and bits are left.
\<close>

function text_loop :: "id32 \<Rightarrow> nat \<Rightarrow> nat \<Rightarrow> nat \<Rightarrow> byte list \<Rightarrow> byte list res" where
  "text_loop idv len pos shift buffer =
     (if pos < len - 1 \<and> shift > 0
      then if pos < length buffer
           then text_loop idv len (Suc pos) (shift - 8)
                  (buffer[pos := ucast (drop_bit (shift - 8) idv AND 0xFF)])
           else Inl OutOfBounds
      else Inr buffer)"
  by pat_completeness auto
termination by (relation "measure (\<lambda>(idv, len, pos, shift, buffer). shift)") auto

declare text_loop.simps [simp del]

definition convertIdentificationToString :: "id32 \<Rightarrow> byte list option \<Rightarrow> nat \<Rightarrow> byte list option res" where
  "convertIdentificationToString idv buffer len =
     (case buffer of
        None \<Rightarrow> Inr None
      | Some b \<Rightarrow>
          if len > 1
          then bindR (text_loop idv len 0 32 b) (\<lambda>b1.
                 let p = (if len > 5 then 4 else len - 1)
                 in if p < length b1 then Inr (Some (b1[p := 0])) else Inl OutOfBounds)
          else Inr (Some b))"

text \<open>The two constructors of \<^verbatim>\<open>IdConverter\<close>: a buffer of five bytes.\<close>

definition idConverter :: "id32 \<Rightarrow> byte list option res" where
  "idConverter idv = convertIdentificationToString idv (Some (replicate 5 0)) 5"

section \<open>Round trips\<close>

text \<open>The characters that may stand in a name: seven bits, not zero.\<close>

definition plain_char :: "byte \<Rightarrow> bool" where
  "plain_char c \<longleftrightarrow> c \<noteq> 0 \<and> c < 128"

lemma bit_byte: "bit (c :: byte) n \<Longrightarrow> n < 8"
  using bit_imp_le_length [of c n] by simp

lemma bit_255 [simp]: "bit (255 :: id32) n \<longleftrightarrow> n < 8"
proof -
  have "bit (255 :: id32) n = bit (mask 8 :: id32) n" by (simp add: mask_eq_exp_minus_1)
  also have "\<dots> \<longleftrightarrow> n < 8" by (simp only: bit_mask_iff) auto
  finally show ?thesis .
qed

lemma bit_255_byte [simp]: "bit (255 :: byte) n \<longleftrightarrow> n < 8"
proof -
  have "bit (255 :: byte) n = bit (mask 8 :: byte) n" by (simp add: mask_eq_exp_minus_1)
  also have "\<dots> \<longleftrightarrow> n < 8" by (simp only: bit_mask_iff) auto
  finally show ?thesis .
qed

lemma bit_255_int [simp]: "bit (255 :: int) n \<longleftrightarrow> n < 8"
proof -
  have "bit (255 :: int) n = bit (mask 8 :: int) n" by (simp add: mask_eq_exp_minus_1)
  also have "\<dots> \<longleftrightarrow> n < 8" by (simp only: bit_mask_iff) auto
  finally show ?thesis .
qed

lemma replicate_3_4: "replicate 3 x = [x, x, x]" "replicate 4 x = [x, x, x, x]"
  by (simp_all add: numeral_eq_Suc)

lemma plain_scast:
  assumes "plain_char c"
  shows "scast c = (ucast c :: id32)"
proof -
  have "take_bit 7 c = c" using assms by (simp add: plain_char_def take_bit_eq_mod mod_word_less)
  then have "\<not> bit c n" if "7 \<le> n" for n using that by (metis bit_take_bit_iff not_le)
  then show ?thesis
    by (intro bit_word_eqI) (auto simp: bit_simps min_def)
qed

text \<open>The four characters in the order in which they are shifted in.\<close>

definition pack :: "byte \<Rightarrow> byte \<Rightarrow> byte \<Rightarrow> byte \<Rightarrow> id32" where
  "pack a b c d = push_bit 8 (push_bit 8 (push_bit 8 (ucast a) + ucast b) + ucast c) + ucast d"

lemma shift_in: "push_bit 8 x + ucast (c :: byte) = push_bit 8 x OR (ucast c :: id32)"
  by (rule disjunctive_add) (auto simp: bit_simps dest: bit_byte)

lemma pack_or:
  "pack a b c d = push_bit 24 (ucast a) OR push_bit 16 (ucast b) OR push_bit 8 (ucast c) OR ucast d"
  unfolding pack_def shift_in by (rule bit_word_eqI) (auto simp: bit_simps dest: bit_byte)

lemma id_of_name:
  assumes "\<forall>c\<in>set cs. plain_char c"
  shows "getIdentificationFromName (Some (cs @ 0 # rest)) =
    Inr (pack (take 4 (cs @ replicate 4 0) ! 0) (take 4 (cs @ replicate 4 0) ! 1)
              (take 4 (cs @ replicate 4 0) ! 2) (take 4 (cs @ replicate 4 0) ! 3))"
proof -
  consider "cs = []" | a where "cs = [a]" | a b where "cs = [a, b]" | a b c where "cs = [a, b, c]"
    | a b c d es where "cs = a # b # c # d # es"
    by (metis list.exhaust)
  then show ?thesis
    using assms
    by cases (auto simp: getIdentificationFromName_def id_loop.simps plain_scast pack_def
        numeral_eq_Suc plain_char_def [THEN iffD1] push_bit_eq_mult algebra_simps)
qed

lemma unpack:
  "ucast (drop_bit 24 (pack a b c d) AND 255) = a" "ucast (drop_bit 16 (pack a b c d) AND 255) = b"
  "ucast (drop_bit 8 (pack a b c d) AND 255) = c" "ucast (pack a b c d AND 255) = d"
proof -
  show "ucast (drop_bit 24 (pack a b c d) AND 255) = a"
    by (rule bit_word_eqI) (auto simp: pack_or bit_simps dest: bit_byte)
  show "ucast (drop_bit 16 (pack a b c d) AND 255) = b"
    by (rule bit_word_eqI) (auto simp: pack_or bit_simps dest: bit_byte)
  show "ucast (drop_bit 8 (pack a b c d) AND 255) = c"
    by (rule bit_word_eqI) (auto simp: pack_or bit_simps dest: bit_byte)
  show "ucast (pack a b c d AND 255) = d"
    by (rule bit_word_eqI) (auto simp: pack_or bit_simps dest: bit_byte)
qed

lemma text_of_id:
  "idConverter idv = Inr (Some [ucast (drop_bit 24 idv AND 255), ucast (drop_bit 16 idv AND 255),
     ucast (drop_bit 8 idv AND 255), ucast (idv AND 255), 0])"
  by (simp add: idConverter_def convertIdentificationToString_def text_loop.simps numeral_eq_Suc)

text \<open>C34: The name of a task or a channel made of plain characters comes back from its identification,
  cut off after four characters and padded with zeros.\<close>
theorem name_roundtrip:
  assumes "\<forall>c\<in>set cs. plain_char c"
  shows "bindR (getIdentificationFromName (Some (cs @ 0 # rest))) idConverter =
    Inr (Some (take 4 (cs @ replicate 4 0) @ [0]))"
proof -
  have "take 4 (cs @ replicate 4 (0 :: byte)) = map ((!) (take 4 (cs @ replicate 4 0))) [0..<4]"
    by (rule nth_equalityI) auto
  also have "[0..<4] = [0, 1, 2, 3]" by (simp add: upt_rec)
  finally have t: "take 4 (cs @ replicate 4 (0 :: byte)) = map ((!) (take 4 (cs @ replicate 4 0))) [0, 1, 2, 3]" .
  show ?thesis
    unfolding id_of_name [OF assms] bindR_Inr text_of_id unpack by (subst t) simp
qed

theorem name_roundtrip_witness:
  "bindR (getIdentificationFromName (Some [0x41, 0x42, 0])) idConverter = Inr (Some [0x41, 0x42, 0, 0, 0])"
proof -
  have "[0x41, 0x42] @ replicate 4 0 = [0x41, 0x42, 0, 0, 0, 0 :: byte]" by (simp add: replicate_3_4)
  then show ?thesis using name_roundtrip [of "[0x41, 0x42]" "[]"] by (simp add: plain_char_def)
qed

lemma pack_bytes:
  "pack (ucast (drop_bit 24 idv AND 255)) (ucast (drop_bit 16 idv AND 255))
     (ucast (drop_bit 8 idv AND 255)) (ucast (idv AND 255)) = idv"
proof (rule bit_word_eqI)
  fix n assume "n < LENGTH(32)"
  then consider "n < 8" | "8 \<le> n \<and> n < 16" | "16 \<le> n \<and> n < 24" | "24 \<le> n \<and> n < 32" by fastforce
  then show "bit (pack (ucast (drop_bit 24 idv AND 255)) (ucast (drop_bit 16 idv AND 255))
     (ucast (drop_bit 8 idv AND 255)) (ucast (idv AND 255))) n = bit idv n"
    by cases (auto simp: pack_or bit_simps)
qed

text \<open>An identification that converts to a name of plain characters is the identification of that
  name.\<close>
theorem id_roundtrip:
  assumes "idConverter idv = Inr (Some (cs @ replicate (5 - length cs) 0))" and "length cs \<le> 4"
    and "\<forall>c\<in>set cs. plain_char c"
  shows "getIdentificationFromName (Some (cs @ replicate (5 - length cs) 0)) = Inr idv"
proof -
  have "5 - length cs = Suc (4 - length cs)" using assms(2) by simp
  then have s: "cs @ replicate (5 - length cs) 0 = cs @ 0 # replicate (4 - length cs) 0" by simp
  have t: "take 4 (cs @ replicate 4 (0 :: byte)) = cs @ replicate (4 - length cs) 0"
    using assms(2) by (simp add: min_def)
  have c: "cs @ replicate (4 - length cs) 0 @ [0] = cs @ replicate (5 - length cs) (0 :: byte)"
    using assms(2) by (simp add: s replicate_append_same)
  have "cs @ replicate (4 - length cs) 0 @ [0] = [ucast (drop_bit 24 idv AND 255),
      ucast (drop_bit 16 idv AND 255), ucast (drop_bit 8 idv AND 255), ucast (idv AND 255), 0]"
    using assms(1) unfolding text_of_id c by simp
  then have "(cs @ replicate (4 - length cs) 0) @ [0] = [ucast (drop_bit 24 idv AND 255),
      ucast (drop_bit 16 idv AND 255), ucast (drop_bit 8 idv AND 255), ucast (idv AND 255)] @ [0]"
    by simp
  then have "cs @ replicate (4 - length cs) 0 = [ucast (drop_bit 24 idv AND 255),
      ucast (drop_bit 16 idv AND 255), ucast (drop_bit 8 idv AND 255), ucast (idv AND 255)]"
    by (simp only: append_same_eq)
  then show ?thesis unfolding s id_of_name [OF assms(3)] t by (simp add: pack_bytes)
qed

theorem id_roundtrip_witness:
  "getIdentificationFromName (Some [0x41, 0x42, 0, 0, 0]) = Inr 0x41420000"
proof -
  have "replicate (5 - length [0x41, 0x42 :: byte]) 0 = [0, 0, 0 :: byte]" by (simp add: replicate_3_4)
  then have b: "[0x41, 0x42] @ replicate (5 - length [0x41, 0x42 :: byte]) 0 = [0x41, 0x42, 0, 0, 0 :: byte]"
    by simp
  have "idConverter 0x41420000 = Inr (Some ([0x41, 0x42] @ replicate (5 - length [0x41, 0x42 :: byte]) 0))"
    unfolding b text_of_id by simp
  from id_roundtrip [OF this] show ?thesis unfolding b by (simp add: plain_char_def)
qed

text \<open>A character whose eighth bit is set is sign extended before it is added and changes the
  characters in front of it: the name \<open>A\<close>, 0xE4 gets the identification of \<open>@\<close>, 0xE4.\<close>
theorem id_sign_extension:
  "bindR (getIdentificationFromName (Some [0x41, 0xE4, 0])) idConverter = Inr (Some [0x40, 0xE4, 0, 0, 0])"
  unfolding text_of_id by (simp add: getIdentificationFromName_def id_loop.simps text_of_id)

end
