(* ===== verification/TaskInput.thy ===== *)
theory TaskInput
  imports Prelude
begin

text \<open>
  The inputs of a task (\<^verbatim>\<open>src/taskInput.cpp\<close>) and their array
  (\<^verbatim>\<open>src/taskInputArray.cpp\<close>): counting of notifications, the activation of an input and
  of an array of inputs. What calls other objects - the channel of an input and its task - is
  in \<^verbatim>\<open>World\<close>, on top of the steps defined here.
\<close>

section \<open>State\<close>

record input_impl =
  in_task :: "task_id option"
  in_channel :: "channel_id option"
  in_final :: bool
  in_synchron :: bool
  in_notifications :: uint
  in_missed :: uint
  in_threshold :: uint
  in_next :: "input_id option"

definition uninitialized :: uint where
  "uninitialized = - 1"

definition input_init :: input_impl where
  "input_init = \<lparr>in_task = None, in_channel = None, in_final = False, in_synchron = False,
     in_notifications = 0, in_missed = 0, in_threshold = uninitialized, in_next = None\<rparr>"

section \<open>Operations on one input\<close>

definition input_isActivated :: "input_impl \<Rightarrow> bool" where
  "input_isActivated x =
     (if in_final x \<and> in_threshold x = 0 then in_notifications x > 0
      else in_notifications x \<ge> in_threshold x)"

definition input_isOptional :: "input_impl \<Rightarrow> bool" where
  "input_isOptional x \<longleftrightarrow> in_threshold x = 0"

definition input_isFinal :: "input_impl \<Rightarrow> bool" where
  "input_isFinal x \<longleftrightarrow> in_final x"

definition input_isValid :: "input_impl \<Rightarrow> bool" where
  "input_isValid x \<longleftrightarrow> in_threshold x \<noteq> uninitialized \<and> in_channel x \<noteq> None \<and> in_task x \<noteq> None"

definition getNotifications :: "input_impl \<Rightarrow> uint" where
  "getNotifications x = in_notifications x"

definition getPendingNotifications :: "input_impl \<Rightarrow> uint" where
  "getPendingNotifications x = in_missed x"

definition input_connectTask :: "task_id \<Rightarrow> input_impl \<Rightarrow> input_impl" where
  "input_connectTask t x = x\<lparr>in_task := Some t\<rparr>"

definition input_configure :: "uint \<Rightarrow> bool \<Rightarrow> input_impl \<Rightarrow> input_impl" where
  "input_configure activations fin x =
     x\<lparr>in_threshold := activations, in_final := fin, in_synchron := activations > 0\<rparr>"

definition setSynchron :: "bool \<Rightarrow> input_impl \<Rightarrow> input_impl" where
  "setSynchron syncState x =
     (let x1 = x\<lparr>in_synchron := (syncState \<and> in_threshold x > 0)\<rparr>
      in if in_synchron x1
         then if in_notifications x1 > in_threshold x1
              then x1\<lparr>in_missed := in_notifications x1 - in_threshold x1,
                      in_notifications := in_threshold x1\<rparr>
              else x1
         else x1\<lparr>in_notifications := in_notifications x1 + in_missed x1, in_missed := 0\<rparr>)"

text \<open>
  The counting part of \<^verbatim>\<open>InputImpl::notifyInput\<close>: the new input, and whether the task is to be
  activated.
\<close>

definition input_notified :: "input_impl \<Rightarrow> input_impl \<times> bool" where
  "input_notified x =
     (if in_synchron x
      then if input_isActivated x then (x\<lparr>in_missed := in_missed x + 1\<rparr>, False)
           else let x1 = x\<lparr>in_notifications := in_notifications x + 1\<rparr>
                in (x1, input_isActivated x1)
      else let x1 = x\<lparr>in_notifications := in_notifications x + 1\<rparr>
           in (x1, input_isActivated x1))"

text \<open>The counting part of \<^verbatim>\<open>Input::reset\<close>.\<close>

definition input_consumed :: "input_impl \<Rightarrow> input_impl \<times> bool" where
  "input_consumed x =
     (if in_synchron x
      then if in_missed x \<ge> in_threshold x
           then (x\<lparr>in_missed := in_missed x - in_threshold x, in_notifications := in_threshold x\<rparr>, True)
           else (x\<lparr>in_notifications := in_missed x, in_missed := 0\<rparr>, False)
      else (x\<lparr>in_notifications := 0\<rparr>, False))"

section \<open>The activation of an array of inputs\<close>

text \<open>
  \<^verbatim>\<open>InputArray::isActivated\<close>: the first loop over the inputs \<open>xs\<close> from index \<open>i\<close> on gives
  \<^verbatim>\<open>activate\<close> and \<^verbatim>\<open>lastChecked\<close>; \<open>n\<close> is the length of the array.
\<close>

fun scan_inputs :: "nat \<Rightarrow> input_impl list \<Rightarrow> nat \<Rightarrow> bool \<times> nat" where
  "scan_inputs n [] i = (True, n)"
| "scan_inputs n (x # xs) i =
     (if \<not> input_isActivated x
      then if \<not> input_isFinal x \<and> \<not> input_isOptional x then (False, i) else scan_inputs n xs (Suc i)
      else if input_isFinal x then (True, n) else scan_inputs n xs (Suc i))"

fun find_final :: "input_impl list \<Rightarrow> bool" where
  "find_final [] = False"
| "find_final (x # xs) = (if input_isActivated x \<and> input_isFinal x then True else find_final xs)"

type_synonym activation_condition = "(input_impl list \<Rightarrow> bool) option"

definition array_isActivated :: "activation_condition \<Rightarrow> input_impl list \<Rightarrow> bool" where
  "array_isActivated condition xs =
     (let (activate, lastChecked) =
        (case condition of
           None \<Rightarrow> scan_inputs (length xs) xs 0
         | Some f \<Rightarrow> (let a = f xs in (a, if a then length xs else 0)))
      in activate \<or> find_final (drop (lastChecked + 1) xs))"

fun array_isValid :: "input_impl list \<Rightarrow> bool" where
  "array_isValid [] = True"
| "array_isValid (x # xs) = (if input_isValid x then array_isValid xs else False)"

section \<open>Facts\<close>

lemma find_final_iff: "find_final xs \<longleftrightarrow> (\<exists>x\<in>set xs. input_isActivated x \<and> in_final x)"
  by (induction xs) (auto simp: input_isFinal_def)

lemma array_isValid_iff: "array_isValid xs \<longleftrightarrow> (\<forall>x\<in>set xs. input_isValid x)"
  by (induction xs) auto

lemma optional_activated: "input_isOptional x \<Longrightarrow> \<not> in_final x \<Longrightarrow> input_isActivated x"
  by (simp add: input_isOptional_def input_isActivated_def)

lemma scan_inputs_spec:
  "fst (scan_inputs n xs i) \<or> find_final (drop (snd (scan_inputs n xs i) + 1 - i) xs) \<longleftrightarrow>
    (\<exists>x\<in>set xs. in_final x \<and> input_isActivated x) \<or> (\<forall>x\<in>set xs. in_final x \<or> input_isActivated x)"
proof (induction xs arbitrary: i)
  case Nil
  then show ?case by simp
next
  case (Cons x xs)
  have low: "fst (scan_inputs n ys j) \<or> j \<le> snd (scan_inputs n ys j)" for ys j
    by (induction ys arbitrary: j) (auto, (metis Suc_leD)+)
  show ?case
  proof (cases "\<not> input_isActivated x \<and> \<not> in_final x")
    case True
    then have "\<not> input_isOptional x" using optional_activated by blast
    with True show ?thesis by (auto simp: input_isFinal_def find_final_iff)
  next
    case False
    then show ?thesis
      using Cons.IH [of "Suc i"] low [of xs "Suc i"]
      by (auto simp: input_isFinal_def Suc_diff_le)
  qed
qed

section \<open>The counters of a synchronized input\<close>

text \<open>
  What every operation keeps: notifications beyond the threshold wait in the other counter,
  and they wait only while the input is activated.
\<close>

definition input_ok :: "input_impl \<Rightarrow> bool" where
  "input_ok x \<longleftrightarrow>
     (if in_synchron x
      then in_threshold x > 0 \<and> in_notifications x \<le> in_threshold x \<and>
        (in_missed x \<noteq> 0 \<longrightarrow> in_notifications x = in_threshold x)
      else in_missed x = 0)"

definition counted :: "input_impl \<Rightarrow> nat" where
  "counted x = unat (in_notifications x) + unat (in_missed x)"

lemma unat_plus1: "unat a < 2 ^ 32 - 1 \<Longrightarrow> unat (a + 1 :: uint) = Suc (unat a)"
  by (simp add: unat_word_ariths)

lemma sync_activated_iff: "in_synchron x \<Longrightarrow> input_ok x \<Longrightarrow> input_isActivated x \<longleftrightarrow> in_notifications x = in_threshold x"
  by (auto simp: input_ok_def input_isActivated_def)

lemma notified_sync:
  assumes "in_synchron x" and "input_ok x" and "counted x < 2 ^ 32 - 1"
  shows "input_ok (fst (input_notified x))" and "counted (fst (input_notified x)) = Suc (counted x)"
    and "snd (input_notified x) \<longleftrightarrow> \<not> input_isActivated x \<and> input_isActivated (fst (input_notified x))"
proof -
  have m: "unat (in_missed x) < 2 ^ 32 - 1" "unat (in_notifications x) < 2 ^ 32 - 1"
    using assms(3) by (simp_all add: counted_def)
  show "input_ok (fst (input_notified x))" 
  proof (cases "input_isActivated x")
    case True
    then show ?thesis using assms sync_activated_iff [OF assms(1,2)] by (simp add: input_notified_def input_ok_def)
  next
    case False
    then have lt: "in_notifications x < in_threshold x"
      using False sync_activated_iff [OF assms(1,2)] assms(1,2) by (simp add: input_ok_def order_less_le)
    then have "in_notifications x + 1 \<le> in_threshold x" by (rule inc_le)
    moreover have "in_missed x = 0" using assms lt by (auto simp: input_ok_def)
    ultimately show ?thesis using False assms by (simp add: input_notified_def input_ok_def Let_def)
  qed
  show "counted (fst (input_notified x)) = Suc (counted x)"
    using assms(1) m by (auto simp: input_notified_def counted_def unat_plus1 Let_def)
  show "snd (input_notified x) \<longleftrightarrow> \<not> input_isActivated x \<and> input_isActivated (fst (input_notified x))"
    using assms(1) by (auto simp: input_notified_def Let_def)
qed

lemma consumed_sync:
  assumes "in_synchron x" and "input_ok x" and "input_isActivated x"
  shows "input_ok (fst (input_consumed x))"
    and "counted (fst (input_consumed x)) + unat (in_threshold x) = counted x"
    and "snd (input_consumed x) \<longleftrightarrow> input_isActivated (fst (input_consumed x))"
proof -
  have eq: "in_notifications x = in_threshold x" using assms sync_activated_iff by blast
  have pos: "in_threshold x > 0" using assms(1,2) by (simp add: input_ok_def)
  show "input_ok (fst (input_consumed x))"
    using assms(1,2) by (auto simp: input_consumed_def input_ok_def)
  show "counted (fst (input_consumed x)) + unat (in_threshold x) = counted x"
    using assms(1) eq by (auto simp: input_consumed_def counted_def word_le_nat_alt unat_sub)
  show "snd (input_consumed x) \<longleftrightarrow> input_isActivated (fst (input_consumed x))"
    using assms(1) pos by (auto simp: input_consumed_def input_isActivated_def)
qed

lemma setSynchron_ok: "input_ok x \<Longrightarrow> in_missed x = 0 \<or> in_synchron x \<Longrightarrow> input_ok (setSynchron b x)"
  by (auto simp: setSynchron_def input_ok_def Let_def)

text \<open>
  The life of an input between its task and its channel, from \<open>x0\<close> on: \<open>n\<close> notifications have come, \<open>a\<close> times
  the input has asked to activate the task, and \<open>r\<close> times it was reset at the end of an execution, which
  an activation must have started.
\<close>

inductive input_life :: "input_impl \<Rightarrow> nat \<Rightarrow> nat \<Rightarrow> nat \<Rightarrow> input_impl \<Rightarrow> bool" for x0 where
  life_init: "input_life x0 0 0 0 x0"
| life_notify: "input_life x0 n a r x \<Longrightarrow>
    input_life x0 (Suc n) (if snd (input_notified x) then Suc a else a) r (fst (input_notified x))"
| life_reset: "input_life x0 n a r x \<Longrightarrow> r < a \<Longrightarrow>
    input_life x0 n (if snd (input_consumed x) then Suc a else a) (Suc r) (fst (input_consumed x))"

lemma notify_keeps: "in_synchron (fst (input_notified x)) = in_synchron x"
  "in_threshold (fst (input_notified x)) = in_threshold x"
  by (simp_all add: input_notified_def Let_def)

lemma consume_keeps: "in_synchron (fst (input_consumed x)) = in_synchron x"
  "in_threshold (fst (input_consumed x)) = in_threshold x"
  by (simp_all add: input_consumed_def)

lemma sync_total: "in_synchron x \<Longrightarrow> input_ok x \<Longrightarrow> input_isActivated x \<longleftrightarrow> unat (in_threshold x) \<le> counted x"
  by (auto simp: sync_activated_iff input_ok_def counted_def word_le_nat_alt word_unat_eq_iff)

text \<open>One activation is open exactly while the input has as many notifications as the threshold asks for.\<close>

lemma input_life_sync:
  assumes "input_life x n a r y" and "in_synchron x" and "input_ok x" and "counted x = 0" and "n < 2 ^ 32"
  shows "in_synchron y \<and> input_ok y \<and> in_threshold y = in_threshold x \<and>
    counted y + r * unat (in_threshold x) = n \<and> a = (if input_isActivated y then Suc r else r)"
  using assms
proof (induction rule: input_life.induct)
  case life_init
  then show ?case using sync_total [of x] by (auto simp: input_ok_def word_less_nat_alt)
next
  case (life_notify n a r y)
  then have y: "in_synchron y" "input_ok y" "counted y < 2 ^ 32 - 1" by auto
  have "input_isActivated y \<Longrightarrow> input_isActivated (fst (input_notified y))"
    using y(1) by (auto simp: input_notified_def input_isActivated_def)
  then show ?case using life_notify notified_sync [OF y] by (auto simp: notify_keeps)
next
  case (life_reset n a r y)
  then have y: "in_synchron y" "input_ok y" "input_isActivated y" by (auto split: if_splits)
  then show ?case using life_reset consumed_sync [OF y] by (auto simp: consume_keeps)
qed

section \<open>Properties\<close>

lemma array_default:
  "array_isActivated None xs \<longleftrightarrow>
    (\<exists>x\<in>set xs. in_final x \<and> input_isActivated x) \<or> (\<forall>x\<in>set xs. \<not> in_final x \<longrightarrow> input_isActivated x)"
  using scan_inputs_spec [of "length xs" xs 0] by (auto simp: array_isActivated_def split: prod.splits)


text \<open>Without an alternative condition an array is activated exactly when a final input is
  activated, or every input that is not final is activated.\<close>
theorem array_isActivated_default:
  "array_isActivated None xs \<longleftrightarrow>
    (\<exists>x\<in>set xs. in_final x \<and> input_isActivated x) \<or> (\<forall>x\<in>set xs. \<not> in_final x \<longrightarrow> input_isActivated x)"
  by (rule array_default)

theorem array_isActivated_default_witness: "array_isActivated None []"
  by (simp add: array_isActivated_default)

text \<open>With an alternative condition an array is activated when the condition holds or a final input
  that is not the first one is activated.\<close>
theorem array_isActivated_condition:
  "array_isActivated (Some f) xs \<longleftrightarrow> f xs \<or> (\<exists>x\<in>set (tl xs). in_final x \<and> input_isActivated x)"
  by (auto simp: array_isActivated_def find_final_iff drop_Suc Let_def split: if_splits)

text \<open>An activated final input at the first position does not activate the array when the alternative
  condition fails, although any other position would.\<close>
theorem final_first_ignored:
  "let f = input_init\<lparr>in_final := True, in_threshold := 1, in_notifications := 1\<rparr>;
       n = input_init\<lparr>in_threshold := 1\<rparr>
   in \<not> array_isActivated (Some (\<lambda>_. False)) [f, n] \<and> array_isActivated (Some (\<lambda>_. False)) [n, f] \<and>
      array_isActivated None [f, n]"
  by (simp add: array_isActivated_condition array_isActivated_def input_isActivated_def input_isFinal_def
      input_init_def Let_def)

text \<open>C18: A synchronized input with a positive threshold loses no notification, whatever the order of its notifications and of the
  resets at the end of the executions it asked for, as long as fewer than 2 to the 32 notifications come: it keeps the
  notifications that the executions have not consumed, each execution consumes as many as the threshold; the input has
  asked for one execution more than were ended exactly when what it keeps reaches the threshold; and when all
  executions it asked for are over, they are as many as the threshold fits into the number of notifications.\<close>
theorem synchronized_runs:
  assumes "in_synchron x" and "in_threshold x > 0" and "in_notifications x = 0" and "in_missed x = 0"
    and "input_life x n a r y" and "n < 2 ^ 32"
  shows "counted y + r * unat (in_threshold x) = n \<and>
    a = (if unat (in_threshold x) \<le> counted y then Suc r else r) \<and>
    (a = r \<longrightarrow> r = n div unat (in_threshold x) \<and> counted y = n mod unat (in_threshold x))"
proof -
  have x: "input_ok x" "counted x = 0" using assms by (simp_all add: input_ok_def counted_def)
  note y = input_life_sync [OF assms(5,1) x assms(6)]
  then have act: "input_isActivated y \<longleftrightarrow> unat (in_threshold x) \<le> counted y" using sync_total [of y] by simp
  have "n = counted y + r * unat (in_threshold x)" using y by simp
  moreover have "counted y < unat (in_threshold x)" if "a = r" using y act that by (auto split: if_splits)
  ultimately show ?thesis using y act by (auto split: if_splits)
qed

text \<open>Seven notifications and the threshold three: two executions are asked for, and one notification is left.\<close>

theorem synchronized_runs_witness:
  "\<exists>y. input_life (input_configure 3 False input_init) 7 2 2 y \<and> counted y = 1"
proof -
  define x where "x = (\<lambda>n m. (input_configure 3 False input_init)\<lparr>in_notifications := n, in_missed := m\<rparr>)"
  note defs = x_def input_configure_def input_init_def input_notified_def input_consumed_def input_isActivated_def Let_def
  have x0: "input_configure 3 False input_init = x 0 0" by (simp add: defs)
  have n: "input_notified (x 0 0) = (x 1 0, False)" "input_notified (x 1 0) = (x 2 0, False)" "input_notified (x 2 0) = (x 3 0, True)"
    "input_notified (x 3 0) = (x 3 1, False)" "input_notified (x 3 1) = (x 3 2, False)" "input_notified (x 3 2) = (x 3 3, False)"
    "input_notified (x 3 3) = (x 3 4, False)" by (simp_all add: defs word_le_nat_alt)
  have c: "input_consumed (x 3 4) = (x 3 1, True)" "input_consumed (x 3 1) = (x 1 0, False)" by (simp_all add: defs word_le_nat_alt)
  note more = life_notify [of "x 0 0"]
  have "input_life (x 0 0) 3 1 0 (x 3 0)"
    using more [OF more [OF more [OF life_init]]] by (simp add: n numeral_eq_Suc)
  then have "input_life (x 0 0) 7 1 0 (x 3 4)"
    using more [OF more [OF more [OF more [of 3 1 0 "x 3 0"]]]] by (simp add: n numeral_eq_Suc)
  then have "input_life (x 0 0) 7 2 1 (x 3 1)" using life_reset [of "x 0 0" 7 1 0 "x 3 4"] by (simp add: c numeral_eq_Suc)
  then have r: "input_life (x 0 0) 7 2 2 (x 1 0)" using life_reset [of "x 0 0" 7 2 1 "x 3 1"] by (simp add: c numeral_eq_Suc)
  have "counted (x 1 0) + 2 * unat (in_threshold (x 0 0)) = 7"
    using synchronized_runs [OF _ _ _ _ r] by (simp add: defs)
  then show ?thesis using r unfolding x0 by (intro exI [of _ "x 1 0"]) (simp add: defs)
qed

end
