(* ===== verification/PeriodicSchedule.thy ===== *)
theory PeriodicSchedule
  imports Prelude
begin

text \<open>
  Periodic schedules (\<^verbatim>\<open>src/taskPeriodicSchedule.cpp\<close>,
  \<^verbatim>\<open>include/impl/taskPeriodicSchedule_impl.h\<close>): a list of triggers sorted by their offset in
  the period, and the pointer to the trigger that is played. A trigger is a channel; the pushes
  of \<^verbatim>\<open>pushTriggers\<close> are returned in their order and carried out in \<^verbatim>\<open>World\<close>.
\<close>

section \<open>State\<close>

record trigger =
  tr_offset :: time
  tr_next :: "channel_id option"

record periodic_schedule =
  sched_triggers :: "channel_id option"
  activeTrigger :: "channel_id option"
  startTimeOffPeriod_ms :: time
  sched_period_ms :: time

definition trigger_init :: "time \<Rightarrow> trigger" where
  "trigger_init offset = \<lparr>tr_offset = offset, tr_next = None\<rparr>"

definition schedule_init :: periodic_schedule where
  "schedule_init = \<lparr>sched_triggers = None, activeTrigger = None, startTimeOffPeriod_ms = 0,
     sched_period_ms = 0\<rparr>"

type_synonym triggers = "channel_id \<Rightarrow> trigger"

abbreviation toff :: "triggers \<Rightarrow> channel_id \<Rightarrow> time" where
  "toff m x \<equiv> tr_offset (m x)"

abbreviation tnx :: "triggers \<Rightarrow> channel_id \<Rightarrow> channel_id option" where
  "tnx m x \<equiv> tr_next (m x)"

section \<open>Operations\<close>

text \<open>The loop's pointer is \<^verbatim>\<open>prev->next\<close>, its state \<^verbatim>\<open>prev\<close>.\<close>

definition sortIn :: "channel_id \<Rightarrow> triggers \<times> periodic_schedule \<Rightarrow> (triggers \<times> periodic_schedule) res" where
  "sortIn t = (\<lambda>(m, s).
     case sched_triggers s of
       None \<Rightarrow> Inr (m(t := (m t)\<lparr>tr_next := None\<rparr>), s\<lparr>sched_triggers := Some t\<rparr>)
     | Some h \<Rightarrow>
         if toff m t < toff m h
         then Inr (m(t := (m t)\<lparr>tr_next := Some h\<rparr>), s\<lparr>sched_triggers := Some t\<rparr>)
         else bindR (for_ptr (\<lambda>prev x. toff m x < toff m t) (\<lambda>prev x. tnx m x) (\<lambda>x prev. Inr x) (tnx m h) h)
           (\<lambda>(_, prev).
              let m1 = m(t := (m t)\<lparr>tr_next := tnx m prev\<rparr>)
              in Inr (m1(prev := (m1 prev)\<lparr>tr_next := Some t\<rparr>), s)))"

definition pushTriggers :: "triggers \<Rightarrow> periodic_schedule \<Rightarrow> (periodic_schedule \<times> channel_id list) res" where
  "pushTriggers m s =
     deref (activeTrigger s) (\<lambda>a.
       bindR (for_ptr (\<lambda>st x. toff m (fst st) = toff m x) (\<lambda>st x. tnx m x)
                (\<lambda>x st. Inr (x, snd st @ [x])) (tnx m a) (a, [a]))
         (\<lambda>(_, st). Inr (s\<lparr>activeTrigger := Some (fst st)\<rparr>, snd st)))"

definition stepToNextTriggerOffset :: "triggers \<Rightarrow> periodic_schedule \<Rightarrow> (periodic_schedule \<times> time) res" where
  "stepToNextTriggerOffset m s =
     (let s1 = (case activeTrigger s of None \<Rightarrow> s | Some a \<Rightarrow> s\<lparr>activeTrigger := tnx m a\<rparr>);
          s2 = (if activeTrigger s1 = None
                then s1\<lparr>activeTrigger := sched_triggers s1,
                        startTimeOffPeriod_ms := startTimeOffPeriod_ms s1 + sched_period_ms s1\<rparr>
                else s1)
      in deref (activeTrigger s2) (\<lambda>a. Inr (s2, startTimeOffPeriod_ms s2 + toff m a)))"

section \<open>The list of triggers\<close>

definition insert_trigger :: "(channel_id \<Rightarrow> time) \<Rightarrow> channel_id \<Rightarrow> channel_id list \<Rightarrow> channel_id list" where
  "insert_trigger f t ts =
     (case ts of
        [] \<Rightarrow> [t]
      | h # us \<Rightarrow>
          if f t < f h then t # ts
          else h # takeWhile (\<lambda>x. f x < f t) us @ t # dropWhile (\<lambda>x. f x < f t) us)"

definition triggers_rep :: "triggers \<Rightarrow> periodic_schedule \<Rightarrow> channel_id list \<Rightarrow> bool" where
  "triggers_rep m s ts \<longleftrightarrow> chain (tnx m) (sched_triggers s) ts \<and> sorted_wrt (\<lambda>x y. toff m x \<le> toff m y) ts"

lemma triggers_rep_init: "triggers_rep m schedule_init []"
  by (simp add: triggers_rep_def schedule_init_def)

lemma mset_insert_trigger: "mset (insert_trigger f t ts) = add_mset t (mset ts)"
proof -
  have "mset us = mset (takeWhile P us) + mset (dropWhile P us)" for P and us :: "channel_id list"
    by (metis mset_append takeWhile_dropWhile_id)
  then show ?thesis by (auto simp: insert_trigger_def split: list.split)
qed

lemma sorted_insert_trigger:
  assumes "sorted_wrt (\<lambda>x y. f x \<le> f y) ts"
  shows "sorted_wrt (\<lambda>x y. f x \<le> f y) (insert_trigger f t ts)"
proof (cases ts)
  case (Cons h us)
  let ?l = "takeWhile (\<lambda>x. f x < f t) us" and ?r = "dropWhile (\<lambda>x. f x < f t) us"
  have srt: "sorted_wrt (\<lambda>x y. f x \<le> f y) (?l @ ?r)" using assms Cons by simp
  have h: "\<forall>x\<in>set us. f h \<le> f x" using assms Cons by simp
  have l: "f x \<le> f t" if "x \<in> set ?l" for x using set_takeWhileD [OF that] by (simp add: less_imp_le)
  have r: "f t \<le> f x" if "x \<in> set ?r" for x
  proof (cases ?r)
    case (Cons y ys)
    then have "f t \<le> f y" by (metis dropWhile_eq_Cons_conv not_less)
    then show ?thesis using srt that Cons by (auto simp: sorted_wrt_append)
  next
    case Nil
    then show ?thesis using that by (metis empty_iff list.set(1))
  qed
  show ?thesis
  proof (cases "f t < f h")
    case True
    then show ?thesis using assms Cons by (auto simp: insert_trigger_def)
  next
    case False
    have "sorted_wrt (\<lambda>x y. f x \<le> f y) (?l @ t # ?r)"
      using srt l r by (auto simp: sorted_wrt_append intro: order_trans)
    moreover have "\<forall>x\<in>set (?l @ t # ?r). f h \<le> f x"
      using h False by (auto dest: set_takeWhileD set_dropWhileD)
    ultimately show ?thesis using False Cons by (simp add: insert_trigger_def)
  qed
qed (simp add: insert_trigger_def)

lemma search_prev:
  "chain nx q xs \<Longrightarrow>
    for_ptr (\<lambda>prev n. P n) (\<lambda>prev n. nx n) (\<lambda>n prev. Inr n) q h =
      Inr (firstp (dropWhile P xs), last (h # takeWhile P xs))"
  by (induction xs arbitrary: q h) (auto simp: for_ptr_Some)

lemma chain_insert_after:
  assumes c: "chain h p (as @ b # r)" and t: "t \<notin> set (as @ b # r)"
  shows "chain ((h(t := h b))(b := Some t)) p (as @ b # t # r)"
proof -
  have d: "distinct (as @ b # r)" using c by (rule chain_distinct)
  have s: "seg h p as (Some b)" "chain h (h b) r" using c by (auto simp: seg_append)
  then have "seg ((h(t := h b))(b := Some t)) p as (Some b)" "chain ((h(t := h b))(b := Some t)) (h b) r"
    using t d by (simp_all add: seg_upd_other)
  then show ?thesis using t by (auto simp: seg_append)
qed

lemma sortIn_spec:
  assumes r: "triggers_rep m s ts" and t: "t \<notin> set ts"
  shows "\<exists>m' s'. sortIn t (m, s) = Inr (m', s') \<and> triggers_rep m' s' (insert_trigger (toff m) t ts) \<and>
    toff m' = toff m \<and> s' = s\<lparr>sched_triggers := sched_triggers s'\<rparr>"
proof -
  have srt: "sorted_wrt (\<lambda>x y. toff m x \<le> toff m y) (insert_trigger (toff m) t ts)"
    using r by (auto simp: triggers_rep_def sorted_insert_trigger)
  have c: "chain (tnx m) (sched_triggers s) ts" using r by (simp add: triggers_rep_def)
  show ?thesis
  proof (cases ts)
    case Nil
    then have "sortIn t (m, s) = Inr (m(t := (m t)\<lparr>tr_next := None\<rparr>), s\<lparr>sched_triggers := Some t\<rparr>)"
      using c by (simp add: sortIn_def)
    then show ?thesis using Nil by (auto simp: triggers_rep_def insert_trigger_def)
  next
    case (Cons h us)
    have head: "sched_triggers s = Some h" and cu: "chain (tnx m) (tnx m h) us" using c Cons by auto
    show ?thesis
    proof (cases "toff m t < toff m h")
      case True
      define m1 where "m1 = m(t := (m t)\<lparr>tr_next := Some h\<rparr>)"
      have "chain (tnx m1) (Some h) ts"
        using c t Cons by (subst seg_cong [where h' = "tnx m"]) (auto simp: m1_def)
      moreover have "tnx m1 t = Some h" by (simp add: m1_def)
      moreover have off: "toff m1 = toff m" by (auto simp: m1_def)
      moreover have "sortIn t (m, s) = Inr (m1, s\<lparr>sched_triggers := Some t\<rparr>)"
        using True head by (simp add: sortIn_def m1_def)
      moreover have "insert_trigger (toff m) t ts = t # ts"
        using True Cons by (simp add: insert_trigger_def)
      ultimately show ?thesis using srt fun_cong [OF off] unfolding triggers_rep_def by simp
    next
      case False
      let ?P = "\<lambda>x. toff m x < toff m t"
      define b where "b = last (h # takeWhile ?P us)"
      define as where "as = butlast (h # takeWhile ?P us)"
      have hl: "h # takeWhile ?P us = as @ [b]" by (simp add: as_def b_def)
      have ts: "ts = as @ b # dropWhile ?P us"
        using hl Cons by (metis append_Cons append_Nil append_assoc takeWhile_dropWhile_id)
      have ins: "insert_trigger (toff m) t ts = as @ b # t # dropWhile ?P us"
        using False hl Cons by (simp add: insert_trigger_def)
      define m1 where "m1 = m(t := (m t)\<lparr>tr_next := tnx m b\<rparr>)"
      define m2 where "m2 = m1(b := (m1 b)\<lparr>tr_next := Some t\<rparr>)"
      have run: "sortIn t (m, s) = Inr (m2, s)"
      proof -
        have "for_ptr (\<lambda>prev. ?P) (\<lambda>prev. tnx m) (\<lambda>x prev. Inr x) (tnx m h) h =
            Inr (firstp (dropWhile ?P us), b)"
          unfolding b_def using cu by (rule search_prev)
        then show ?thesis using False by (simp add: sortIn_def head m1_def m2_def Let_def)
      qed
      have off: "toff m2 = toff m" by (auto simp: m1_def m2_def)
      have "tnx m2 = (tnx m)(t := tnx m b, b := Some t)" by (auto simp: m1_def m2_def)
      then have "chain (tnx m2) (sched_triggers s) (as @ b # t # dropWhile ?P us)"
        using chain_insert_after [of "tnx m" "sched_triggers s" as b _ t] c t unfolding ts by simp
      then show ?thesis using run off srt fun_cong [OF off] by (auto simp: triggers_rep_def ins)
    qed
  qed
qed

section \<open>Playing a schedule\<close>

text \<open>The triggers grouped by equal offset.\<close>

function blocks :: "(channel_id \<Rightarrow> time) \<Rightarrow> channel_id list \<Rightarrow> channel_id list list" where
  "blocks f [] = []"
| "blocks f (x # xs) = (x # takeWhile (\<lambda>y. f x = f y) xs) # blocks f (dropWhile (\<lambda>y. f x = f y) xs)"
  by pat_completeness auto
termination by (relation "measure (\<lambda>(f, xs). length xs)") (auto simp: le_imp_less_Suc length_dropWhile_le)

text \<open>
  \<open>n\<close> times what the events do with a schedule: step to the next offset, wait for that time,
  push the triggers. The times and the pushes are collected.
\<close>

fun play :: "nat \<Rightarrow> triggers \<Rightarrow> periodic_schedule \<Rightarrow>
    ((time \<times> channel_id list) list \<times> periodic_schedule) res" where
  "play 0 m s = Inr ([], s)"
| "play (Suc n) m s =
     bindR (stepToNextTriggerOffset m s) (\<lambda>(s1, t).
     bindR (pushTriggers m s1) (\<lambda>(s2, pushed).
     bindR (play n m s2) (\<lambda>(rest, s3). Inr ((t, pushed) # rest, s3))))"

lemma pushTriggers_spec:
  assumes "activeTrigger s = Some x" and "chain (tnx m) (tnx m x) xs"
  shows "pushTriggers m s =
    Inr (s\<lparr>activeTrigger := Some (last (x # takeWhile (\<lambda>y. toff m x = toff m y) xs))\<rparr>,
         x # takeWhile (\<lambda>y. toff m x = toff m y) xs)"
proof -
  have loop: "for_ptr (\<lambda>st y. toff m (fst st) = toff m y) (\<lambda>st. tnx m) (\<lambda>y st. Inr (y, snd st @ [y])) p (a, out) =
      Inr (firstp (dropWhile (\<lambda>y. toff m x = toff m y) ys),
           last (a # takeWhile (\<lambda>y. toff m x = toff m y) ys), out @ takeWhile (\<lambda>y. toff m x = toff m y) ys)"
    if "chain (tnx m) p ys" "toff m a = toff m x" for p a out ys
    using that by (induction ys arbitrary: p a out) (auto simp: for_ptr_Some)
  show ?thesis using loop [OF assms(2) refl, of "[x]"] assms(1) by (simp add: pushTriggers_def)
qed

text \<open>The last trigger that was pushed has \<open>ys\<close> behind it, or no trigger was pushed yet.\<close>

definition played_up_to :: "triggers \<Rightarrow> periodic_schedule \<Rightarrow> channel_id list \<Rightarrow> bool" where
  "played_up_to m s ys \<longleftrightarrow>
     (case activeTrigger s of None \<Rightarrow> ys = [] | Some a \<Rightarrow> chain (tnx m) (tnx m a) ys)"

lemma step_on:
  assumes "played_up_to m s (y # ys)"
  shows "stepToNextTriggerOffset m s = Inr (s\<lparr>activeTrigger := Some y\<rparr>, startTimeOffPeriod_ms s + toff m y)"
    and "chain (tnx m) (tnx m y) ys"
  using assms by (auto simp: played_up_to_def stepToNextTriggerOffset_def Let_def split: option.splits)

lemma step_wrap:
  assumes "played_up_to m s []" and "sched_triggers s = Some y"
  shows "stepToNextTriggerOffset m s =
    Inr (s\<lparr>activeTrigger := Some y, startTimeOffPeriod_ms := startTimeOffPeriod_ms s + sched_period_ms s\<rparr>,
         startTimeOffPeriod_ms s + sched_period_ms s + toff m y)"
  using assms by (auto simp: played_up_to_def stepToNextTriggerOffset_def Let_def split: option.splits)

lemma after_block:
  assumes "chain (tnx m) (tnx m x) xs"
  shows "chain (tnx m) (tnx m (last (x # takeWhile P xs))) (dropWhile P xs)"
  using assms
proof (induction xs arbitrary: x)
  case (Cons y ys)
  then show ?case by (cases "P y") auto
qed simp

lemma play_rest:
  "played_up_to m s ys \<Longrightarrow>
    \<exists>s'. play (length (blocks (toff m) ys)) m s =
      Inr (map (\<lambda>b. (startTimeOffPeriod_ms s + toff m (hd b), b)) (blocks (toff m) ys), s') \<and>
    played_up_to m s' [] \<and> s' = s\<lparr>activeTrigger := activeTrigger s'\<rparr>"
proof (induction "toff m" ys arbitrary: s rule: blocks.induct)
  case 1
  then show ?case by simp
next
  case (2 x xs)
  let ?b = "x # takeWhile (\<lambda>y. toff m x = toff m y) xs"
  let ?r = "dropWhile (\<lambda>y. toff m x = toff m y) xs"
  note st = step_on [OF 2(2)]
  define s2 where "s2 = s\<lparr>activeTrigger := Some (last ?b)\<rparr>"
  have push: "pushTriggers m (s\<lparr>activeTrigger := Some x\<rparr>) = Inr (s2, ?b)"
    using pushTriggers_spec [of "s\<lparr>activeTrigger := Some x\<rparr>" x m xs] st(2) by (simp add: s2_def)
  have up: "played_up_to m s2 ?r"
    using after_block [OF st(2)] by (simp add: played_up_to_def s2_def)
  from 2(1) [OF up] obtain s' where
    "play (length (blocks (toff m) ?r)) m s2 =
       Inr (map (\<lambda>b. (startTimeOffPeriod_ms s2 + toff m (hd b), b)) (blocks (toff m) ?r), s')"
    "played_up_to m s' []" "s' = s2\<lparr>activeTrigger := activeTrigger s'\<rparr>" by blast
  then show ?case using st(1) push by (auto simp: s2_def)
qed

lemma play_period:
  assumes r: "triggers_rep m s ts" and ne: "ts \<noteq> []" and e: "played_up_to m s []"
  defines "start \<equiv> startTimeOffPeriod_ms s + sched_period_ms s"
  shows "\<exists>s'. play (length (blocks (toff m) ts)) m s =
      Inr (map (\<lambda>b. (start + toff m (hd b), b)) (blocks (toff m) ts), s') \<and>
    triggers_rep m s' ts \<and> played_up_to m s' [] \<and>
    startTimeOffPeriod_ms s' = start \<and> sched_period_ms s' = sched_period_ms s"
proof -
  obtain x xs where ts: "ts = x # xs" using ne by (cases ts) auto
  have head: "sched_triggers s = Some x" and ch: "chain (tnx m) (tnx m x) xs"
    using r by (auto simp: triggers_rep_def ts)
  let ?b = "x # takeWhile (\<lambda>y. toff m x = toff m y) xs"
  let ?r = "dropWhile (\<lambda>y. toff m x = toff m y) xs"
  define s1 where "s1 = s\<lparr>activeTrigger := Some x, startTimeOffPeriod_ms := start\<rparr>"
  define s2 where "s2 = s1\<lparr>activeTrigger := Some (last ?b)\<rparr>"
  have step: "stepToNextTriggerOffset m s = Inr (s1, start + toff m x)"
    using step_wrap [OF e head] by (simp add: s1_def start_def)
  have push: "pushTriggers m s1 = Inr (s2, ?b)"
    using pushTriggers_spec [of s1 x m xs] ch by (simp add: s1_def s2_def)
  have "played_up_to m s2 ?r" using after_block [OF ch] by (simp add: played_up_to_def s2_def)
  from play_rest [OF this] obtain s' where s': "play (length (blocks (toff m) ?r)) m s2 =
      Inr (map (\<lambda>b. (startTimeOffPeriod_ms s2 + toff m (hd b), b)) (blocks (toff m) ?r), s')"
    "played_up_to m s' []" "s' = s2\<lparr>activeTrigger := activeTrigger s'\<rparr>" by blast
  have "startTimeOffPeriod_ms s2 = start" by (simp add: s2_def s1_def)
  then have "play (length (blocks (toff m) ts)) m s =
      Inr (map (\<lambda>b. (start + toff m (hd b), b)) (blocks (toff m) ts), s')"
    using step push s'(1) by (simp add: ts)
  moreover have "startTimeOffPeriod_ms s' = start" "sched_period_ms s' = sched_period_ms s"
    "sched_triggers s' = sched_triggers s"
    by (subst s'(3), simp add: s2_def s1_def)+
  ultimately show ?thesis using s'(2) r by (auto simp: triggers_rep_def)
qed

lemma concat_blocks: "concat (blocks f ts) = ts"
  by (induction f ts rule: blocks.induct) auto

lemma same_offset: "b \<in> set (blocks f us) \<Longrightarrow> x \<in> set b \<Longrightarrow> f x = f (hd b)"
proof (induction f us rule: blocks.induct)
  case (2 f y ys)
  show ?case
  proof (cases "b = y # takeWhile (\<lambda>z. f y = f z) ys")
    case True
    then show ?thesis using 2(3) set_takeWhileD [of x "\<lambda>z. f y = f z" ys] by auto
  next
    case False
    then show ?thesis using 2 by simp
  qed
qed simp

section \<open>Properties\<close>

text \<open>The triggers are added to an empty schedule one by one.\<close>

fun add_all :: "channel_id list \<Rightarrow> triggers \<times> periodic_schedule \<Rightarrow> (triggers \<times> periodic_schedule) res" where
  "add_all [] ms = Inr ms"
| "add_all (t # ts) ms = bindR (sortIn t ms) (add_all ts)"

lemma add_all_spec:
  "triggers_rep m s us \<Longrightarrow> distinct (us @ ts) \<Longrightarrow>
    \<exists>m' s' vs. add_all ts (m, s) = Inr (m', s') \<and> triggers_rep m' s' vs \<and> mset vs = mset (us @ ts) \<and>
      toff m' = toff m"
proof (induction ts arbitrary: m s us)
  case (Cons t ts)
  then obtain m1 s1 where m1: "sortIn t (m, s) = Inr (m1, s1)"
    "triggers_rep m1 s1 (insert_trigger (toff m) t us)" "toff m1 = toff m"
    using sortIn_spec [of m s us t] by auto
  have "mset (insert_trigger (toff m) t us @ ts) = mset (us @ t # ts)" by (simp add: mset_insert_trigger)
  then have "distinct (insert_trigger (toff m) t us @ ts)"
    using Cons.prems(2) mset_eq_imp_distinct_iff by blast
  from Cons.IH [OF m1(2) this] m1 show ?case by (auto simp: mset_insert_trigger)
qed auto

text \<open>Adding any different triggers to an empty schedule builds a list of exactly these triggers in
  the order of their offsets.\<close>
theorem add_sorts:
  assumes "distinct ts"
  shows "\<exists>m' s' us. add_all ts (m, schedule_init) = Inr (m', s') \<and> chain (tnx m') (sched_triggers s') us \<and>
    mset us = mset ts \<and> sorted (map (toff m) us)"
proof -
  obtain m' s' vs where "add_all ts (m, schedule_init) = Inr (m', s')" "triggers_rep m' s' vs"
    "mset vs = mset ts" "toff m' = toff m"
    using add_all_spec [OF triggers_rep_init, of ts m] assms by auto
  moreover have "sorted (map (toff m) vs)"
    using calculation(2) fun_cong [OF calculation(4)] by (simp add: triggers_rep_def sorted_map)
  ultimately show ?thesis by (auto simp: triggers_rep_def)
qed

theorem add_sorts_witness:
  "\<exists>m' s' us. add_all [1, 2, 3] ((\<lambda>t. trigger_init (of_nat (10 - t))), schedule_init) = Inr (m', s') \<and>
    chain (tnx m') (sched_triggers s') us \<and> mset us = {#1, 2, 3#}"
  using add_sorts [of "[1, 2, 3]" "\<lambda>t. trigger_init (of_nat (10 - t))"] by auto

text \<open>Every trigger is pushed, also one with an offset outside of the period.\<close>

lemma schedule_plays_all:
  assumes "triggers_rep m s ts" and "ts \<noteq> []" and "played_up_to m s []"
  shows "\<exists>out s'. play (length (blocks (toff m) ts)) m s = Inr (out, s') \<and>
    concat (map snd out) = ts \<and>
    (\<forall>(t, b)\<in>set out. \<forall>x\<in>set b. t = startTimeOffPeriod_ms s + sched_period_ms s + toff m x) \<and>
    triggers_rep m s' ts \<and> played_up_to m s' [] \<and>
    startTimeOffPeriod_ms s' = startTimeOffPeriod_ms s + sched_period_ms s \<and>
    sched_period_ms s' = sched_period_ms s"
proof -
  let ?bs = "blocks (toff m) ts" and ?start = "startTimeOffPeriod_ms s + sched_period_ms s"
  obtain s' where s': "play (length ?bs) m s = Inr (map (\<lambda>b. (?start + toff m (hd b), b)) ?bs, s')"
    "triggers_rep m s' ts \<and> played_up_to m s' [] \<and> startTimeOffPeriod_ms s' = ?start \<and>
     sched_period_ms s' = sched_period_ms s"
    using play_period [OF assms] by blast
  have "concat (map snd (map (\<lambda>b. (?start + toff m (hd b), b)) ?bs)) = ts"
    by (simp add: comp_def concat_blocks)
  moreover have blk: "\<forall>(t, b)\<in>set (map (\<lambda>b. (?start + toff m (hd b), b)) ?bs).
      \<forall>x\<in>set b. t = ?start + toff m x"
    using same_offset [of _ "toff m" ts] by auto
  ultimately show ?thesis using s' by blast
qed

text \<open>C22: Playing a schedule of triggers, whose offsets lie inside of the period, for one period pushes every trigger exactly once,
  in the order of the list, triggers with one offset together, each at the start of the period plus its offset and before the
  next period begins; that one begins one period later.\<close>
theorem schedule_plays_period:
  assumes "triggers_rep m s ts" and "ts \<noteq> []" and "played_up_to m s []" and "\<forall>x\<in>set ts. toff m x < sched_period_ms s"
  shows "\<exists>out s'. play (length (blocks (toff m) ts)) m s = Inr (out, s') \<and>
    concat (map snd out) = ts \<and>
    (\<forall>(t, b)\<in>set out. \<forall>x\<in>set b. t = startTimeOffPeriod_ms s' + toff m x \<and> t - startTimeOffPeriod_ms s' < sched_period_ms s') \<and>
    triggers_rep m s' ts \<and> played_up_to m s' [] \<and>
    startTimeOffPeriod_ms s' = startTimeOffPeriod_ms s + sched_period_ms s \<and>
    sched_period_ms s' = sched_period_ms s"
proof -
  obtain out s' where o: "play (length (blocks (toff m) ts)) m s = Inr (out, s')" "concat (map snd out) = ts"
    "\<forall>(t, b)\<in>set out. \<forall>x\<in>set b. t = startTimeOffPeriod_ms s + sched_period_ms s + toff m x"
    "triggers_rep m s' ts" "played_up_to m s' []" "startTimeOffPeriod_ms s' = startTimeOffPeriod_ms s + sched_period_ms s"
    "sched_period_ms s' = sched_period_ms s" using schedule_plays_all [OF assms(1-3)] by blast
  have "x \<in> set ts" if "(t, b) \<in> set out" "x \<in> set b" for t b x using o(2) that by force
  then show ?thesis using o assms(4) by (intro exI [of _ out] exI [of _ s']) fastforce
qed

theorem schedule_plays_period_witness:
  "\<exists>m s out s'. play 2 m s = Inr (out, s') \<and> concat (map snd out) = [7, 9] \<and> startTimeOffPeriod_ms s' = 100"
proof -
  define m where "m = (\<lambda>t :: nat. if t = 7 then (trigger_init 5)\<lparr>tr_next := Some 9\<rparr> else trigger_init 60)"
  define s where "s = schedule_init\<lparr>sched_triggers := Some 7, sched_period_ms := 100\<rparr>"
  have t: "triggers_rep m s [7, 9]" "played_up_to m s []" "\<forall>x\<in>set [7, 9]. toff m x < sched_period_ms s"
    by (simp_all add: triggers_rep_def played_up_to_def m_def s_def trigger_init_def schedule_init_def)
  have two: "length (blocks (toff m) [7, 9]) = 2" by (simp add: m_def trigger_init_def)
  obtain out s' where "play 2 m s = Inr (out, s')" "concat (map snd out) = [7, 9]"
    "startTimeOffPeriod_ms s' = startTimeOffPeriod_ms s + sched_period_ms s"
    using schedule_plays_period [OF t(1) list.distinct(2) t(2,3), unfolded two] by blast
  then show ?thesis by (intro exI [of _ m] exI [of _ s]) (auto simp: s_def schedule_init_def)
qed

end
