(* ===== verification/World.thy ===== *)
theory World
  imports SchedulePolicy Clock TaskInput PeriodicSchedule TaskUtils
begin

text \<open>
  The objects of an application around one scheduler: channels, inputs, tasks, groups, barriers,
  events and the scheduler itself (\<^verbatim>\<open>src/task.cpp\<close>, \<^verbatim>\<open>taskChannel.cpp\<close>, \<^verbatim>\<open>taskInput.cpp\<close>,
  \<^verbatim>\<open>taskInputArray.cpp\<close>, \<^verbatim>\<open>taskGroup.cpp\<close>, \<^verbatim>\<open>taskBarrier.cpp\<close>, \<^verbatim>\<open>taskEvent.cpp\<close>,
  \<^verbatim>\<open>scheduler.cpp\<close>). Each class has a memory, the calls between the objects are calls between
  the definitions. The virtual methods of a channel are chosen by its class. Time stands still
  during an operation; the scheduler's virtual \<^verbatim>\<open>signal\<close> and the clock's virtual
  \<^verbatim>\<open>startTimer\<close> are recorded. The policy comes with its two methods and its state.
\<close>

section \<open>State\<close>

datatype task_state = TASK_WAIT | TASK_RUN | TASK_FINISH | TASK_RESET | TASK_PENDING

record task_impl =
  m_taskId :: id32
  m_state :: task_state
  task_inputs :: "input_id list"
  task_condition :: activation_condition
  nextTaskAtScheduler :: "task_id option"
  task_group :: "group_id option"

datatype channel_class = PlainChannel | BarrierChannel | EventChannel

record channel =
  ch_class :: channel_class
  m_channelId :: id32
  m_inputs :: "input_id option"

record barrier =
  counter :: uint
  startValue :: uint

text \<open>The array \<^verbatim>\<open>taskList\<close> of a group has \<^verbatim>\<open>maxTasks\<close> entries.\<close>

type_synonym group = "task_id option list"

record 'p world =
  w_tasks :: "task_id \<Rightarrow> task_impl"
  w_inputs :: "input_id \<Rightarrow> input_impl"
  w_channels :: "channel_id \<Rightarrow> channel"
  w_barriers :: "channel_id \<Rightarrow> barrier"
  w_groups :: "group_id \<Rightarrow> group"
  w_triggers :: triggers
  w_schedules :: "nat \<Rightarrow> periodic_schedule"
  w_clock :: clock
  w_now :: time
  w_ops :: "'p policy_ops"
  w_policy :: 'p
  w_running :: bool
  associatedTasks :: "task_id option"
  w_signals :: nat
  w_timer :: "time list"
  autoTaskId :: id32
  channelCount :: id32

definition upd_task :: "task_id \<Rightarrow> (task_impl \<Rightarrow> task_impl) \<Rightarrow> 'p world \<Rightarrow> 'p world" where
  "upd_task t f w = w\<lparr>w_tasks := (w_tasks w)(t := f (w_tasks w t))\<rparr>"

definition upd_input :: "input_id \<Rightarrow> (input_impl \<Rightarrow> input_impl) \<Rightarrow> 'p world \<Rightarrow> 'p world" where
  "upd_input i f w = w\<lparr>w_inputs := (w_inputs w)(i := f (w_inputs w i))\<rparr>"

definition upd_channel :: "channel_id \<Rightarrow> (channel \<Rightarrow> channel) \<Rightarrow> 'p world \<Rightarrow> 'p world" where
  "upd_channel c f w = w\<lparr>w_channels := (w_channels w)(c := f (w_channels w c))\<rparr>"

abbreviation state_of :: "'p world \<Rightarrow> task_id \<Rightarrow> task_state" where
  "state_of w t \<equiv> m_state (w_tasks w t)"

abbreviation set_state :: "task_id \<Rightarrow> task_state \<Rightarrow> 'p world \<Rightarrow> 'p world" where
  "set_state t s \<equiv> upd_task t (\<lambda>x. x\<lparr>m_state := s\<rparr>)"

section \<open>Scheduler: queueing a task\<close>

definition signal :: "'p world \<Rightarrow> 'p world" where
  "signal w = w\<lparr>w_signals := Suc (w_signals w)\<rparr>"

definition add_task :: "task_id \<Rightarrow> 'p world \<Rightarrow> 'p world" where
  "add_task t w = (upd_task t (\<lambda>x. x\<lparr>nextTaskAtScheduler := associatedTasks w\<rparr>) w)\<lparr>associatedTasks := Some t\<rparr>"

definition perform :: "task_id \<Rightarrow> 'p world \<Rightarrow> 'p world res" where
  "perform t w =
     (if w_running w
      then bindR (pol_queue (w_ops w) t (w_policy w)) (\<lambda>(p', b). Inr (signal (w\<lparr>w_policy := p'\<rparr>)))
      else Inr w)"

section \<open>Tasks: activation\<close>

definition task_isActivated :: "task_id \<Rightarrow> 'p world \<Rightarrow> bool" where
  "task_isActivated t w =
     array_isActivated (task_condition (w_tasks w t)) (map (w_inputs w) (task_inputs (w_tasks w t)))"

definition activate :: "task_id \<Rightarrow> 'p world \<Rightarrow> 'p world res" where
  "activate t w =
     (if state_of w t \<noteq> TASK_PENDING
      then if state_of w t = TASK_RESET
           then if task_isActivated t w then Inr (set_state t TASK_PENDING w) else Inr w
           else if state_of w t = TASK_WAIT
           then if task_isActivated t w then perform t (set_state t TASK_RUN w) else Inr w
           else Inr w
      else Inr w)"

section \<open>Inputs and channels: notification\<close>

definition notifyInput :: "input_id \<Rightarrow> 'p world \<Rightarrow> 'p world res" where
  "notifyInput i w =
     (let (x, act) = input_notified (w_inputs w i);
          w1 = upd_input i (\<lambda>_. x) w
      in if act then deref (in_task x) (\<lambda>t. activate t w1) else Inr w1)"

definition channel_push :: "channel_id \<Rightarrow> 'p world \<Rightarrow> 'p world res" where
  "channel_push c w =
     bindR (for_ptr (\<lambda>w i. True) (\<lambda>w i. in_next (w_inputs w i)) notifyInput (m_inputs (w_channels w c)) w)
       (\<lambda>r. Inr (snd r))"

definition upd_barrier :: "channel_id \<Rightarrow> (barrier \<Rightarrow> barrier) \<Rightarrow> 'p world \<Rightarrow> 'p world" where
  "upd_barrier c f w = w\<lparr>w_barriers := (w_barriers w)(c := f (w_barriers w c))\<rparr>"

definition barrier_increase :: "uint \<Rightarrow> channel_id \<Rightarrow> 'p world \<Rightarrow> 'p world" where
  "barrier_increase delta c = upd_barrier c (\<lambda>b. b\<lparr>counter := counter b + delta\<rparr>)"

definition barrier_push :: "channel_id \<Rightarrow> 'p world \<Rightarrow> 'p world res" where
  "barrier_push c w =
     (if counter (w_barriers w c) > 0
      then let w1 = upd_barrier c (\<lambda>b. b\<lparr>counter := counter b - 1\<rparr>) w
           in if counter (w_barriers w1 c) = 0 then channel_push c w1 else Inr w1
      else Inr w)"

definition barrier_reset :: "channel_id \<Rightarrow> 'p world \<Rightarrow> 'p world" where
  "barrier_reset c = upd_barrier c (\<lambda>b. b\<lparr>counter := startValue b\<rparr>)"

text \<open>\<^verbatim>\<open>push\<close> is not virtual; it is the one of the declared class of the channel.\<close>

definition push :: "channel_id \<Rightarrow> 'p world \<Rightarrow> 'p world res" where
  "push c w = (if ch_class (w_channels w c) = BarrierChannel then barrier_push c w else channel_push c w)"

text \<open>The search loop's state is \<^verbatim>\<open>inputIsUnique\<close>.\<close>

definition associateTo :: "input_id \<Rightarrow> channel_id \<Rightarrow> 'p world \<Rightarrow> ('p world \<times> bool) res" where
  "associateTo i c w =
     bindR (for_ptr (\<lambda>unique x. unique) (\<lambda>unique x. in_next (w_inputs w x))
              (\<lambda>x unique. Inr (if i = x then False else unique)) (m_inputs (w_channels w c)) True)
       (\<lambda>(_, inputIsUnique).
          Inr (if inputIsUnique
               then upd_channel c (\<lambda>ch. ch\<lparr>m_inputs := Some i\<rparr>)
                      (upd_input i (\<lambda>x. x\<lparr>in_next := m_inputs (w_channels w c)\<rparr>) w)
               else w, inputIsUnique))"

definition channel_deassociate :: "input_id \<Rightarrow> channel_id \<Rightarrow> 'p world \<Rightarrow> 'p world res" where
  "channel_deassociate i c w =
     (if m_inputs (w_channels w c) = Some i
      then Inr (upd_channel c (\<lambda>ch. ch\<lparr>m_inputs := in_next (w_inputs w i)\<rparr>) w)
      else deref (m_inputs (w_channels w c)) (\<lambda>h.
        bindR (for_ptr (\<lambda>previous x. i \<noteq> x) (\<lambda>previous x. in_next (w_inputs w x)) (\<lambda>x previous. Inr x)
                 (in_next (w_inputs w h)) h)
          (\<lambda>(_, previous).
             if in_next (w_inputs w previous) = Some i
             then Inr (upd_input previous (\<lambda>x. x\<lparr>in_next := in_next (w_inputs w i)\<rparr>) w)
             else Inr w)))"

definition input_associate :: "channel_id \<Rightarrow> input_id \<Rightarrow> 'p world \<Rightarrow> ('p world \<times> bool) res" where
  "input_associate c i w = associateTo i c (upd_input i (\<lambda>x. x\<lparr>in_channel := Some c\<rparr>) w)"

definition input_deassociate :: "input_id \<Rightarrow> 'p world \<Rightarrow> 'p world res" where
  "input_deassociate i w =
     (case in_channel (w_inputs w i) of
        None \<Rightarrow> Inr w
      | Some c \<Rightarrow> bindR (channel_deassociate i c w)
          (\<lambda>w1. Inr (upd_input i (\<lambda>x. x\<lparr>in_channel := None\<rparr>) w1)))"

definition getChannel :: "input_id \<Rightarrow> 'p world \<Rightarrow> channel_id option" where
  "getChannel i w = in_channel (w_inputs w i)"

text \<open>\<^verbatim>\<open>Input::configure\<close> with a channel; the overload without one is \<open>input_configure\<close>.\<close>

definition input_configureChannel :: "channel_id \<Rightarrow> uint \<Rightarrow> bool \<Rightarrow> input_id \<Rightarrow> 'p world \<Rightarrow> 'p world res" where
  "input_configureChannel c activations fin i w =
     bindR (case in_channel (w_inputs w i) of None \<Rightarrow> Inr w | Some c0 \<Rightarrow> channel_deassociate i c0 w)
       (\<lambda>w1. bindR (associateTo i c (upd_input i (\<lambda>x. input_configure activations fin (x\<lparr>in_channel := Some c\<rparr>)) w1))
          (\<lambda>(w2, _). Inr w2))"

section \<open>Events\<close>

definition do_call :: "clock_call \<Rightarrow> 'p world \<Rightarrow> 'p world" where
  "do_call k w = (case k of SignalScheduler \<Rightarrow> signal w | StartTimer d \<Rightarrow> w\<lparr>w_timer := w_timer w @ [d]\<rparr>)"

definition on_clock :: "(clock \<Rightarrow> (clock \<times> clock_call list) res) \<Rightarrow> 'p world \<Rightarrow> 'p world res" where
  "on_clock f w = bindR (f (w_clock w)) (\<lambda>(c, calls). Inr (fold do_call calls (w\<lparr>w_clock := c\<rparr>)))"

abbreviation ev_of :: "'p world \<Rightarrow> event_id \<Rightarrow> event_impl" where
  "ev_of w e \<equiv> events (w_clock w) e"

definition upd_event :: "event_id \<Rightarrow> (event_impl \<Rightarrow> event_impl) \<Rightarrow> 'p world \<Rightarrow> 'p world" where
  "upd_event e f w = w\<lparr>w_clock := upd_ev e f (w_clock w)\<rparr>"

definition clock_dequeue :: "event_id \<Rightarrow> 'p world \<Rightarrow> 'p world res" where
  "clock_dequeue e w = bindR (dequeue e (w_clock w)) (\<lambda>c. Inr (w\<lparr>w_clock := c\<rparr>))"

definition clock_startAt :: "event_id \<Rightarrow> time \<Rightarrow> 'p world \<Rightarrow> 'p world res" where
  "clock_startAt e t w = on_clock (startAt (w_now w) e t) w"

definition clock_startIn :: "event_id \<Rightarrow> time \<Rightarrow> 'p world \<Rightarrow> 'p world res" where
  "clock_startIn e t w = on_clock (startIn (w_now w) (w_now w) e t) w"

text \<open>\<^verbatim>\<open>if (impl.queued) { impl.clock.dequeue(impl); }\<close>\<close>

definition dequeue_if_queued :: "event_id \<Rightarrow> 'p world \<Rightarrow> 'p world res" where
  "dequeue_if_queued e w = (if queued (ev_of w e) then clock_dequeue e w else Inr w)"

definition next_period :: "time \<Rightarrow> time \<Rightarrow> time \<Rightarrow> time" where
  "next_period now period offset =
     (if now > offset
      then if period > 0 then offset + ((now - offset) div period + 1) * period else now
      else offset)"

definition configurePeriodicTiming :: "time \<Rightarrow> time \<Rightarrow> event_id \<Rightarrow> 'p world \<Rightarrow> 'p world" where
  "configurePeriodicTiming period offset e w =
     upd_event e (\<lambda>ev. ev\<lparr>period_ms := period,
                          nextActivation_ms := next_period (w_now w) period offset,
                          periodical := period > 0, configured := period > 0\<rparr>) w"

definition setPeriodicTiming :: "time \<Rightarrow> time \<Rightarrow> event_id \<Rightarrow> 'p world \<Rightarrow> 'p world res" where
  "setPeriodicTiming period offset e w =
     bindR (dequeue_if_queued e w) (\<lambda>w1.
       let w2 = upd_event e (\<lambda>ev. ev\<lparr>periodicSchedule := None\<rparr>) (configurePeriodicTiming period offset e w1)
       in clock_startAt e (nextActivation_ms (ev_of w2 e)) w2)"

definition stop :: "event_id \<Rightarrow> 'p world \<Rightarrow> 'p world res" where
  "stop e w =
     bindR (clock_dequeue e w)
       (\<lambda>w1. Inr (upd_event e (\<lambda>ev. ev\<lparr>configured := False, periodicSchedule := None\<rparr>) w1))"

definition upd_schedule :: "nat \<Rightarrow> (periodic_schedule \<Rightarrow> periodic_schedule) \<Rightarrow> 'p world \<Rightarrow> 'p world" where
  "upd_schedule s f w = w\<lparr>w_schedules := (w_schedules w)(s := f (w_schedules w s))\<rparr>"

definition setPeriodicSchedule :: "time \<Rightarrow> time \<Rightarrow> nat \<Rightarrow> event_id \<Rightarrow> 'p world \<Rightarrow> 'p world res" where
  "setPeriodicSchedule period offset s e w =
     bindR (dequeue_if_queued e w) (\<lambda>w1.
       let w2 = upd_event e (\<lambda>ev. ev\<lparr>periodicSchedule := Some s\<rparr>) w1
       in if sched_triggers (w_schedules w2 s) \<noteq> None
          then let w3 = configurePeriodicTiming period offset e w2;
                   w4 = upd_schedule s (\<lambda>ps. ps\<lparr>startTimeOffPeriod_ms := nextActivation_ms (ev_of w3 e) - period,
                                                sched_period_ms := period\<rparr>) w3
               in bindR (stepToNextTriggerOffset (w_triggers w4) (w_schedules w4 s))
                    (\<lambda>(ps, nextTriggerOffset).
                       let w5 = upd_schedule s (\<lambda>_. ps) w4
                       in if nextTriggerOffset < period then clock_startAt e nextTriggerOffset w5
                          else stop e w5)
          else Inr (upd_event e (\<lambda>ev. ev\<lparr>periodicSchedule := None\<rparr>) w2))"

definition setRelativeTiming :: "time \<Rightarrow> event_id \<Rightarrow> 'p world \<Rightarrow> 'p world res" where
  "setRelativeTiming delay e w =
     bindR (dequeue_if_queued e w)
       (\<lambda>w1. Inr (upd_event e (\<lambda>ev. ev\<lparr>periodical := False, period_ms := delay, configured := True\<rparr>) w1))"

definition event_now :: "event_id \<Rightarrow> 'p world \<Rightarrow> time" where
  "event_now e w = w_now w"

text \<open>\<^verbatim>\<open>Event::shallFire\<close> as it is when no application overloads it.\<close>

definition shallFire :: "event_id \<Rightarrow> 'p world \<Rightarrow> bool" where
  "shallFire e w \<longleftrightarrow> periodicSchedule (ev_of w e) = None"

definition trigger_event :: "event_id \<Rightarrow> time \<Rightarrow> 'p world \<Rightarrow> 'p world res" where
  "trigger_event e t w =
     (if \<not> configured (ev_of w e)
      then bindR (dequeue_if_queued e w) (\<lambda>w1.
             if t = 0 then if shallFire e w1 then channel_push e w1 else Inr w1
             else clock_startIn e t w1)
      else Inr w)"

definition isTriggered :: "event_id \<Rightarrow> 'p world \<Rightarrow> bool" where
  "isTriggered e w \<longleftrightarrow> queued (ev_of w e)"

definition event_reset :: "event_id \<Rightarrow> 'p world \<Rightarrow> 'p world res" where
  "event_reset e w =
     (if configured (ev_of w e) \<and> \<not> periodical (ev_of w e)
      then bindR (dequeue_if_queued e w) (\<lambda>w1. clock_startIn e (period_ms (ev_of w1 e)) w1)
      else Inr w)"

fun push_all :: "channel_id list \<Rightarrow> 'p world \<Rightarrow> 'p world res" where
  "push_all [] w = Inr w"
| "push_all (c # cs) w = bindR (channel_push c w) (push_all cs)"

definition event_handle :: "event_id \<Rightarrow> 'p world \<Rightarrow> 'p world res" where
  "event_handle e w =
     bindR
       (if periodical (ev_of w e)
        then case periodicSchedule (ev_of w e) of
               None \<Rightarrow> clock_startAt e (nextActivation_ms (ev_of w e) + period_ms (ev_of w e)) w
             | Some s \<Rightarrow>
                 bindR (pushTriggers (w_triggers w) (w_schedules w s)) (\<lambda>(ps, pushed).
                 bindR (push_all pushed (upd_schedule s (\<lambda>_. ps) w)) (\<lambda>w1.
                 bindR (stepToNextTriggerOffset (w_triggers w1) (w_schedules w1 s)) (\<lambda>(ps1, t).
                   clock_startAt e t (upd_schedule s (\<lambda>_. ps1) w1))))
        else Inr w)
       (\<lambda>w2. if shallFire e w2 then channel_push e w2 else Inr w2)"

section \<open>Reset of tasks\<close>

text \<open>The virtual \<^verbatim>\<open>reset\<close> of a channel.\<close>

definition channel_reset :: "channel_id \<Rightarrow> 'p world \<Rightarrow> 'p world res" where
  "channel_reset c w =
     (case ch_class (w_channels w c) of
        PlainChannel \<Rightarrow> Inr w
      | BarrierChannel \<Rightarrow> Inr (barrier_reset c w)
      | EventChannel \<Rightarrow> event_reset c w)"

definition input_reset :: "input_id \<Rightarrow> 'p world \<Rightarrow> 'p world res" where
  "input_reset i w =
     bindR (case in_channel (w_inputs w i) of None \<Rightarrow> Inr w | Some c \<Rightarrow> channel_reset c w)
       (\<lambda>w1. let (x, act) = input_consumed (w_inputs w1 i);
                 w2 = upd_input i (\<lambda>_. x) w1
             in if act then deref (in_task x) (\<lambda>t. activate t w2) else Inr w2)"

fun reset_inputs :: "input_id list \<Rightarrow> 'p world \<Rightarrow> 'p world res" where
  "reset_inputs [] w = Inr w"
| "reset_inputs (i # is) w = bindR (input_reset i w) (reset_inputs is)"

text \<open>The part of \<^verbatim>\<open>Task::reset\<close> in its second critical section.\<close>

definition reset_end :: "task_id \<Rightarrow> 'p world \<Rightarrow> 'p world res" where
  "reset_end t w =
     (if state_of w t = TASK_PENDING \<and> task_isActivated t w
      then perform t (set_state t TASK_RUN w)
      else Inr (set_state t TASK_WAIT w))"

definition task_reset :: "task_id \<Rightarrow> 'p world \<Rightarrow> 'p world res" where
  "task_reset t w =
     (let w1 = set_state t TASK_RESET w
      in bindR (reset_inputs (task_inputs (w_tasks w1 t)) w1) (reset_end t))"

section \<open>Groups\<close>

definition isExecuted :: "task_id \<Rightarrow> 'p world \<Rightarrow> bool" where
  "isExecuted t w \<longleftrightarrow> state_of w t = TASK_FINISH"

fun areAllExecuted :: "group \<Rightarrow> 'p world \<Rightarrow> bool" where
  "areAllExecuted [] w = True"
| "areAllExecuted (None # ts) w = True"
| "areAllExecuted (Some t # ts) w = (if isExecuted t w then areAllExecuted ts w else False)"

fun group_reset :: "group \<Rightarrow> 'p world \<Rightarrow> 'p world res" where
  "group_reset [] w = Inr w"
| "group_reset (None # ts) w = Inr w"
| "group_reset (Some t # ts) w = bindR (task_reset t w) (group_reset ts)"

definition group_finalizeExecution :: "group_id \<Rightarrow> 'p world \<Rightarrow> 'p world res" where
  "group_finalizeExecution g w =
     (if areAllExecuted (w_groups w g) w then group_reset (w_groups w g) w else Inr w)"

text \<open>\<^verbatim>\<open>Group::join\<close>: the first free slot, if there is one.\<close>

fun fill_slot :: "task_id \<Rightarrow> group \<Rightarrow> group option" where
  "fill_slot t [] = None"
| "fill_slot t (None # ts) = Some (Some t # ts)"
| "fill_slot t (Some u # ts) = map_option ((#) (Some u)) (fill_slot t ts)"

definition joinTo :: "group_id \<Rightarrow> task_id \<Rightarrow> 'p world \<Rightarrow> 'p world" where
  "joinTo g = (\<lambda>t. upd_task t (\<lambda>x. x\<lparr>task_group := Some g\<rparr>))"

definition group_join :: "task_id \<Rightarrow> group_id \<Rightarrow> 'p world \<Rightarrow> 'p world" where
  "group_join t g w =
     (case fill_slot t (w_groups w g) of
        None \<Rightarrow> w
      | Some ts \<Rightarrow> (joinTo g t w)\<lparr>w_groups := (w_groups w)(g := ts)\<rparr>)"

definition task_isValid :: "task_id \<Rightarrow> 'p world \<Rightarrow> bool" where
  "task_isValid t w = array_isValid (map (w_inputs w) (task_inputs (w_tasks w t)))"

fun group_isValid :: "group \<Rightarrow> 'p world \<Rightarrow> bool" where
  "group_isValid [] w = True"
| "group_isValid (None # ts) w = False"
| "group_isValid (Some t # ts) w = (if task_isValid t w then group_isValid ts w else False)"

section \<open>Execution of a task\<close>

definition finalizeExecution :: "task_id \<Rightarrow> 'p world \<Rightarrow> 'p world res" where
  "finalizeExecution t w =
     (case task_group (w_tasks w t) of
        None \<Rightarrow> task_reset t w
      | Some g \<Rightarrow> group_finalizeExecution g (set_state t TASK_FINISH w))"

text \<open>
  The virtual \<^verbatim>\<open>synchronizeStart\<close> and \<^verbatim>\<open>synchronizeEnd\<close> of the channels here do nothing; that
  of a FIFO is \<^verbatim>\<open>fc_synchronizeStart\<close> of the data channels.
\<close>

definition channel_synchronize :: "channel_id \<Rightarrow> task_id \<Rightarrow> uint \<Rightarrow> 'p world \<Rightarrow> 'p world res" where
  "channel_synchronize c t volume w = Inr w"

definition input_synchronize :: "input_id \<Rightarrow> 'p world \<Rightarrow> 'p world res" where
  "input_synchronize i w =
     (case in_channel (w_inputs w i) of
        None \<Rightarrow> Inr w
      | Some c \<Rightarrow> deref (in_task (w_inputs w i)) (\<lambda>t. channel_synchronize c t (in_notifications (w_inputs w i)) w))"

fun synchronize :: "input_id list \<Rightarrow> 'p world \<Rightarrow> 'p world res" where
  "synchronize [] w = Inr w"
| "synchronize (i # is) w = bindR (input_synchronize i w) (synchronize is)"

text \<open>\<open>app t\<close> is the application's \<^verbatim>\<open>Task::execute\<close>.\<close>

definition execute :: "(task_id \<Rightarrow> 'p world \<Rightarrow> 'p world res) \<Rightarrow> task_id \<Rightarrow> 'p world \<Rightarrow> 'p world res" where
  "execute app t w =
     bindR (synchronize (task_inputs (w_tasks w t)) w) (\<lambda>w1.
     bindR (app t w1) (\<lambda>w2.
     bindR (synchronize (task_inputs (w_tasks w2 t)) w2) (finalizeExecution t)))"

section \<open>Scheduler\<close>

definition start :: "bool \<Rightarrow> 'p world \<Rightarrow> 'p world res" where
  "start doReset w =
     bindR (for_ptr (\<lambda>w t. True) (\<lambda>w t. nextTaskAtScheduler (w_tasks w t))
              (\<lambda>t w. if doReset then task_reset t w
                     else if task_isActivated t w then perform t w else Inr w)
              (associatedTasks w) (w\<lparr>w_running := True\<rparr>))
       (\<lambda>r. Inr (snd r))"

text \<open>\<open>wait\<close> is the virtual \<^verbatim>\<open>waitUntilEmpty\<close>.\<close>

definition terminate_scheduler :: "('p world \<Rightarrow> 'p world res) \<Rightarrow> bool \<Rightarrow> 'p world \<Rightarrow> 'p world res" where
  "terminate_scheduler wait doNotRemovePendingTasks w =
     bindR (dequeueAll (w_clock w)) (\<lambda>c.
       let w1 = w\<lparr>w_running := False, w_clock := c\<rparr>
       in bindR (if doNotRemovePendingTasks then Inr w1
                 else bindR (drain (pol_nextTask (w_ops w1)) (w_policy w1))
                        (\<lambda>(p, _). Inr (w1\<lparr>w_policy := p\<rparr>)))
            wait)"

partial_function (option) handle_loop :: "'p world \<Rightarrow> 'p world res option" where
  "handle_loop w =
     (case readFirstPending (w_now w) (w_clock w) of
        Inl e \<Rightarrow> Some (Inl e)
      | Inr r \<Rightarrow>
          (case snd r of
             None \<Rightarrow> Some (Inr (w\<lparr>w_clock := fst r\<rparr>))
           | Some e \<Rightarrow>
               (case event_handle e (w\<lparr>w_clock := fst r\<rparr>) of
                  Inl err \<Rightarrow> Some (Inl err)
                | Inr w1 \<Rightarrow> handle_loop w1)))"

declare handle_loop.simps [code]

definition handleEvents :: "'p world \<Rightarrow> 'p world res" where
  "handleEvents w = (case handle_loop w of None \<Rightarrow> Inl Diverges | Some r \<Rightarrow> r)"

section \<open>Construction\<close>

text \<open>\<^verbatim>\<open>Task::Task\<close> with the constructor of its implementation.\<close>

definition task_create :: "task_id \<Rightarrow> id32 \<Rightarrow> input_id list \<Rightarrow> 'p world \<Rightarrow> 'p world" where
  "task_create t taskId inputs w =
     (let w1 = add_task t (upd_task t (\<lambda>_. \<lparr>m_taskId = taskId, m_state = TASK_FINISH, task_inputs = inputs,
                 task_condition = None, nextTaskAtScheduler = None, task_group = None\<rparr>) w)
      in if taskId = 0
         then (upd_task t (\<lambda>x. x\<lparr>m_taskId := autoTaskId w1\<rparr>) w1)\<lparr>autoTaskId := autoTaskId w1 + 1\<rparr>
         else w1)"

definition task_construct :: "task_id \<Rightarrow> 'p world \<Rightarrow> 'p world" where
  "task_construct t w = fold (\<lambda>i. upd_input i (input_connectTask t)) (task_inputs (w_tasks w t)) w"

text \<open>The subscript of the input array asserts its bound.\<close>

definition configureInput :: "task_id \<Rightarrow> nat \<Rightarrow> channel_id \<Rightarrow> 'p world \<Rightarrow> ('p world \<times> bool) res" where
  "configureInput t key c w =
     (if key < length (task_inputs (w_tasks w t))
      then input_associate c (task_inputs (w_tasks w t) ! key) w else Inl AssertFailed)"

definition setCondition :: "task_id \<Rightarrow> activation_condition \<Rightarrow> 'p world \<Rightarrow> 'p world" where
  "setCondition t f = upd_task t (\<lambda>x. x\<lparr>task_condition := f\<rparr>)"

definition channel_create :: "channel_id \<Rightarrow> channel_class \<Rightarrow> id32 \<Rightarrow> 'p world \<Rightarrow> 'p world" where
  "channel_create c k channelId w =
     (let w1 = upd_channel c (\<lambda>_. \<lparr>ch_class = k, m_channelId = channelId, m_inputs = None\<rparr>) w
      in if channelId = 0
         then (upd_channel c (\<lambda>x. x\<lparr>m_channelId := channelCount w1\<rparr>) w1)\<lparr>channelCount := channelCount w1 + 1\<rparr>
         else w1)"

definition barrier_create :: "channel_id \<Rightarrow> uint \<Rightarrow> 'p world \<Rightarrow> 'p world" where
  "barrier_create c resetValue w =
     upd_barrier c (\<lambda>_. \<lparr>counter = resetValue, startValue = resetValue\<rparr>) (channel_create c BarrierChannel 0 w)"

definition event_create :: "event_id \<Rightarrow> id32 \<Rightarrow> 'p world \<Rightarrow> 'p world" where
  "event_create e eventId w = upd_event e (\<lambda>_. event_init) (channel_create e EventChannel eventId w)"

definition group_create :: "group_id \<Rightarrow> nat \<Rightarrow> 'p world \<Rightarrow> 'p world" where
  "group_create g n w = w\<lparr>w_groups := (w_groups w)(g := replicate n None)\<rparr>"

section \<open>Identification\<close>

definition getTaskId :: "task_id \<Rightarrow> 'p world \<Rightarrow> id32" where
  "getTaskId t w = m_taskId (w_tasks w t)"

definition setTaskId :: "id32 \<Rightarrow> task_id \<Rightarrow> 'p world \<Rightarrow> 'p world" where
  "setTaskId newTaskId t = upd_task t (\<lambda>x. x\<lparr>m_taskId := newTaskId\<rparr>)"

definition setTaskName :: "byte list option \<Rightarrow> task_id \<Rightarrow> 'p world \<Rightarrow> 'p world res" where
  "setTaskName newTaskName t w =
     bindR (getIdentificationFromName newTaskName) (\<lambda>i. Inr (upd_task t (\<lambda>x. x\<lparr>m_taskId := i\<rparr>) w))"

definition getChannelId :: "channel_id \<Rightarrow> 'p world \<Rightarrow> id32" where
  "getChannelId c w = m_channelId (w_channels w c)"

definition setChannelId :: "id32 \<Rightarrow> channel_id \<Rightarrow> 'p world \<Rightarrow> 'p world" where
  "setChannelId newChannelId c = upd_channel c (\<lambda>x. x\<lparr>m_channelId := newChannelId\<rparr>)"

definition setChannelName :: "byte list option \<Rightarrow> channel_id \<Rightarrow> 'p world \<Rightarrow> 'p world res" where
  "setChannelName newChannelName c w =
     bindR (getIdentificationFromName newChannelName)
       (\<lambda>i. Inr (upd_channel c (\<lambda>x. x\<lparr>m_channelId := i\<rparr>) w))"

text \<open>\<open>app t\<close> is the application's \<^verbatim>\<open>Task::initialize\<close>.\<close>

definition initialize :: "(task_id \<Rightarrow> 'p world \<Rightarrow> 'p world res) \<Rightarrow> 'p world \<Rightarrow> 'p world res" where
  "initialize app w =
     bindR (for_ptr (\<lambda>w t. True) (\<lambda>w t. nextTaskAtScheduler (w_tasks w t)) app (associatedTasks w) w)
       (\<lambda>r. Inr (snd r))"

text \<open>The constructors with a name; those of tasks and events use the constructor with an identification.\<close>

definition task_create_named :: "task_id \<Rightarrow> byte list option \<Rightarrow> input_id list \<Rightarrow> 'p world \<Rightarrow> 'p world res" where
  "task_create_named t taskName inputs w =
     bindR (getIdentificationFromName taskName) (\<lambda>i. Inr (task_create t i inputs w))"

definition event_create_named :: "event_id \<Rightarrow> byte list option \<Rightarrow> 'p world \<Rightarrow> 'p world res" where
  "event_create_named e eventName w =
     bindR (getIdentificationFromName eventName) (\<lambda>i. Inr (event_create e i w))"

definition event_destroy :: "event_id \<Rightarrow> 'p world \<Rightarrow> 'p world res" where
  "event_destroy = clock_dequeue"

definition channel_create_named :: "channel_id \<Rightarrow> channel_class \<Rightarrow> byte list option \<Rightarrow> 'p world \<Rightarrow> 'p world res" where
  "channel_create_named c k channelName w =
     bindR (getIdentificationFromName channelName) (\<lambda>i.
       Inr (upd_channel c (\<lambda>_. \<lparr>ch_class = k, m_channelId = i, m_inputs = None\<rparr>) w))"

definition world_init :: "'p policy_ops \<Rightarrow> 'p \<Rightarrow> 'p world" where
  "world_init ops p = \<lparr>w_tasks = (\<lambda>_. \<lparr>m_taskId = 0, m_state = TASK_FINISH, task_inputs = [],
       task_condition = None, nextTaskAtScheduler = None, task_group = None\<rparr>),
     w_inputs = (\<lambda>_. input_init),
     w_channels = (\<lambda>_. \<lparr>ch_class = PlainChannel, m_channelId = 0, m_inputs = None\<rparr>),
     w_barriers = (\<lambda>_. \<lparr>counter = 0, startValue = 0\<rparr>), w_groups = (\<lambda>_. []),
     w_triggers = (\<lambda>_. trigger_init 0), w_schedules = (\<lambda>_. schedule_init), w_clock = clock_init,
     w_now = 0, w_ops = ops, w_policy = p, w_running = False, associatedTasks = None,
     w_signals = 0, w_timer = [], autoTaskId = 1, channelCount = 1\<rparr>"

end
