(* ===== verification/RunQueue.thy ===== *)
theory RunQueue
  imports World PolicyFifo PolicyPSlot
begin

text \<open>
  The scheduler and its policy: whatever the application does, a task waits in the run queue
  at most once, only while its state is \<open>TASK_RUN\<close>, and never while it is executed, so that
  the calls of the policy always meet its contract. The lemmas are proved once, for every
  policy that accepts all tasks that do not wait, and used for each policy.
\<close>

section \<open>Policies that accept every task that does not wait\<close>

locale open_policy = schedule_policy +
  assumes admits: "admissible p t"

sublocale priority_policy \<subseteq> open_policy
  by unfold_locales (rule always_admissible)

interpretation fifo_open: open_policy fifo_queue fifo_nextTask fifo_rep "\<lambda>p t ts. ts @ [t]" "\<lambda>p t. True"
  by unfold_locales simp

section \<open>What an activation leaves alone\<close>

text \<open>Everything but the states of the tasks, the policy and the number of signals.\<close>

definition net_of where
  "net_of w =
     ((w_inputs w, w_channels w, w_barriers w, w_groups w, w_triggers w, w_schedules w, w_clock w),
      (w_now w, w_ops w, w_running w, associatedTasks w, w_timer w, autoTaskId w, channelCount w),
      (\<lambda>t. (m_taskId (w_tasks w t), task_inputs (w_tasks w t), task_condition (w_tasks w t),
            nextTaskAtScheduler (w_tasks w t), task_group (w_tasks w t))))"

definition same_net :: "'p world \<Rightarrow> 'p world \<Rightarrow> bool" where
  "same_net w w' \<longleftrightarrow> net_of w = net_of w'"

lemma same_net_refl [simp]: "same_net w w"
  by (simp add: same_net_def)

lemma same_net_trans [trans]: "same_net w1 w2 \<Longrightarrow> same_net w2 w3 \<Longrightarrow> same_net w1 w3"
  by (simp add: same_net_def)

lemma same_net_fields:
  assumes "same_net w w'"
  shows "w_inputs w' = w_inputs w" "w_channels w' = w_channels w" "w_barriers w' = w_barriers w"
    "w_groups w' = w_groups w" "w_triggers w' = w_triggers w" "w_schedules w' = w_schedules w"
    "w_clock w' = w_clock w" "w_now w' = w_now w" "w_ops w' = w_ops w" "w_running w' = w_running w"
    "associatedTasks w' = associatedTasks w" "w_timer w' = w_timer w"
    "task_inputs (w_tasks w' t) = task_inputs (w_tasks w t)"
    "task_condition (w_tasks w' t) = task_condition (w_tasks w t)"
    "nextTaskAtScheduler (w_tasks w' t) = nextTaskAtScheduler (w_tasks w t)"
    "task_group (w_tasks w' t) = task_group (w_tasks w t)"
  using assms by (simp_all add: same_net_def net_of_def fun_eq_iff)

lemma same_net_upd [simp]:
  "same_net w (set_state t s w)" "same_net w (signal (w\<lparr>w_policy := p\<rparr>))"
  by (simp_all add: same_net_def net_of_def upd_task_def signal_def fun_eq_iff)

lemma same_net_activated: "same_net w w' \<Longrightarrow> task_isActivated t w' = task_isActivated t w"
  by (simp add: task_isActivated_def same_net_fields)

section \<open>What notifications leave alone\<close>

lemma signal_tasks [simp]: "w_tasks (signal w) = w_tasks w"
  by (simp add: signal_def)

lemma perform_net: "perform t w = Inr w' \<Longrightarrow> same_net w w' \<and> w_tasks w' = w_tasks w"
proof -
  assume "perform t w = Inr w'"
  then have "w' = w \<or> (\<exists>p. w' = signal (w\<lparr>w_policy := p\<rparr>))"
    by (auto simp: perform_def bindR_eq_Inr split: if_splits)
  then show ?thesis by auto
qed

lemma activate_net: "activate t w = Inr w' \<Longrightarrow> same_net w w' \<and> (\<forall>u. u \<noteq> t \<longrightarrow> state_of w' u = state_of w u)"
proof -
  assume r: "activate t w = Inr w'"
  have "w' = w \<or> w' = set_state t TASK_PENDING w \<or> perform t (set_state t TASK_RUN w) = Inr w'"
    using r unfolding activate_def by (simp split: if_splits)
  then consider "w' = w" | "w' = set_state t TASK_PENDING w" | "perform t (set_state t TASK_RUN w) = Inr w'"
    by blast
  then show ?thesis
  proof cases
    case 3
    then show ?thesis using perform_net [OF 3] same_net_upd(1) [of w t TASK_RUN]
      by (auto simp: upd_task_def intro: same_net_trans)
  next
    case 2
    then show ?thesis using same_net_upd(1) by (auto simp: upd_task_def)
  qed simp
qed

abbreviation noted :: "'p world \<Rightarrow> input_id \<Rightarrow> input_impl" where
  "noted w i \<equiv> fst (input_notified (w_inputs w i))"

lemma notified_keeps: "in_task (fst (input_notified x)) = in_task x" "in_next (fst (input_notified x)) = in_next x"
  "in_channel (fst (input_notified x)) = in_channel x"
  by (simp_all add: input_notified_def Let_def)

lemma consumed_keeps: "in_task (fst (input_consumed x)) = in_task x" "in_next (fst (input_consumed x)) = in_next x"
  "in_channel (fst (input_consumed x)) = in_channel x"
  by (simp_all add: input_consumed_def)

lemma notifyInput_unfold:
  "notifyInput i w =
     (if snd (input_notified (w_inputs w i))
      then deref (in_task (w_inputs w i)) (\<lambda>t. activate t (upd_input i (\<lambda>_. noted w i) w))
      else Inr (upd_input i (\<lambda>_. noted w i) w))"
  using notified_keeps(1) [of "w_inputs w i"] by (simp add: notifyInput_def case_prod_unfold Let_def)

lemma notifyInput_net:
  assumes "notifyInput i w = Inr w'"
  shows "same_net (upd_input i (\<lambda>_. noted w i) w) w'"
  using assms activate_net by (auto simp: notifyInput_unfold deref_def split: if_splits option.splits)

lemma notifyInput_inputs:
  assumes "notifyInput i w = Inr w'"
  shows "w_inputs w' = (w_inputs w)(i := noted w i)"
  using same_net_fields(1) [OF notifyInput_net [OF assms]] by (simp add: upd_input_def)

text \<open>The loop of \<^verbatim>\<open>Channel::push\<close> notifies the inputs of the chain one after the other.\<close>

fun notify_list :: "input_id list \<Rightarrow> 'p world \<Rightarrow> 'p world res" where
  "notify_list [] w = Inr w"
| "notify_list (i # is) w = bindR (notifyInput i w) (notify_list is)"

definition wired :: "'p world \<Rightarrow> channel_id \<Rightarrow> input_id list \<Rightarrow> bool" where
  "wired w c is \<longleftrightarrow> chain (\<lambda>i. in_next (w_inputs w i)) (m_inputs (w_channels w c)) is"

lemma notify_loop:
  "chain (\<lambda>i. in_next (w_inputs w i)) p is \<Longrightarrow>
    bindR (for_ptr (\<lambda>w i. True) (\<lambda>w i. in_next (w_inputs w i)) notifyInput p w) (\<lambda>r. Inr (snd r)) =
    notify_list is w"
proof (induction "is" arbitrary: p w)
  case (Cons i "is")
  then have p: "p = Some i" and c: "chain (\<lambda>i. in_next (w_inputs w i)) (in_next (w_inputs w i)) is" by auto
  show ?case
  proof (cases "notifyInput i w")
    case (Inr w')
    have n: "(\<lambda>j. in_next (w_inputs w' j)) = (\<lambda>j. in_next (w_inputs w j))"
      unfolding notifyInput_inputs [OF Inr] by (auto simp: notified_keeps)
    have "chain (\<lambda>j. in_next (w_inputs w' j)) (in_next (w_inputs w' i)) is"
      using c n by (metis (no_types, lifting))
    then show ?thesis using Cons.IH Inr by (simp add: p for_ptr_Some bindR_assoc)
  qed (simp add: p for_ptr_Some)
qed simp

lemma channel_push_list: "wired w c is \<Longrightarrow> channel_push c w = notify_list is w"
  unfolding channel_push_def wired_def by (rule notify_loop)

lemma notify_list_inputs:
  "notify_list is w = Inr w' \<Longrightarrow> distinct is \<Longrightarrow>
    w_inputs w' = (\<lambda>i. if i \<in> set is then noted w i else w_inputs w i)"
proof (induction "is" arbitrary: w)
  case (Cons i "is")
  then obtain w1 where w1: "notifyInput i w = Inr w1" "notify_list is w1 = Inr w'"
    by (auto simp: bindR_eq_Inr)
  show ?case
    using Cons.IH [OF w1(2)] Cons.prems(2) unfolding notifyInput_inputs [OF w1(1)] by auto
qed auto

section \<open>The invariant\<close>

text \<open>
  \<open>ts\<close> are the tasks in the run queue, \<open>ex\<close> those that an executor has taken out and not yet
  finished. While the scheduler runs there are no other tasks in the state \<open>TASK_RUN\<close>. The
  invariant is stated for the policy given by its methods and \<open>rep\<close>.
\<close>

definition run_inv ::
  "(task_id \<Rightarrow> 'p \<Rightarrow> ('p \<times> bool) res) \<Rightarrow> ('p \<Rightarrow> ('p \<times> task_id option) res) \<Rightarrow>
   ('p \<Rightarrow> task_id list \<Rightarrow> bool) \<Rightarrow> 'p world \<Rightarrow> task_id list \<Rightarrow> task_id set \<Rightarrow> bool" where
  "run_inv q nt rep w ts ex \<longleftrightarrow>
     w_ops w = \<lparr>pol_queue = q, pol_nextTask = nt\<rparr> \<and> rep (w_policy w) ts \<and>
     (\<forall>t\<in>set ts. state_of w t = TASK_RUN) \<and> (\<forall>t\<in>ex. state_of w t = TASK_RUN \<and> t \<notin> set ts) \<and>
     (w_running w \<longrightarrow> (\<forall>t. state_of w t = TASK_RUN \<longrightarrow> t \<in> set ts \<union> ex))"

context open_policy
begin

abbreviation inv :: "'a world \<Rightarrow> task_id list \<Rightarrow> task_id set \<Rightarrow> bool" where
  "inv \<equiv> run_inv queue nextTask rep"

lemma inv_distinct: "inv w ts ex \<Longrightarrow> distinct ts"
  using rep_distinct by (auto simp: run_inv_def)

lemma inv_other_state:
  assumes "inv w ts ex" and "state_of w t \<noteq> TASK_RUN" and "s \<noteq> TASK_RUN \<or> \<not> w_running w"
  shows "inv (set_state t s w) ts ex"
proof -
  have "t \<notin> set ts" "t \<notin> ex" using assms by (auto simp: run_inv_def)
  then show ?thesis using assms(1,3) by (auto simp: run_inv_def upd_task_def)
qed

lemma perform_inv:
  assumes i: "inv w ts ex" and s: "state_of w t \<noteq> TASK_RUN"
  shows "\<exists>w' ts'. perform t (set_state t TASK_RUN w) = Inr w' \<and> inv w' ts' ex \<and>
    same_net w w' \<and> state_of w' = (state_of w)(t := TASK_RUN) \<and>
    ts' = (if w_running w then place (w_policy w) t ts else ts) \<and>
    w_signals w' = (if w_running w then Suc (w_signals w) else w_signals w)"
proof (cases "w_running w")
  case False
  have "perform t (set_state t TASK_RUN w) = Inr (set_state t TASK_RUN w)"
    using False by (simp add: perform_def upd_task_def)
  moreover have "state_of (set_state t TASK_RUN w) = (state_of w)(t := TASK_RUN)"
    by (auto simp: upd_task_def)
  moreover have "w_signals (set_state t TASK_RUN w) = w_signals w" by (simp add: upd_task_def)
  ultimately show ?thesis using False inv_other_state [OF i s, of TASK_RUN] by auto
next
  case True
  let ?w = "set_state t TASK_RUN w"
  have t: "t \<notin> set ts" "t \<notin> ex" using assms by (auto simp: run_inv_def)
  then obtain p' where p': "queue t (w_policy w) = Inr (p', ts = [])" "rep p' (place (w_policy w) t ts)"
    using queue_step [of "w_policy w" ts t] i admits by (auto simp: run_inv_def)
  let ?w' = "signal (?w\<lparr>w_policy := p'\<rparr>)"
  have "pol_queue (w_ops ?w) t (w_policy ?w) = Inr (p', ts = [])" "w_running ?w"
    using i p'(1) True by (simp_all add: run_inv_def upd_task_def)
  then have "perform t ?w = Inr ?w'" by (simp add: perform_def)
  moreover have "inv ?w' (place (w_policy w) t ts) ex"
    using i p'(2) t by (auto simp: run_inv_def upd_task_def signal_def set_place)
  moreover have "same_net w ?w'"
    by (simp add: same_net_def net_of_def upd_task_def signal_def fun_eq_iff)
  moreover have "state_of ?w' = (state_of w)(t := TASK_RUN)" by (auto simp: upd_task_def signal_def)
  moreover have "w_signals ?w' = Suc (w_signals w)" by (simp add: upd_task_def signal_def)
  ultimately show ?thesis using True by auto
qed

text \<open>
  What the activation of a task does: a waiting task whose inputs are activated becomes
  \<open>TASK_RUN\<close> and is queued, one that is being reset becomes \<open>TASK_PENDING\<close>.
\<close>

lemma activate_inv:
  assumes i: "inv w ts ex"
  shows "\<exists>w' ts'. activate t w = Inr w' \<and> inv w' ts' ex \<and> same_net w w' \<and>
    state_of w' = (state_of w)
      (t := if task_isActivated t w
            then (case state_of w t of TASK_WAIT \<Rightarrow> TASK_RUN | TASK_RESET \<Rightarrow> TASK_PENDING | s \<Rightarrow> s)
            else state_of w t) \<and>
    ts' = (if w_running w \<and> task_isActivated t w \<and> state_of w t = TASK_WAIT
           then place (w_policy w) t ts else ts)"
proof (cases "task_isActivated t w \<and> (state_of w t = TASK_WAIT \<or> state_of w t = TASK_RESET)")
  case False
  then have "activate t w = Inr w" by (auto simp: activate_def)
  moreover have "state_of w = (state_of w)
      (t := if task_isActivated t w
            then (case state_of w t of TASK_WAIT \<Rightarrow> TASK_RUN | TASK_RESET \<Rightarrow> TASK_PENDING | s \<Rightarrow> s)
            else state_of w t)"
    using False by (auto simp: fun_eq_iff split: task_state.split)
  ultimately show ?thesis using i False by auto
next
  case True
  show ?thesis
  proof (cases "state_of w t = TASK_WAIT")
    case wait: True
    then have "activate t w = perform t (set_state t TASK_RUN w)" using True by (simp add: activate_def)
    then show ?thesis using perform_inv [OF i, of t] wait True by auto
  next
    case False
    then have r: "state_of w t = TASK_RESET" using True by simp
    then have "activate t w = Inr (set_state t TASK_PENDING w)" using True by (simp add: activate_def)
    moreover have "state_of (set_state t TASK_PENDING w) = (state_of w)(t := TASK_PENDING)"
      by (auto simp: upd_task_def)
    ultimately show ?thesis using inv_other_state [OF i, of t TASK_PENDING] r True by auto
  qed
qed

end


text \<open>Notifications keep the invariant and succeed when the inputs belong to tasks.\<close>

context open_policy
begin

text \<open>What is left to know in most places: an activation succeeds and takes nobody out.\<close>

lemma activate_grows:
  assumes "inv w ts ex"
  shows "\<exists>w' ts'. activate t w = Inr w' \<and> inv w' ts' ex \<and> set ts \<subseteq> set ts'"
proof -
  obtain w' ts' where w': "activate t w = Inr w'" "inv w' ts' ex"
    "ts' = (if w_running w \<and> task_isActivated t w \<and> state_of w t = TASK_WAIT
            then place (w_policy w) t ts else ts)"
    using activate_inv [OF assms, of t] by blast
  moreover have "set ts \<subseteq> set ts'" using w'(3) by (auto simp: set_place)
  ultimately show ?thesis by blast
qed

lemma upd_input_inv [simp]: "inv (upd_input i f w) ts ex = inv w ts ex"
  by (simp add: run_inv_def upd_input_def)

lemma notifyInput_inv:
  assumes "inv w ts ex" and "in_task (w_inputs w i) \<noteq> None"
  shows "\<exists>w' ts'. notifyInput i w = Inr w' \<and> inv w' ts' ex \<and> set ts \<subseteq> set ts'"
proof -
  obtain t where t: "in_task (w_inputs w i) = Some t" using assms(2) by auto
  let ?w = "upd_input i (\<lambda>_. noted w i) w"
  have i: "inv ?w ts ex" using assms(1) by simp
  obtain w' ts' where "activate t ?w = Inr w'" "inv w' ts' ex" "set ts \<subseteq> set ts'"
    using activate_grows [OF i] by blast
  then show ?thesis using i by (auto simp: notifyInput_unfold t)
qed

lemma notify_list_inv:
  "inv w ts ex \<Longrightarrow> \<forall>i\<in>set is. in_task (w_inputs w i) \<noteq> None \<Longrightarrow>
    \<exists>w' ts'. notify_list is w = Inr w' \<and> inv w' ts' ex \<and> set ts \<subseteq> set ts'"
proof (induction "is" arbitrary: w ts)
  case (Cons i "is")
  then obtain w1 ts1 where w1: "notifyInput i w = Inr w1" "inv w1 ts1 ex" "set ts \<subseteq> set ts1"
    using notifyInput_inv [of w ts ex i] by auto
  have "\<forall>j\<in>set is. in_task (w_inputs w1 j) \<noteq> None"
    using Cons.prems(2) unfolding notifyInput_inputs [OF w1(1)] by (auto simp: notified_keeps)
  from Cons.IH [OF w1(2) this] w1 show ?case by fastforce
qed auto

lemma channel_push_inv:
  assumes "inv w ts ex" and "wired w c is" and "\<forall>i\<in>set is. in_task (w_inputs w i) \<noteq> None"
  shows "\<exists>w' ts'. channel_push c w = Inr w' \<and> inv w' ts' ex \<and> set ts \<subseteq> set ts' \<and>
    w_inputs w' = (\<lambda>i. if i \<in> set is then noted w i else w_inputs w i)"
proof -
  have "distinct is" using assms(2) chain_distinct by (auto simp: wired_def)
  then show ?thesis
    using notify_list_inv [OF assms(1,3)] notify_list_inputs channel_push_list [OF assms(2)] by fastforce
qed

end

section \<open>Operations on the clock\<close>

text \<open>What the events do to the clock does not concern the run queue.\<close>

definition same_run :: "'p world \<Rightarrow> 'p world \<Rightarrow> bool" where
  "same_run w w' \<longleftrightarrow> w_tasks w' = w_tasks w \<and> w_policy w' = w_policy w \<and> w_ops w' = w_ops w \<and>
     w_inputs w' = w_inputs w \<and> w_channels w' = w_channels w \<and> w_groups w' = w_groups w \<and>
     w_running w' = w_running w \<and> associatedTasks w' = associatedTasks w"

lemma same_run_refl [simp]: "same_run w w"
  by (simp add: same_run_def)

lemma same_run_trans: "same_run w1 w2 \<Longrightarrow> same_run w2 w3 \<Longrightarrow> same_run w1 w3"
  by (simp add: same_run_def)

lemma same_run_calls: "same_run w (fold do_call calls w)"
proof (induction calls arbitrary: w)
  case (Cons k calls)
  have "same_run w (do_call k w)" by (simp add: do_call_def same_run_def signal_def split: clock_call.split)
  then show ?case using Cons.IH [of "do_call k w"] same_run_trans by auto
qed simp

lemma same_run_upd [simp]:
  "same_run w (w\<lparr>w_clock := c\<rparr>)" "same_run w (upd_event e f w)" "same_run w (upd_barrier b g w)"
  "same_run w (w\<lparr>w_now := t\<rparr>)" "same_run w (upd_schedule s h w)"
  by (simp_all add: same_run_def upd_event_def upd_barrier_def upd_schedule_def)

lemma same_run_on_clock: "on_clock f w = Inr w' \<Longrightarrow> same_run w w'"
  using same_run_trans [OF same_run_upd(1) same_run_calls] by (auto simp: on_clock_def bindR_eq_Inr)

lemma same_run_dequeue: "dequeue_if_queued e w = Inr w' \<Longrightarrow> same_run w w'"
  by (auto simp: dequeue_if_queued_def clock_dequeue_def bindR_eq_Inr split: if_splits)

lemma same_run_event_reset: "event_reset e w = Inr w' \<Longrightarrow> same_run w w'"
  using same_run_dequeue same_run_on_clock same_run_trans
  by (fastforce simp: event_reset_def clock_startIn_def bindR_eq_Inr split: if_splits)

lemma same_run_channel_reset: "channel_reset c w = Inr w' \<Longrightarrow> same_run w w'"
  by (auto simp: channel_reset_def barrier_reset_def split: channel_class.splits dest: same_run_event_reset)

section \<open>Interleaved executors\<close>

text \<open>
  The steps in which the executors, the clock and the application work on one scheduler: each
  is one critical section of the code. \<open>ex\<close> are the tasks that are being executed. The reset
  of a task is three kinds of steps, so that notifications come in between.
\<close>

inductive sys_step :: "'p world \<times> task_id set \<Rightarrow> 'p world \<times> task_id set \<Rightarrow> bool" where
  step_notify: "notifyInput i w = Inr w' \<Longrightarrow> sys_step (w, ex) (w', ex)"
| step_take: "pol_nextTask (w_ops w) (w_policy w) = Inr (p, Some t) \<Longrightarrow>
    sys_step (w, ex) (w\<lparr>w_policy := p\<rparr>, insert t ex)"
| step_idle: "pol_nextTask (w_ops w) (w_policy w) = Inr (p, None) \<Longrightarrow> sys_step (w, ex) (w\<lparr>w_policy := p\<rparr>, ex)"
| step_reset: "t \<in> ex \<Longrightarrow> task_group (w_tasks w t) = None \<Longrightarrow>
    sys_step (w, ex) (set_state t TASK_RESET w, ex - {t})"
| step_finish: "t \<in> ex \<Longrightarrow> task_group (w_tasks w t) = Some g \<Longrightarrow>
    sys_step (w, ex) (set_state t TASK_FINISH w, ex - {t})"
| step_group_reset: "state_of w t = TASK_FINISH \<Longrightarrow> sys_step (w, ex) (set_state t TASK_RESET w, ex)"
| step_input_reset: "input_reset i w = Inr w' \<Longrightarrow> sys_step (w, ex) (w', ex)"
| step_reset_end: "state_of w t = TASK_RESET \<or> state_of w t = TASK_PENDING \<Longrightarrow> reset_end t w = Inr w' \<Longrightarrow>
    sys_step (w, ex) (w', ex)"
| step_clock: "same_run w w' \<Longrightarrow> sys_step (w, ex) (w', ex)"

context open_policy
begin

lemma same_run_inv: "same_run w w' \<Longrightarrow> inv w' ts ex = inv w ts ex"
  by (simp add: run_inv_def same_run_def)

lemma notifyInput_keeps_inv:
  assumes "inv w ts ex" and "notifyInput i w = Inr w'"
  shows "\<exists>ts'. inv w' ts' ex"
proof (cases "in_task (w_inputs w i)")
  case None
  then have "w' = upd_input i (\<lambda>_. noted w i) w"
    using assms(2) by (auto simp: notifyInput_unfold split: if_splits)
  then show ?thesis using assms(1) by auto
next
  case (Some t)
  then show ?thesis using notifyInput_inv [OF assms(1), of i] assms(2) by auto
qed

lemma input_reset_keeps_inv:
  assumes "inv w ts ex" and "input_reset i w = Inr w'"
  shows "\<exists>ts'. inv w' ts' ex"
proof -
  obtain w1 where w1: "(case in_channel (w_inputs w i) of None \<Rightarrow> Inr w | Some c \<Rightarrow> channel_reset c w) = Inr w1"
    using assms(2) by (auto simp: input_reset_def bindR_eq_Inr)
  then have "same_run w w1" using same_run_channel_reset by (auto split: option.splits)
  then have i1: "inv w1 ts ex" using assms(1) same_run_inv by blast
  define x where "x = fst (input_consumed (w_inputs w1 i))"
  have i2: "inv (upd_input i (\<lambda>_. x) w1) ts ex" using i1 by simp
  have "input_reset i w =
        (if snd (input_consumed (w_inputs w1 i))
         then deref (in_task x) (\<lambda>t. activate t (upd_input i (\<lambda>_. x) w1))
         else Inr (upd_input i (\<lambda>_. x) w1))"
    by (simp add: input_reset_def w1 x_def case_prod_unfold Let_def)
  then consider "w' = upd_input i (\<lambda>_. x) w1" | t where "activate t (upd_input i (\<lambda>_. x) w1) = Inr w'"
    using assms(2) by (auto simp: deref_def split: if_splits option.splits)
  then show ?thesis
  proof cases
    case 1
    then show ?thesis using i2 by blast
  next
    case (2 t)
    then show ?thesis using activate_grows [OF i2, of t] by auto
  qed
qed

lemma reset_end_keeps_inv:
  assumes "inv w ts ex" and "reset_end t w = Inr w'" and "state_of w t = TASK_RESET \<or> state_of w t = TASK_PENDING"
  shows "\<exists>ts'. inv w' ts' ex"
proof (cases "state_of w t = TASK_PENDING \<and> task_isActivated t w")
  case True
  then show ?thesis using perform_inv [OF assms(1), of t] assms(2) by (auto simp: reset_end_def)
next
  case False
  then have "w' = set_state t TASK_WAIT w" using assms(2) by (auto simp: reset_end_def)
  then show ?thesis using inv_other_state [OF assms(1), of t TASK_WAIT] assms(3) by auto
qed

lemma taken_out:
  assumes "inv w ts ex" and "t \<in> ex" and "s \<noteq> TASK_RUN"
  shows "inv (set_state t s w) ts (ex - {t})"
  using assms by (auto simp: run_inv_def upd_task_def)

lemma take_inv:
  assumes "inv w ts ex" and "pol_nextTask (w_ops w) (w_policy w) = Inr (p, r)"
  shows "r = firstp ts \<and> inv (w\<lparr>w_policy := p\<rparr>) (tl ts) (case r of None \<Rightarrow> ex | Some t \<Rightarrow> insert t ex)"
proof -
  have rep: "rep (w_policy w) ts" and ops: "pol_nextTask (w_ops w) = nextTask"
    using assms(1) by (simp_all add: run_inv_def)
  obtain p' where "nextTask (w_policy w) = Inr (p', firstp ts)" "rep p' (tl ts)"
    using nextTask_step [OF rep] by blast
  then have r: "r = firstp ts" "rep p (tl ts)" using assms(2) ops by auto
  have d: "distinct ts" using rep by (rule rep_distinct)
  show ?thesis
  proof (cases ts)
    case Nil
    then show ?thesis using r assms(1) by (simp add: run_inv_def)
  next
    case (Cons t us)
    then have "t \<notin> ex" using assms(1) by (auto simp: run_inv_def)
    then show ?thesis using r assms(1) d Cons unfolding run_inv_def by simp
  qed
qed

lemma step_inv: "sys_step (w, ex) (w', ex') \<Longrightarrow> inv w ts ex \<Longrightarrow> \<exists>ts'. inv w' ts' ex'"
proof (induction "(w, ex)" "(w', ex')" rule: sys_step.induct)
  case step_notify
  then show ?case using notifyInput_keeps_inv by blast
next
  case (step_take p t)
  then show ?case using take_inv [OF step_take.prems] step_take.hyps by fastforce
next
  case (step_idle p)
  then show ?case using take_inv [OF step_idle.prems] step_idle.hyps by fastforce
next
  case (step_reset t)
  then show ?case using taken_out [of w ts ex t TASK_RESET] by auto
next
  case (step_finish t g)
  then show ?case using taken_out [of w ts ex t TASK_FINISH] by auto
next
  case (step_group_reset t)
  then show ?case using inv_other_state [of w ts ex t TASK_RESET] by auto
next
  case step_input_reset
  then show ?case using input_reset_keeps_inv by blast
next
  case step_reset_end
  then show ?case using reset_end_keeps_inv by blast
next
  case step_clock
  then show ?case using same_run_inv by blast
qed

lemma steps_inv: "sys_step\<^sup>*\<^sup>* (w, ex) (w', ex') \<Longrightarrow> inv w ts ex \<Longrightarrow> \<exists>ts'. inv w' ts' ex'"
proof (induction arbitrary: rule: rtranclp_induct2)
  case refl
  then show ?case by blast
next
  case (step w1 ex1 w2 ex2)
  then show ?case using step_inv by blast
qed

end

section \<open>Properties\<close>

text \<open>A world in which no task is queued or executed: every task is as it was constructed.\<close>

definition fresh :: "'p policy_ops \<Rightarrow> 'p \<Rightarrow> 'p world \<Rightarrow> bool" where
  "fresh ops p w \<longleftrightarrow> w_ops w = ops \<and> w_policy w = p \<and> (\<forall>t. state_of w t = TASK_FINISH)"

lemma fresh_inv:
  assumes "fresh \<lparr>pol_queue = q, pol_nextTask = nt\<rparr> p w" and "rep p []"
  shows "run_inv q nt rep w [] {}"
  using assms by (simp add: fresh_def run_inv_def)

text \<open>
  For the witnesses: a running scheduler with task 5, which waits for one message on its input
  2, and the steps that reset the task and notify the input.
\<close>

definition demo_world :: "'p policy_ops \<Rightarrow> 'p \<Rightarrow> 'p world" where
  "demo_world ops p = (task_construct 5 (upd_input 2 (input_configure 1 False)
     (task_create 5 9 [2] (world_init ops p))))\<lparr>w_running := True\<rparr>"

lemmas demo_eval = demo_world_def task_construct_def task_create_def world_init_def upd_input_def
  upd_task_def add_task_def input_configure_def input_connectTask_def Let_def input_init_def

lemma demo_fresh: "fresh ops p (demo_world ops p)"
  by (simp add: fresh_def demo_eval)

lemma demo_steps:
  assumes "pol_queue ops 5 p = Inr (p', True)"
  shows "\<exists>w'. sys_step\<^sup>*\<^sup>* (demo_world ops p, {}) (w', {}) \<and> w_running w' \<and> state_of w' 5 = TASK_RUN \<and>
    w_policy w' = p'"
proof -
  let ?w = "demo_world ops p"
  let ?w1 = "set_state 5 TASK_RESET ?w"
  let ?w2 = "set_state 5 TASK_WAIT ?w1"
  let ?w3 = "upd_input 2 (\<lambda>_. noted ?w2 2) ?w2"
  let ?w4 = "signal ((set_state 5 TASK_RUN ?w3)\<lparr>w_policy := p'\<rparr>)"
  have s1: "sys_step (?w, {}) (?w1, {})" by (rule step_group_reset) (simp add: demo_eval)
  have "reset_end 5 ?w1 = Inr ?w2" by (simp add: reset_end_def upd_task_def)
  then have s2: "sys_step (?w1, {}) (?w2, {})" by (intro step_reset_end) (simp_all add: upd_task_def)
  have "snd (input_notified (w_inputs ?w2 2))" "in_task (w_inputs ?w2 2) = Some 5"
    by (simp_all add: demo_eval input_notified_def input_isActivated_def)
  then have "notifyInput 2 ?w2 = activate 5 ?w3" by (simp add: notifyInput_unfold)
  moreover have "task_isActivated 5 ?w3"
    by (simp add: demo_eval task_isActivated_def array_isActivated_def input_isActivated_def
        input_notified_def input_isFinal_def input_isOptional_def)
  moreover have "state_of ?w3 5 = TASK_WAIT" by (simp add: upd_task_def upd_input_def)
  moreover have "perform 5 (set_state 5 TASK_RUN ?w3) = Inr ?w4"
    using assms by (simp add: perform_def demo_eval)
  ultimately have "notifyInput 2 ?w2 = Inr ?w4" by (simp add: activate_def)
  then have s3: "sys_step (?w2, {}) (?w4, {})" by (rule step_notify)
  have "sys_step\<^sup>*\<^sup>* (?w, {}) (?w4, {})" using s1 s2 s3 by (meson r_into_rtranclp rtranclp.rtrancl_into_rtrancl)
  moreover have "w_running ?w4" "state_of ?w4 5 = TASK_RUN" "w_policy ?w4 = p'"
    by (simp_all add: signal_def demo_eval)
  ultimately show ?thesis by blast
qed

text \<open>In every interleaving of notifications, resets and executors on a scheduler with the FIFO policy
  no task is in the run queue twice, queued tasks are not being executed, and while the
  scheduler runs every task in the state \<open>TASK_RUN\<close> is in the queue or being executed: no
  activation is lost.\<close>
theorem run_queue_fifo:
  assumes "fresh fifo_ops fifo_init w" and "sys_step\<^sup>*\<^sup>* (w, {}) (w', ex)"
  shows "\<exists>ts. fifo_rep (w_policy w') ts \<and> distinct ts \<and>
    (\<forall>t\<in>set ts. state_of w' t = TASK_RUN \<and> t \<notin> ex) \<and>
    (w_running w' \<longrightarrow> (\<forall>t. state_of w' t = TASK_RUN \<longrightarrow> t \<in> set ts \<or> t \<in> ex))"
proof -
  have "run_inv fifo_queue fifo_nextTask fifo_rep w [] {}"
    by (rule fresh_inv) (use assms(1) fifo_rep_init in \<open>simp_all add: fifo_ops_def\<close>)
  then obtain ts where i: "run_inv fifo_queue fifo_nextTask fifo_rep w' ts ex"
    using fifo_open.steps_inv [OF assms(2)] by blast
  then show ?thesis using fifo_open.inv_distinct [OF i] by (intro exI [of _ ts]) (auto simp: run_inv_def)
qed

theorem run_queue_fifo_witness:
  "\<exists>w' ts. sys_step\<^sup>*\<^sup>* (demo_world fifo_ops fifo_init, {}) (w', {}) \<and> fifo_rep (w_policy w') ts \<and> 5 \<in> set ts"
proof -
  obtain p' where "pol_queue fifo_ops 5 fifo_init = Inr (p', True)"
    by (simp add: fifo_ops_def fifo_queue_def fifo_init_def)
  from demo_steps [OF this] obtain w' where "sys_step\<^sup>*\<^sup>* (demo_world fifo_ops fifo_init, {}) (w', {})"
    "w_running w'" "state_of w' 5 = TASK_RUN" by blast
  from run_queue_fifo [OF demo_fresh this(1)] this show ?thesis by auto
qed

text \<open>C1: In every interleaving of notifications, of the parts of resets, and of executors that take tasks from the run queue, execute and
  finish or reset them, from a scheduler on with the policy that keeps one list sorted by priority, an empty run queue and tasks as
  they were constructed: no task is in the run queue twice, a queued task is in the state \<^verbatim>\<open>TASK_RUN\<close> and is not
  being executed, and while the scheduler runs every task in the state \<^verbatim>\<open>TASK_RUN\<close> is in the run queue or being
  executed: a task that was activated is not lost.\<close>
theorem run_queue_priority:
  assumes "fresh prio_ops (prio_init prio) w" and "sys_step\<^sup>*\<^sup>* (w, {}) (w', ex)"
  shows "\<exists>ts. prio_rep (w_policy w') ts \<and> distinct ts \<and>
    (\<forall>t\<in>set ts. state_of w' t = TASK_RUN \<and> t \<notin> ex) \<and>
    (w_running w' \<longrightarrow> (\<forall>t. state_of w' t = TASK_RUN \<longrightarrow> t \<in> set ts \<or> t \<in> ex))"
proof -
  have "run_inv prio_queue prio_nextTask prio_rep w [] {}"
    by (rule fresh_inv) (use assms(1) prio_rep_init in \<open>simp_all add: prio_ops_def\<close>)
  then obtain ts where i: "run_inv prio_queue prio_nextTask prio_rep w' ts ex"
    using prio.steps_inv [OF assms(2)] by blast
  then show ?thesis using prio.inv_distinct [OF i] by (intro exI [of _ ts]) (auto simp: run_inv_def)
qed

theorem run_queue_priority_witness:
  "\<exists>w' ts. sys_step\<^sup>*\<^sup>* (demo_world prio_ops (prio_init (\<lambda>_. 1)), {}) (w', {}) \<and>
    prio_rep (w_policy w') ts \<and> 5 \<in> set ts"
proof -
  obtain p' where "pol_queue prio_ops 5 (prio_init (\<lambda>_. 1)) = Inr (p', True)"
    by (simp add: prio_ops_def prio_queue_def prio_init_def)
  from demo_steps [OF this] obtain w' where
    "sys_step\<^sup>*\<^sup>* (demo_world prio_ops (prio_init (\<lambda>_. 1)), {}) (w', {})"
    "w_running w'" "state_of w' 5 = TASK_RUN" by blast
  from run_queue_priority [OF demo_fresh this(1)] this show ?thesis by auto
qed

text \<open>And for the policy with a FIFO queue for each priority.\<close>
theorem run_queue_pslot:
  assumes "fresh pslot_ops (pslot_init n prio) w" and "n \<noteq> 0" and "sys_step\<^sup>*\<^sup>* (w, {}) (w', ex)"
  shows "\<exists>ts. pslot_rep (w_policy w') ts \<and> distinct ts \<and>
    (\<forall>t\<in>set ts. state_of w' t = TASK_RUN \<and> t \<notin> ex) \<and>
    (w_running w' \<longrightarrow> (\<forall>t. state_of w' t = TASK_RUN \<longrightarrow> t \<in> set ts \<or> t \<in> ex))"
proof -
  have "run_inv pslot_queue pslot_nextTask pslot_rep w [] {}"
    by (rule fresh_inv) (use assms(1,2) pslot_rep_init in \<open>simp_all add: pslot_ops_def\<close>)
  then obtain ts where i: "run_inv pslot_queue pslot_nextTask pslot_rep w' ts ex"
    using pslot.steps_inv [OF assms(3)] by blast
  then show ?thesis using pslot.inv_distinct [OF i] by (intro exI [of _ ts]) (auto simp: run_inv_def)
qed

theorem run_queue_pslot_witness:
  "\<exists>w' ts. sys_step\<^sup>*\<^sup>* (demo_world pslot_ops (pslot_init 2 (\<lambda>_. 1)), {}) (w', {}) \<and>
    pslot_rep (w_policy w') ts \<and> 5 \<in> set ts"
proof -
  obtain p' where "pol_queue pslot_ops 5 (pslot_init 2 (\<lambda>_. 1)) = Inr (p', True)"
    by (simp add: pslot_ops_def pslot_queue_def pslot_init_def slot_at_def pslot_of_def set_slot_def
        empty_slot_def Let_def)
  from demo_steps [OF this] obtain w' where
    "sys_step\<^sup>*\<^sup>* (demo_world pslot_ops (pslot_init 2 (\<lambda>_. 1)), {}) (w', {})"
    "w_running w'" "state_of w' 5 = TASK_RUN" by blast
  from run_queue_pslot [OF demo_fresh _ this(1)] this show ?thesis by auto
qed

text \<open>A running scheduler with task 5, which waits for a message on its input 2, connected to channel 7.\<close>

definition wired_world :: "fifo_policy world" where
  "wired_world = set_state 5 TASK_WAIT (upd_channel 7 (\<lambda>ch. ch\<lparr>m_inputs := Some 2\<rparr>)
     (upd_input 2 (\<lambda>x. x\<lparr>in_channel := Some 7\<rparr>) (demo_world fifo_ops fifo_init)))"

lemmas wired_eval = wired_world_def demo_eval upd_channel_def

lemma wired_world_facts:
  "run_inv fifo_queue fifo_nextTask fifo_rep wired_world [] {}" "wired wired_world 7 [2]"
  "in_task (w_inputs wired_world 2) = Some 5" "state_of wired_world 5 = TASK_WAIT" "w_clock wired_world = clock_init" "w_now wired_world = 0"
  "ch_class (w_channels wired_world 7) = PlainChannel"
  by (simp_all add: wired_eval run_inv_def wired_def fifo_rep_init fifo_ops_def)

text \<open>C17: A push on a channel succeeds, notifies every input connected to it exactly once and no other input, and keeps every
  task that waits in the run queue there. This holds for every policy that meets the contract of a run queue and accepts every task
  that does not wait, as the FIFO, priority and priority slot policies do, in a state in which the run queue is as C1 says, when
  the inputs of the channel belong to tasks.\<close>
theorem push_notifies:
  assumes "open_policy q nt rep place adm" and "run_inv q nt rep w ts ex" and "wired w c is"
    and "\<forall>i\<in>set is. in_task (w_inputs w i) \<noteq> None"
  shows "\<exists>w' ts'. channel_push c w = Inr w' \<and> run_inv q nt rep w' ts' ex \<and>
    set ts \<subseteq> set ts' \<and> w_inputs w' = (\<lambda>i. if i \<in> set is then fst (input_notified (w_inputs w i)) else w_inputs w i)"
  using open_policy.channel_push_inv [OF assms] .

theorem push_notifies_witness:
  "\<exists>w'. channel_push 7 wired_world = Inr w' \<and> in_notifications (w_inputs wired_world 2) = 0 \<and>
    in_notifications (w_inputs w' 2) = 1 \<and> in_notifications (w_inputs w' 3) = in_notifications (w_inputs wired_world 3)"
proof -
  obtain w' where "channel_push 7 wired_world = Inr w'"
    "w_inputs w' = (\<lambda>i. if i \<in> set [2] then fst (input_notified (w_inputs wired_world i)) else w_inputs wired_world i)"
    using push_notifies [OF fifo_open.open_policy_axioms wired_world_facts(1,2)] wired_world_facts(3) by auto
  then show ?thesis by (auto simp: wired_eval input_notified_def input_isActivated_def)
qed

end
