(* ===== verification/Activation.thy ===== *)
theory Activation
  imports RunQueue
begin

text \<open>
  What the operations of tasks, groups and barriers do: the reset of a task and the activations
  it carries over, the common reset of a group, the counting of a barrier, and the start of a
  scheduler without a reset.
\<close>

section \<open>Reset of a task\<close>

abbreviation consumed :: "input_impl \<Rightarrow> input_impl" where
  "consumed x \<equiv> fst (input_consumed x)"

abbreviation refilled :: "input_impl \<Rightarrow> bool" where
  "refilled x \<equiv> snd (input_consumed x)"

text \<open>
  An input that was not refilled is activated afterwards only if it always is: it is not final
  and its threshold is 0.
\<close>

lemma not_refilled_activated:
  assumes "\<not> refilled x" and "input_isActivated (consumed x)"
  shows "\<not> in_final x \<and> input_isActivated x"
proof (cases "in_synchron x")
  case True
  then have lt: "\<not> in_threshold x \<le> in_missed x" using assms(1) by (auto simp: input_consumed_def split: if_splits)
  then have "consumed x = x\<lparr>in_notifications := in_missed x, in_missed := 0\<rparr>"
    using True by (simp add: input_consumed_def)
  moreover have "in_threshold x \<noteq> 0" using lt by auto
  ultimately show ?thesis using lt assms(2) by (simp add: input_isActivated_def)
next
  case False
  then show ?thesis
    using assms(2) by (auto simp: input_consumed_def input_isActivated_def split: if_splits)
qed

lemma consumed_final [simp]: "in_final (consumed x) = in_final x"
  by (simp add: input_consumed_def)

text \<open>
  If the inputs are activated when all are consumed, they were activated already when the last
  one that was refilled had been consumed.
\<close>

lemma activated_at_last_refill:
  assumes "array_isActivated None (map consumed (as @ x # bs))" and "\<forall>y\<in>set bs. \<not> refilled y"
  shows "array_isActivated None (map consumed as @ consumed x # bs)"
proof -
  have bs: "input_isActivated (consumed y) \<Longrightarrow> \<not> in_final y \<and> input_isActivated y" if "y \<in> set bs" for y
    using assms(2) that not_refilled_activated by blast
  have "(\<exists>y\<in>set as \<union> {x} \<union> set bs. in_final y \<and> input_isActivated (consumed y)) \<or>
      (\<forall>y\<in>set as \<union> {x} \<union> set bs. \<not> in_final y \<longrightarrow> input_isActivated (consumed y))"
    using assms(1) unfolding array_default by auto
  then have "(\<exists>y\<in>set as \<union> {x}. in_final y \<and> input_isActivated (consumed y)) \<or>
      (\<forall>y\<in>set as \<union> {x}. \<not> in_final y \<longrightarrow> input_isActivated (consumed y)) \<and>
      (\<forall>y\<in>set bs. \<not> in_final y \<longrightarrow> input_isActivated y)"
    using bs by blast
  then show ?thesis unfolding array_default by auto
qed

lemma last_refill:
  assumes "\<exists>x\<in>set xs. P x"
  shows "\<exists>as x bs. xs = as @ x # bs \<and> P x \<and> (\<forall>y\<in>set bs. \<not> P y)"
  using split_list_last_prop [OF assms] by metis

text \<open>The loop over the inputs of a task whose channels do nothing on a reset.\<close>

definition plain_inputs :: "'p world \<Rightarrow> task_id \<Rightarrow> input_id list \<Rightarrow> bool" where
  "plain_inputs w t is \<longleftrightarrow>
     (\<forall>i\<in>set is. in_task (w_inputs w i) = Some t \<and>
       (\<forall>c. in_channel (w_inputs w i) = Some c \<longrightarrow> ch_class (w_channels w c) = PlainChannel))"

lemma set_state_idem: "state_of w t = s \<Longrightarrow> set_state t s w = w"
proof -
  assume "state_of w t = s"
  then have "(w_tasks w t)\<lparr>m_state := s\<rparr> = w_tasks w t" by (cases "w_tasks w t") simp
  then have "(w_tasks w)(t := (w_tasks w t)\<lparr>m_state := s\<rparr>) = w_tasks w" by (simp add: fun_upd_idem)
  then show ?thesis by (simp add: upd_task_def)
qed

lemma set_state_twice [simp]: "set_state t s (set_state t s' w) = set_state t s w"
  by (simp add: upd_task_def)

lemma input_reset_plain:
  assumes "plain_inputs w t [i]" and "state_of w t = TASK_RESET \<or> state_of w t = TASK_PENDING"
  shows "input_reset i w =
    Inr (let w1 = upd_input i consumed w
         in if refilled (w_inputs w i) \<and> task_isActivated t w1 then set_state t TASK_PENDING w1 else w1)"
proof -
  have c: "(case in_channel (w_inputs w i) of None \<Rightarrow> Inr w | Some c \<Rightarrow> channel_reset c w) = Inr w"
    using assms(1) by (auto simp: plain_inputs_def channel_reset_def split: option.split)
  have u: "upd_input i (\<lambda>_. consumed (w_inputs w i)) w = upd_input i consumed w" by (simp add: upd_input_def)
  have t: "in_task (consumed (w_inputs w i)) = Some t"
    using assms(1) by (simp add: plain_inputs_def consumed_keeps)
  have s: "state_of (upd_input i consumed w) t = state_of w t" by (simp add: upd_input_def)
  have p: "set_state t TASK_PENDING (upd_input i consumed w) = upd_input i consumed w"
    if "state_of w t = TASK_PENDING"
    using set_state_idem [of "upd_input i consumed w" t TASK_PENDING] that s by simp
  let ?w1 = "upd_input i consumed w"
  have a: "activate t ?w1 = Inr (if task_isActivated t ?w1 then set_state t TASK_PENDING ?w1 else ?w1)"
    using assms(2) s p unfolding activate_def by auto
  have "input_reset i w = (if refilled (w_inputs w i) then activate t ?w1 else Inr ?w1)"
    by (simp add: input_reset_def c case_prod_unfold u t Let_def)
  then show ?thesis unfolding a Let_def by simp
qed


text \<open>
  The world after the inputs \<open>is\<close> have been consumed, and whether the task became pending: some
  input was refilled when the task was activated by what had been consumed by then.
\<close>

definition consume_in :: "input_id list \<Rightarrow> 'p world \<Rightarrow> 'p world" where
  "consume_in is w = w\<lparr>w_inputs := (\<lambda>i. if i \<in> set is then consumed (w_inputs w i) else w_inputs w i)\<rparr>"

fun becomes_pending :: "'p world \<Rightarrow> task_id \<Rightarrow> input_id list \<Rightarrow> bool" where
  "becomes_pending w t [] \<longleftrightarrow> False"
| "becomes_pending w t (i # is) \<longleftrightarrow>
     refilled (w_inputs w i) \<and> task_isActivated t (upd_input i consumed w) \<or>
     becomes_pending (upd_input i consumed w) t is"

lemma consume_in_simps:
  "consume_in [] w = w" "i \<notin> set is \<Longrightarrow> consume_in is (upd_input i consumed w) = consume_in (i # is) w"
  "task_isActivated t (set_state u s w) = task_isActivated t w"
  "consume_in is (set_state u s w) = set_state u s (consume_in is w)"
  "w_inputs (set_state u s w) = w_inputs w" "w_channels (set_state u s w) = w_channels w"
  by (auto simp: consume_in_def upd_input_def upd_task_def task_isActivated_def fun_eq_iff)

lemma consume_one: "consume_in [i] w = upd_input i consumed w"
  by (auto simp: consume_in_def upd_input_def fun_eq_iff)

lemma becomes_pending_at:
  "distinct (as @ i # bs) \<Longrightarrow> refilled (w_inputs w i) \<Longrightarrow> task_isActivated t (consume_in (as @ [i]) w) \<Longrightarrow>
    becomes_pending w t (as @ i # bs)"
proof (induction as arbitrary: w)
  case Nil
  then show ?case by (simp add: consume_one)
next
  case (Cons j as)
  have "consume_in (as @ [i]) (upd_input j consumed w) = consume_in (j # as @ [i]) w"
    using Cons.prems(1) by (intro consume_in_simps(2)) auto
  moreover have "w_inputs (upd_input j consumed w) i = w_inputs w i"
    using Cons.prems(1) by (auto simp: upd_input_def)
  ultimately show ?case using Cons.IH [of "upd_input j consumed w"] Cons.prems by simp
qed

lemma never_refilled: "\<forall>i\<in>set is. \<not> refilled (w_inputs w i) \<Longrightarrow> distinct is \<Longrightarrow> \<not> becomes_pending w t is"
proof (induction "is" arbitrary: w)
  case (Cons i "is")
  have "\<forall>j\<in>set is. \<not> refilled (w_inputs (upd_input i consumed w) j)"
    using Cons.prems by (auto simp: upd_input_def)
  then show ?case using Cons by simp
qed simp

lemma becomes_pending_state: "becomes_pending (set_state u s w) t is = becomes_pending w t is"
proof (induction "is" arbitrary: w)
  case (Cons i "is")
  have "upd_input i consumed (set_state u s w) = set_state u s (upd_input i consumed w)"
    by (simp add: upd_input_def upd_task_def)
  then show ?case using Cons by (simp add: consume_in_simps)
qed simp

lemma reset_inputs_plain:
  "plain_inputs w t is \<Longrightarrow> distinct is \<Longrightarrow> state_of w t = TASK_RESET \<or> state_of w t = TASK_PENDING \<Longrightarrow>
    reset_inputs is w =
      Inr (if state_of w t = TASK_RESET \<and> \<not> becomes_pending w t is then consume_in is w
           else set_state t TASK_PENDING (consume_in is w))"
proof (induction "is" arbitrary: w)
  case Nil
  then show ?case using set_state_idem [of w t TASK_PENDING] by (auto simp: consume_in_simps)
next
  case (Cons i "is")
  let ?w1 = "upd_input i consumed w"
  let ?p = "refilled (w_inputs w i) \<and> task_isActivated t ?w1"
  define w2 where "w2 = (if ?p then set_state t TASK_PENDING ?w1 else ?w1)"
  have "plain_inputs w t [i]" using Cons.prems(1) by (simp add: plain_inputs_def)
  then have step: "input_reset i w = Inr w2"
    using input_reset_plain [OF _ Cons.prems(3), of i] by (simp add: w2_def Let_def)
  have i: "i \<notin> set is" using Cons.prems(2) by simp
  have pl: "plain_inputs w2 t is"
    using Cons.prems(1) i by (auto simp: plain_inputs_def w2_def upd_input_def upd_task_def)
  have st: "state_of w2 t = (if ?p then TASK_PENDING else state_of w t)"
    by (simp add: w2_def upd_task_def upd_input_def)
  have b: "becomes_pending w2 t is \<longleftrightarrow> becomes_pending ?w1 t is"
    by (simp add: w2_def becomes_pending_state)
  have "reset_inputs is w2 =
      Inr (if state_of w2 t = TASK_RESET \<and> \<not> becomes_pending w2 t is then consume_in is w2
           else set_state t TASK_PENDING (consume_in is w2))"
    by (rule Cons.IH [OF pl]) (use Cons.prems st in auto)
  moreover have "consume_in is w2 = (if ?p then set_state t TASK_PENDING (consume_in (i # is) w)
      else consume_in (i # is) w)"
    by (simp add: w2_def consume_in_simps(4) consume_in_simps(2) [OF i])
  ultimately show ?case
    using step b st Cons.prems(3) by (cases ?p) (simp_all add: set_state_twice)
qed


lemma task_reset_plain:
  assumes "task_inputs (w_tasks w t) = is" and "distinct is" and "plain_inputs w t is"
    and "task_condition (w_tasks w t) = None"
  shows "task_reset t w =
    (if (\<exists>i\<in>set is. refilled (w_inputs w i)) \<and>
        array_isActivated None (map (\<lambda>i. consumed (w_inputs w i)) is)
     then perform t (set_state t TASK_RUN (consume_in is w))
     else Inr (set_state t TASK_WAIT (consume_in is w)))"
proof -
  let ?w = "set_state t TASK_RESET w"
  have fields: "task_condition (w_tasks (consume_in js ?w) t) = None" "task_inputs (w_tasks (consume_in js ?w) t) = is"
    "w_inputs (consume_in js ?w) = (\<lambda>i. if i \<in> set js then consumed (w_inputs w i) else w_inputs w i)" for js
    using assms(1,4) by (simp_all add: consume_in_def upd_task_def fun_eq_iff)
  have act: "task_isActivated t (consume_in js ?w) =
      array_isActivated None (map (\<lambda>i. if i \<in> set js then consumed (w_inputs w i) else w_inputs w i) is)" for js
    unfolding task_isActivated_def fields ..
  have all: "map (\<lambda>i. if i \<in> set is then consumed (w_inputs w i) else w_inputs w i) is =
      map (\<lambda>i. consumed (w_inputs w i)) is" by simp
  have "plain_inputs ?w t is" using assms(3) by (simp add: plain_inputs_def upd_task_def)
  then have r: "reset_inputs is ?w = Inr (if becomes_pending ?w t is then set_state t TASK_PENDING (consume_in is ?w)
      else consume_in is ?w)"
    using reset_inputs_plain [of ?w t "is"] assms(2) by (simp add: upd_task_def [of t "\<lambda>x. x\<lparr>m_state := TASK_RESET\<rparr>"])
  have pend: "becomes_pending ?w t is" if h: "\<exists>i\<in>set is. refilled (w_inputs w i)"
    "array_isActivated None (map (\<lambda>i. consumed (w_inputs w i)) is)"
  proof -
    obtain as i bs where d: "is = as @ i # bs" "refilled (w_inputs w i)" "\<forall>j\<in>set bs. \<not> refilled (w_inputs w j)"
      using last_refill [OF h(1)] by blast
    have "array_isActivated None (map consumed (map (w_inputs w) as) @ consumed (w_inputs w i) # map (w_inputs w) bs)"
      by (rule activated_at_last_refill) (use h(2) d in \<open>simp_all add: comp_def\<close>)
    moreover have "map (\<lambda>j. if j \<in> set (as @ [i]) then consumed (w_inputs w j) else w_inputs w j) is =
        map consumed (map (w_inputs w) as) @ consumed (w_inputs w i) # map (w_inputs w) bs"
      using assms(2) by (auto simp: d(1))
    ultimately have "task_isActivated t (consume_in (as @ [i]) ?w)" unfolding act by simp
    then show ?thesis
      using becomes_pending_at [of as i bs ?w t] assms(2) d by (simp add: consume_in_simps)
  qed
  have "\<not> becomes_pending ?w t is" if "\<not> (\<exists>i\<in>set is. refilled (w_inputs w i))"
    using never_refilled [of "is" ?w t] that assms(2) by (simp add: consume_in_simps)
  moreover note pend
  moreover have run: "task_reset t w = reset_end t (if becomes_pending ?w t is
      then set_state t TASK_PENDING (consume_in is w) else set_state t TASK_RESET (consume_in is w))"
  proof -
    have "task_inputs (w_tasks ?w t) = is" using assms(1) by (simp add: upd_task_def)
    then show ?thesis using r by (simp add: task_reset_def Let_def consume_in_simps(4))
  qed
  moreover have a: "task_isActivated t (consume_in is w) =
      array_isActivated None (map (\<lambda>i. consumed (w_inputs w i)) is)"
    using act [of "is"] unfolding all by (simp add: consume_in_simps)
  moreover have "reset_end t (set_state t TASK_PENDING (consume_in is w)) =
      (if task_isActivated t (consume_in is w) then perform t (set_state t TASK_RUN (consume_in is w))
       else Inr (set_state t TASK_WAIT (consume_in is w)))"
    by (simp add: reset_end_def consume_in_simps(3)) (simp add: upd_task_def)
  moreover have "reset_end t (set_state t TASK_RESET (consume_in is w)) =
      Inr (set_state t TASK_WAIT (consume_in is w))"
    unfolding reset_end_def set_state_twice by (simp add: upd_task_def)
  ultimately show ?thesis by auto
qed

text \<open>C10: The reset of a task that has no alternative condition and whose inputs are different from each other and not connected to
  an event or a barrier consumes the notifications of its inputs, and queues the task again exactly when its inputs, after all
  have been consumed, are activated by what is left and some input was refilled from what it had missed; otherwise
  the task waits. In particular the order of the inputs does not matter. An input that is synchronized keeps the notifications beyond its
  threshold; one that is not drops all it has counted, also those that came during the execution.\<close>
theorem task_reset_carries_over:
  assumes "task_inputs (w_tasks w t) = is" and "distinct is" and "plain_inputs w t is"
    and "task_condition (w_tasks w t) = None"
  shows "task_reset t w =
    (if (\<exists>i\<in>set is. refilled (w_inputs w i)) \<and>
        array_isActivated None (map (\<lambda>i. consumed (w_inputs w i)) is)
     then perform t (set_state t TASK_RUN (consume_in is w))
     else Inr (set_state t TASK_WAIT (consume_in is w))) \<and>
    (\<forall>i\<in>set is. \<not> in_synchron (w_inputs w i) \<longrightarrow> in_notifications (w_inputs (consume_in is w) i) = 0) \<and>
    (\<forall>i\<in>set is. in_synchron (w_inputs w i) \<and> in_notifications (w_inputs w i) = in_threshold (w_inputs w i) \<longrightarrow>
      counted (w_inputs (consume_in is w) i) + unat (in_threshold (w_inputs w i)) = counted (w_inputs w i))"
proof -
  have "counted (consumed x) + unat (in_threshold x) = counted x"
    if "in_synchron x" "in_notifications x = in_threshold x" for x
    using that by (auto simp: input_consumed_def counted_def word_le_nat_alt unat_sub)
  then show ?thesis using task_reset_plain [OF assms] by (auto simp: consume_in_def input_consumed_def)
qed

theorem task_reset_carries_over_witness:
  "\<exists>w'. task_reset 5 (upd_input 2 (\<lambda>x. x\<lparr>in_missed := 1, in_notifications := 1\<rparr>) (demo_world fifo_ops fifo_init)) =
    Inr w' \<and> state_of w' 5 = TASK_RUN"
proof -
  let ?w = "upd_input 2 (\<lambda>x. x\<lparr>in_missed := 1, in_notifications := 1\<rparr>) (demo_world fifo_ops fifo_init)"
  have f: "task_inputs (w_tasks ?w 5) = [2]" "task_condition (w_tasks ?w 5) = None" "plain_inputs ?w 5 [2]"
    by (simp_all add: demo_eval plain_inputs_def)
  have "refilled (w_inputs ?w 2)" "input_isActivated (consumed (w_inputs ?w 2))"
    by (simp_all add: demo_eval input_consumed_def input_isActivated_def)
  then have "task_reset 5 ?w = perform 5 (set_state 5 TASK_RUN (consume_in [2] ?w))"
    using task_reset_carries_over [OF f(1) _ f(3,2)] by (simp add: array_default)
  moreover have "\<exists>w'. perform 5 (set_state 5 TASK_RUN (consume_in [2] ?w)) = Inr w' \<and> state_of w' 5 = TASK_RUN"
    by (simp add: perform_def consume_in_def demo_eval fifo_ops_def fifo_queue_def fifo_init_def signal_def)
  ultimately show ?thesis by simp
qed

section \<open>Groups\<close>

text \<open>The tasks in front of the first free slot of a group.\<close>

fun members :: "group \<Rightarrow> task_id list" where
  "members [] = []"
| "members (None # ts) = []"
| "members (Some t # ts) = t # members ts"

lemma areAllExecuted_iff: "areAllExecuted g w \<longleftrightarrow> (\<forall>t\<in>set (members g). state_of w t = TASK_FINISH)"
  by (induction g w rule: areAllExecuted.induct) (auto simp: isExecuted_def)

fun reset_list :: "task_id list \<Rightarrow> 'p world \<Rightarrow> 'p world res" where
  "reset_list [] w = Inr w"
| "reset_list (t # ts) w = bindR (task_reset t w) (reset_list ts)"

lemma group_reset_list: "group_reset g w = reset_list (members g) w"
proof (induction g w rule: group_reset.induct)
  case (3 t ts w)
  then show ?case by (cases "task_reset t w") auto
qed auto

text \<open>C21: A task of a group that has been executed stays finished until all tasks of the group are; the last
  one to finish resets every task of the group, in the order in which they joined.\<close>
theorem group_resets_together:
  assumes "task_group (w_tasks w t) = Some g"
  shows "finalizeExecution t w =
    (if \<forall>u\<in>set (members (w_groups w g)). u = t \<or> state_of w u = TASK_FINISH
     then reset_list (members (w_groups w g)) (set_state t TASK_FINISH w)
     else Inr (set_state t TASK_FINISH w))"
proof -
  have "w_groups (set_state t TASK_FINISH w) = w_groups w" by (simp add: upd_task_def)
  moreover have "areAllExecuted (w_groups w g) (set_state t TASK_FINISH w) \<longleftrightarrow>
      (\<forall>u\<in>set (members (w_groups w g)). u = t \<or> state_of w u = TASK_FINISH)"
    by (auto simp: areAllExecuted_iff upd_task_def)
  ultimately show ?thesis
    using assms by (auto simp: finalizeExecution_def group_finalizeExecution_def group_reset_list)
qed

theorem group_resets_together_witness:
  "finalizeExecution 5 (group_join 6 0 (group_join 5 0 (group_create 0 2 (upd_task 6 (\<lambda>x. x\<lparr>m_state := TASK_WAIT\<rparr>)
      (demo_world fifo_ops fifo_init))))) =
   Inr (set_state 5 TASK_FINISH (group_join 6 0 (group_join 5 0 (group_create 0 2
      (upd_task 6 (\<lambda>x. x\<lparr>m_state := TASK_WAIT\<rparr>) (demo_world fifo_ops fifo_init))))))"
proof -
  let ?w = "group_join 6 0 (group_join 5 0 (group_create 0 2
      (upd_task 6 (\<lambda>x. x\<lparr>m_state := TASK_WAIT\<rparr>) (demo_world fifo_ops fifo_init))))"
  have g: "w_groups ?w 0 = [Some 5, Some 6]" "task_group (w_tasks ?w 5) = Some 0" "state_of ?w 6 = TASK_WAIT"
    by (simp_all add: group_join_def joinTo_def group_create_def demo_eval numeral_2_eq_2)
  show ?thesis using group_resets_together [OF g(2)] by (simp add: g(1,3))
qed

section \<open>Barriers\<close>

fun push_times :: "nat \<Rightarrow> channel_id \<Rightarrow> 'p world \<Rightarrow> 'p world res" where
  "push_times 0 c w = Inr w"
| "push_times (Suc n) c w = bindR (push c w) (push_times n c)"

lemma notify_list_net: "notify_list is w = Inr w' \<Longrightarrow> w_barriers w' = w_barriers w \<and> w_channels w' = w_channels w"
proof (induction "is" arbitrary: w)
  case (Cons i "is")
  then obtain w1 where "notifyInput i w = Inr w1" "notify_list is w1 = Inr w'" by (auto simp: bindR_eq_Inr)
  then show ?case using Cons.IH same_net_fields [OF notifyInput_net] by (fastforce simp: upd_input_def)
qed simp

lemma empty_barrier: "ch_class (w_channels w c) = BarrierChannel \<Longrightarrow> counter (w_barriers w c) = 0 \<Longrightarrow> push_times n c w = Inr w"
  by (induction n) (simp_all add: push_def barrier_push_def)

text \<open>C31: A barrier with the counter \<open>n\<close> keeps the first \<open>n - 1\<close> pushes back, notifies its inputs at the
  \<open>n\<close>-th one and at no further push until it is reset.\<close>
theorem barrier_fires_once:
  assumes "ch_class (w_channels w c) = BarrierChannel" and "wired w c is"
    and "0 < counter (w_barriers w c)"
  shows "push_times k c w =
    (if k < unat (counter (w_barriers w c))
     then Inr (upd_barrier c (\<lambda>b. b\<lparr>counter := counter b - of_nat k\<rparr>) w)
     else notify_list is (upd_barrier c (\<lambda>b. b\<lparr>counter := 0\<rparr>) w))"
  using assms
proof (induction k arbitrary: w)
  case 0
  then have "upd_barrier c (\<lambda>b. b) w = w" by (simp add: upd_barrier_def)
  moreover have "0 < unat (counter (w_barriers w c))" using 0 by (simp add: word_less_nat_alt)
  ultimately show ?case by simp
next
  case (Suc k)
  let ?n = "counter (w_barriers w c)"
  define w1 where "w1 = upd_barrier c (\<lambda>b. b\<lparr>counter := counter b - 1\<rparr>) w"
  have w1: "counter (w_barriers w1 c) = ?n - 1" "ch_class (w_channels w1 c) = BarrierChannel" "wired w1 c is"
    "upd_barrier c (\<lambda>b. b\<lparr>counter := v\<rparr>) w1 = upd_barrier c (\<lambda>b. b\<lparr>counter := v\<rparr>) w" for v
    using Suc.prems by (simp_all add: w1_def upd_barrier_def wired_def)
  have n1: "unat (?n - 1) = unat ?n - 1" using Suc.prems(3) by (simp add: unat_minus_one)
  have n0: "0 < unat ?n" using Suc.prems(3) by (simp add: word_less_nat_alt)
  show ?case
  proof (cases "?n - 1 = 0")
    case True
    then have "w1 = upd_barrier c (\<lambda>b. b\<lparr>counter := 0\<rparr>) w" by (simp add: w1_def upd_barrier_def)
    moreover have "push c w = notify_list is w1"
      using Suc.prems True w1 channel_push_list [OF w1(3)]
      by (simp add: push_def barrier_push_def Let_def w1_def [symmetric])
    moreover have "push_times k c w2 = Inr w2" if "notify_list is w1 = Inr w2" for w2
      using notify_list_net [OF that] w1 True by (intro empty_barrier) simp_all
    ultimately have "push_times (Suc k) c w = notify_list is (upd_barrier c (\<lambda>b. b\<lparr>counter := 0\<rparr>) w)"
      by (cases "notify_list is w1") simp_all
    moreover have "\<not> Suc k < unat ?n" using True n1 by simp
    ultimately show ?thesis by simp
  next
    case False
    then have "push c w = Inr w1"
      using Suc.prems w1 by (simp add: push_def barrier_push_def Let_def w1_def [symmetric])
    moreover have "0 < counter (w_barriers w1 c)" using False unfolding w1(1) by (simp only: word_neq_0_conv)
    moreover have "upd_barrier c (\<lambda>b. b\<lparr>counter := counter b - of_nat k\<rparr>) w1 =
        upd_barrier c (\<lambda>b. b\<lparr>counter := counter b - of_nat (Suc k)\<rparr>) w"
      by (simp add: w1_def upd_barrier_def algebra_simps)
    moreover have "k < unat (?n - 1) \<longleftrightarrow> Suc k < unat ?n" using n1 n0 by auto
    ultimately show ?thesis using Suc.IH [OF w1(2,3)] w1 by simp
  qed
qed

theorem barrier_fires_once_witness:
  "push_times 2 4 (barrier_create 4 3 (demo_world fifo_ops fifo_init)) =
    Inr (upd_barrier 4 (\<lambda>b. b\<lparr>counter := counter b - of_nat 2\<rparr>) (barrier_create 4 3 (demo_world fifo_ops fifo_init)))"
proof -
  let ?w = "barrier_create 4 3 (demo_world fifo_ops fifo_init)"
  have "ch_class (w_channels ?w 4) = BarrierChannel" "wired ?w 4 []" "counter (w_barriers ?w 4) = 3"
    by (simp_all add: barrier_create_def channel_create_def upd_barrier_def upd_channel_def wired_def demo_eval)
  then show ?thesis using barrier_fires_once [of ?w 4 "[]" 2] by simp
qed

section \<open>Starting without a reset\<close>

text \<open>Two tasks in one group, each with one input connected to a channel of its own.\<close>

definition two_tasks :: "fifo_policy world" where
  "two_tasks = group_join 2 0 (group_join 1 0 (group_create 0 2
     (task_construct 2 (task_construct 1
     (upd_input 2 (input_configure 1 False) (upd_input 1 (input_configure 1 False)
     (channel_create 2 PlainChannel 0 (channel_create 1 PlainChannel 0
     (task_create 2 0 [2] (task_create 1 0 [1] (world_init fifo_ops fifo_init)))))))))))"

text \<open>An executor takes the next task and executes it; the application does nothing.\<close>

definition run_next :: "'p world \<Rightarrow> 'p world res" where
  "run_next w = bindR (pol_nextTask (w_ops w) (w_policy w))
     (\<lambda>(p, r). deref r (\<lambda>t. execute (\<lambda>t w. Inr w) t (w\<lparr>w_policy := p\<rparr>)))"

text \<open>A start without a reset queues the activated tasks without marking them as running. If such tasks
  form a group, the first one to finish resets the one that still waits in the queue; the next
  message queues that task a second time, its link points to itself, and the run queue never
  gets empty again.\<close>
theorem start_without_reset_doubles:
  "bindR (configureInput 1 0 1 two_tasks) (\<lambda>(w, _). bindR (configureInput 2 0 2 w) (\<lambda>(w, _).
   bindR (push 1 w) (\<lambda>w. bindR (push 2 w) (\<lambda>w. bindR (start False w) (\<lambda>w. bindR (run_next w) (\<lambda>w.
   bindR (push 1 w) (\<lambda>w.
     Inr (fifo_head (w_policy w), fifo_next (w_policy w) 1, state_of w 1)))))))) =
   Inr (Some 1, Some 1, TASK_RUN)"
  by code_simp

end
