(* ===== verification/EventProofs.thy ===== *)
theory EventProofs
  imports Activation ClockQueue
begin

text \<open>
  Events and the clock: the next activation of a periodic event, starting and stopping events
  in a clock that refines a list of events, and the periodic restart without drift.
\<close>

section \<open>The next point of a period\<close>

lemma unat_period_arith:
  assumes "0 < unat p" and "unat s < unat n" and "unat n + unat p < 2 ^ 64"
  shows "unat ((s :: time) + ((n - s) div p + 1) * p) = unat s + ((unat n - unat s) div unat p + 1) * unat p"
proof -
  let ?d = "unat n - unat s" and ?p = "unat p"
  have d: "unat (n - s) = ?d" using assms(2) by (simp add: unat_sub word_le_nat_alt)
  have q: "unat ((n - s) div p) = ?d div ?p" by (simp add: unat_div d)
  have "?d div ?p \<le> ?d" by simp
  then have "?d div ?p + 1 < 2 ^ 64" using assms by linarith
  then have q1: "unat ((n - s) div p + 1) = ?d div ?p + 1"
    unfolding unat_word_ariths(1) q by simp
  have le: "?d div ?p * ?p \<le> ?d" by simp
  then have m: "(?d div ?p + 1) * ?p \<le> ?d + ?p" by (simp add: algebra_simps)
  then have "(?d div ?p + 1) * ?p < 2 ^ 64" using assms by linarith
  then have q2: "unat (((n - s) div p + 1) * p) = (?d div ?p + 1) * ?p"
    unfolding unat_word_ariths(2) q1 by simp
  have "unat s + (?d div ?p + 1) * ?p < 2 ^ 64" using m assms by linarith
  then show ?thesis unfolding unat_word_ariths(1) q2 by simp
qed

text \<open>The first activation of a periodic event is its offset if that is not over, and otherwise the next
  point in time of the form offset plus a multiple of the period: it lies in the future, by at
  most one period.\<close>
theorem next_period_next:
  assumes "0 < period" and "unat now + unat period < 2 ^ 64"
  shows "if now > offset
    then now < next_period now period offset \<and>
      unat (next_period now period offset) \<le> unat now + unat period \<and>
      (\<exists>k. unat (next_period now period offset) = unat offset + k * unat period)
    else next_period now period offset = offset"
proof (cases "offset < now")
  case True
  let ?d = "unat now - unat offset" and ?p = "unat period"
  have lt: "unat offset < unat now" using True by (simp add: word_less_nat_alt)
  have p: "0 < ?p" using assms(1) by (simp add: word_less_nat_alt)
  have n: "unat (next_period now period offset) = unat offset + (?d div ?p + 1) * ?p"
    using unat_period_arith [OF p lt assms(2)] True assms(1) by (simp add: next_period_def)
  have le: "(?d div ?p + 1) * ?p \<le> ?d + ?p" by (simp add: algebra_simps)
  have gt: "?d < (?d div ?p + 1) * ?p"
    using p by (metis add.commute div_mult_mod_eq add_mult_distrib nat_mult_1 mod_less_divisor nat_add_left_cancel_less)
  have "now < next_period now period offset" using n gt lt by (simp add: word_less_nat_alt)
  moreover have "unat (next_period now period offset) \<le> unat now + ?p" using n le lt by linarith
  moreover have "\<exists>k. unat (next_period now period offset) = unat offset + k * ?p" using n by blast
  ultimately show ?thesis using True by simp
qed (simp add: next_period_def)

theorem next_period_next_witness: "57 < next_period 57 10 3 \<and> next_period 57 10 3 = 63"
  using next_period_next [of 10 57 3] by (simp add: next_period_def)

section \<open>Events in the clock queue\<close>

lemma fold_calls [simp]:
  "w_clock (fold do_call calls w) = w_clock w" "w_now (fold do_call calls w) = w_now w"
  by (induction calls arbitrary: w) (simp_all add: do_call_def signal_def split: clock_call.split)

lemma clock_shape_times:
  "clock_rep now c xs \<Longrightarrow> e \<notin> set xs \<Longrightarrow> (\<And>ev. ev_next (f ev) = ev_next ev \<and> queued (f ev) = queued ev) \<Longrightarrow>
    clock_rep now (upd_ev e f c) xs"
proof -
  assume r: "clock_rep now c xs" and e: "e \<notin> set xs"
    and f: "\<And>ev. ev_next (f ev) = ev_next ev \<and> queued (f ev) = queued ev"
  have "clock_shape now (upd_ev e f c) xs"
    using r e by (subst clock_shape_cong [where c = c]) (auto simp: clock_rep_def)
  then show ?thesis using r e f by (auto simp: clock_rep_def flags_ok_def)
qed

lemma dequeue_if_queued_rep:
  assumes "clock_rep (w_now w) (w_clock w) xs" and "e \<in> set xs \<longrightarrow> queued (ev_of w e)"
  shows "\<exists>w'. dequeue_if_queued e w = Inr w' \<and> clock_rep (w_now w) (w_clock w') (remove1 e xs) \<and>
    tm (w_clock w') = tm (w_clock w) \<and> w_now w' = w_now w"
proof (cases "queued (ev_of w e)")
  case True
  then show ?thesis
    using dequeue_spec [OF assms(1), of e]
    by (auto simp: dequeue_if_queued_def clock_dequeue_def fun_eq_iff)
next
  case False
  then show ?thesis using assms by (auto simp: dequeue_if_queued_def remove1_idem)
qed

lemma place_empty: "place_event now f e [] = [e]"
  by (simp add: place_event_def insert_event_def)

lemma clock_startAt_rep:
  assumes "clock_rep (w_now w) (w_clock w) xs" and "e \<notin> set xs" and "w_now w < 2 ^ 63" and "t < 2 ^ 63"
  shows "\<exists>w'. clock_startAt e t w = Inr w' \<and>
    clock_rep (w_now w) (w_clock w') (place_event (w_now w) (tm (w_clock w')) e xs) \<and>
    tm (w_clock w') = (tm (w_clock w))(e := t) \<and> same_run w w'"
proof -
  obtain c' where c': "startAt (w_now w) e t (w_clock w) = Inr (c', start_calls (w_now w) (tm c') e xs)"
    "clock_rep (w_now w) c' (place_event (w_now w) (tm c') e xs)" "tm c' = (tm (w_clock w))(e := t)"
    using start_rep [OF assms] by blast
  let ?w' = "fold do_call (start_calls (w_now w) (tm c') e xs) (w\<lparr>w_clock := c'\<rparr>)"
  have run: "clock_startAt e t w = Inr ?w'" by (simp add: clock_startAt_def on_clock_def c'(1))
  then have "same_run w ?w'" unfolding clock_startAt_def by (rule same_run_on_clock)
  then show ?thesis using run c'(2,3) by (intro exI [of _ ?w']) simp
qed

section \<open>Divergences\<close>

text \<open>A periodic schedule whose offset is not smaller than its period is never started: the absolute time
  of its first trigger is compared with the period, and the event is stopped.\<close>
theorem schedule_offset_stops:
  "bindR (sortIn 9 (\<lambda>_. trigger_init 5, schedule_init)) (\<lambda>(m, s).
   bindR (setPeriodicSchedule 100 200 0 7
       ((event_create 7 0 (world_init fifo_ops fifo_init))\<lparr>w_triggers := m, w_schedules := (\<lambda>_. s)\<rparr>)) (\<lambda>w.
     Inr (configured (ev_of w 7), isTriggered 7 w, periodicSchedule (ev_of w 7)))) = Inr (False, False, None)"
  by code_simp

text \<open>A stopped periodic event that is triggered once with a delay fires periodically again, because
  \<^verbatim>\<open>stop\<close> leaves the flag \<^verbatim>\<open>periodical\<close> set.\<close>
theorem stop_keeps_periodical:
  "bindR (setPeriodicTiming 10 3 7 (event_create 7 0 (world_init fifo_ops fifo_init))) (\<lambda>w.
   bindR (stop 7 w) (\<lambda>w. bindR (trigger_event 7 5 w) (\<lambda>w. bindR (handleEvents (w\<lparr>w_now := 5\<rparr>)) (\<lambda>w.
     Inr (isTriggered 7 w, nextActivation_ms (ev_of w 7)))))) = Inr (True, 15)"
  by code_simp

end
