(* ===== verification/FifoGeneric.thy ===== *)
theory FifoGeneric
  imports Prelude
begin

text \<open>
  The generic FIFO of the channel library with its readers
  (\<^verbatim>\<open>channels/src/fifoGeneric.cpp\<close>): the elements of an array hang in one of three
  linked lists, the unused ones, those allocated by the application and those in the FIFO. A
  reader sees the elements its task was started for and keeps the popped ones in a list of links
  of its own; an element leaves the FIFO when every reader has released it, which a bit mask in
  the element records. The methods lock mutexes only around their own steps; each is one step
  here.
\<close>

unbundle bit_operations_syntax

section \<open>State\<close>

text \<open>
  Elements, readers and links are addressed by their index. A data pointer is its offset in the
  data buffer. \<open>rd_fifo\<close> says whether the pointer \<^verbatim>\<open>fifo\<close> of a reader is set, to the one
  FIFO modelled. The element of a link is 0 until \<^verbatim>\<open>pop\<close> first writes it.
\<close>

type_synonym elem_id = nat
type_synonym data_ptr = nat
type_synonym reader_id = nat
type_synonym link_id = nat

record chain_elem =
  c_next :: "elem_id option"
  c_data :: data_ptr
  expectedReads :: uint

record reader_link =
  lk_element :: elem_id
  lk_next :: "link_id option"

record fifo_reader =
  nextReader :: "reader_id option"
  readerId :: uint
  readerTask :: task_id
  rd_fifo :: bool
  rd_first :: "elem_id option"
  rd_last :: "elem_id option"
  allocated_elements :: "link_id option"
  unusedLinks :: "link_id option"
  links :: "link_id \<Rightarrow> reader_link"

record fifo =
  f_chain :: "elem_id \<Rightarrow> chain_elem"
  f_readers :: "reader_id \<Rightarrow> fifo_reader"
  m_unused :: "elem_id option"
  m_allocated :: "elem_id option"
  m_fifo_first :: "elem_id option"
  m_fifo_last :: "elem_id option"
  m_lastPushed :: "data_ptr option"
  m_readers :: "reader_id option"
  m_readerBitMask :: "8 word"

definition elem_next :: "fifo \<Rightarrow> elem_id \<Rightarrow> elem_id option" where
  "elem_next f x = c_next (f_chain f x)"

definition upd_elem :: "elem_id \<Rightarrow> (chain_elem \<Rightarrow> chain_elem) \<Rightarrow> fifo \<Rightarrow> fifo" where
  "upd_elem x g f = f\<lparr>f_chain := (f_chain f)(x := g (f_chain f x))\<rparr>"

definition upd_reader :: "reader_id \<Rightarrow> (fifo_reader \<Rightarrow> fifo_reader) \<Rightarrow> fifo \<Rightarrow> fifo" where
  "upd_reader r g f = f\<lparr>f_readers := (f_readers f)(r := g (f_readers f r))\<rparr>"

definition set_link :: "link_id \<Rightarrow> (reader_link \<Rightarrow> reader_link) \<Rightarrow> fifo_reader \<Rightarrow> fifo_reader" where
  "set_link l g r = r\<lparr>links := (links r)(l := g (links r l))\<rparr>"

section \<open>The FIFO\<close>

definition add_unused :: "nat \<Rightarrow> elem_id \<Rightarrow> fifo \<Rightarrow> fifo" where
  "add_unused sz i f =
     (upd_elem i (\<lambda>c. c\<lparr>c_data := sz * i, c_next := m_unused f\<rparr>) f)\<lparr>m_unused := Some i\<rparr>"

definition maximumFifoReaderLinks :: nat where
  "maximumFifoReaderLinks = 2000"

definition reader_init :: "task_id \<Rightarrow> fifo_reader" where
  "reader_init t = \<lparr>nextReader = None, readerId = 0, readerTask = t, rd_fifo = False, rd_first = None,
     rd_last = None, allocated_elements = None, unusedLinks = Some 0,
     links = (\<lambda>i. \<lparr>lk_element = 0,
                   lk_next = (if i < maximumFifoReaderLinks - 1 then Some (i + 1) else None)\<rparr>)\<rparr>"

text \<open>For evaluation the index is compared as an integer.\<close>

lemma reader_init_code [code]: "reader_init t = \<lparr>nextReader = None, readerId = 0, readerTask = t, rd_fifo = False,
     rd_first = None, rd_last = None, allocated_elements = None, unusedLinks = Some 0,
     links = (\<lambda>i. \<lparr>lk_element = 0, lk_next = (if int i < 1999 then Some (i + 1) else None)\<rparr>)\<rparr>"
  by (auto simp: reader_init_def maximumFifoReaderLinks_def fun_eq_iff)

text \<open>\<open>tasks r\<close> is the task with which the reader \<open>r\<close> is constructed.\<close>

definition gf_init :: "nat \<Rightarrow> nat \<Rightarrow> (reader_id \<Rightarrow> task_id) \<Rightarrow> fifo" where
  "gf_init sz items tasks =
     fold (add_unused sz) [0..<items]
       \<lparr>f_chain = (\<lambda>_. \<lparr>c_next = None, c_data = 0, expectedReads = 0\<rparr>),
        f_readers = (\<lambda>r. reader_init (tasks r)), m_unused = None, m_allocated = None,
        m_fifo_first = None, m_fifo_last = None, m_lastPushed = None, m_readers = None,
        m_readerBitMask = 1\<rparr>"

definition gf_isEmpty :: "fifo \<Rightarrow> bool" where
  "gf_isEmpty f \<longleftrightarrow> m_fifo_first f = None"

definition getlastPushed :: "fifo \<Rightarrow> data_ptr option" where
  "getlastPushed f = m_lastPushed f"

definition gf_allocate :: "fifo \<Rightarrow> fifo \<times> data_ptr option" where
  "gf_allocate f =
     (case m_unused f of
        None \<Rightarrow> (f, None)
      | Some x \<Rightarrow>
          let f1 = f\<lparr>m_unused := elem_next f x\<rparr>;
              f2 = upd_elem x (\<lambda>c. c\<lparr>c_next := m_allocated f1, expectedReads := 1\<rparr>) f1
          in (f2\<lparr>m_allocated := Some x\<rparr>, Some (c_data (f_chain f x))))"

text \<open>The state of the search loop is \<^verbatim>\<open>result\<close>.\<close>

definition gf_findPrevious :: "data_ptr \<Rightarrow> fifo \<Rightarrow> elem_id option res" where
  "gf_findPrevious d f =
     deref (m_allocated f) (\<lambda>h.
       if c_data (f_chain f h) \<noteq> d
       then bindR (for_ptr (\<lambda>result x. elem_next f x \<noteq> None \<and> result = None) (\<lambda>result x. elem_next f x)
                    (\<lambda>x result. deref (elem_next f x) (\<lambda>y. Inr (if c_data (f_chain f y) = d then Some x else result)))
                    (m_allocated f) None)
              (\<lambda>(_, result). Inr result)
       else Inr None)"

definition clear_bit :: "uint \<Rightarrow> chain_elem \<Rightarrow> chain_elem" where
  "clear_bit i c = c\<lparr>expectedReads := expectedReads c AND NOT i\<rparr>"

definition put_unused :: "elem_id \<Rightarrow> fifo \<Rightarrow> fifo" where
  "put_unused x f = (upd_elem x (\<lambda>c. c\<lparr>c_next := m_unused f\<rparr>) f)\<lparr>m_unused := Some x\<rparr>"

definition gf_release :: "data_ptr \<Rightarrow> uint \<Rightarrow> fifo \<Rightarrow> fifo res" where
  "gf_release d i f =
     (case m_allocated f of
        None \<Rightarrow> Inr f
      | Some h \<Rightarrow>
          if c_data (f_chain f h) = d
          then let f1 = upd_elem h (clear_bit i) f
               in if expectedReads (f_chain f1 h) = 0
                  then Inr (put_unused h (f1\<lparr>m_allocated := elem_next f1 h\<rparr>)) else Inr f1
          else bindR (gf_findPrevious d f) (\<lambda>previous.
                 case previous of
                   None \<Rightarrow> Inr f
                 | Some p \<Rightarrow> deref (elem_next f p) (\<lambda>x.
                     let f1 = upd_elem x (clear_bit i) f
                     in if expectedReads (f_chain f1 x) = 0
                        then Inr (put_unused x (upd_elem p (\<lambda>c. c\<lparr>c_next := elem_next f1 x\<rparr>) f1))
                        else Inr f1)))"

definition gf_releaseElement :: "elem_id option \<Rightarrow> uint \<Rightarrow> fifo \<Rightarrow> fifo res" where
  "gf_releaseElement link i f =
     (case link of
        None \<Rightarrow> Inr f
      | Some x \<Rightarrow>
          if m_fifo_first f = None then Inl AssertFailed
          else let f1 = upd_elem x (clear_bit i) f
               in if expectedReads (f_chain f1 x) = 0
                  then if m_fifo_first f1 = Some x
                       then let f2 = put_unused x (f1\<lparr>m_fifo_first := elem_next f1 x\<rparr>)
                            in if m_fifo_last f2 = Some x then Inr (f2\<lparr>m_fifo_last := None\<rparr>) else Inr f2
                       else bindR (for_ptr (\<lambda>_ y. elem_next f1 y \<noteq> Some x) (\<lambda>_ y. elem_next f1 y) (\<lambda>_. Inr)
                                     (m_fifo_first f1) ())
                              (\<lambda>(previous, _).
                                 case previous of
                                   None \<Rightarrow> Inl AssertFailed
                                 | Some p \<Rightarrow>
                                     let f2 = upd_elem p (\<lambda>c. c\<lparr>c_next := elem_next f1 x\<rparr>) f1;
                                         f3 = (if m_fifo_last f2 = Some x then f2\<lparr>m_fifo_last := Some p\<rparr> else f2)
                                     in Inr (put_unused x f3))
                  else Inr f1)"

text \<open>The first part of \<^verbatim>\<open>push\<close>: the element of the data leaves the allocated list.\<close>

definition gf_unlink :: "data_ptr \<Rightarrow> fifo \<Rightarrow> (fifo \<times> elem_id option) res" where
  "gf_unlink d f =
     (case m_allocated f of
        None \<Rightarrow> Inr (f, None)
      | Some h \<Rightarrow>
          if c_data (f_chain f h) = d then Inr (f\<lparr>m_allocated := elem_next f h\<rparr>, Some h)
          else bindR (gf_findPrevious d f) (\<lambda>previous.
                 case previous of
                   None \<Rightarrow> Inr (f, None)
                 | Some p \<Rightarrow> deref (elem_next f p) (\<lambda>x.
                     Inr (upd_elem p (\<lambda>c. c\<lparr>c_next := elem_next f x\<rparr>) f, Some x))))"

text \<open>The second part of \<^verbatim>\<open>push\<close> appends the element to the queue.\<close>

definition gf_append :: "elem_id \<Rightarrow> data_ptr \<Rightarrow> fifo \<Rightarrow> fifo res" where
  "gf_append x d f =
     (let f2 = upd_elem x (\<lambda>c. c\<lparr>expectedReads := ucast (m_readerBitMask f)\<rparr>) f
      in bindR
           (if \<not> gf_isEmpty f2
            then deref (m_fifo_last f2) (\<lambda>l. Inr (upd_elem l (\<lambda>c. c\<lparr>c_next := Some x\<rparr>) f2))
            else Inr (f2\<lparr>m_fifo_first := Some x\<rparr>))
           (\<lambda>f3. Inr ((upd_elem x (\<lambda>c. c\<lparr>c_next := None\<rparr>) (f3\<lparr>m_fifo_last := Some x\<rparr>))\<lparr>m_lastPushed := Some d\<rparr>)))"

definition gf_push :: "data_ptr \<Rightarrow> fifo \<Rightarrow> (fifo \<times> bool) res" where
  "gf_push d f =
     bindR (gf_unlink d f) (\<lambda>(f1, element).
       case element of
         None \<Rightarrow> Inr (f1, False)
       | Some x \<Rightarrow> bindR (gf_append x d f1) (\<lambda>f'. Inr (f', True)))"

definition gf_pop :: "fifo \<Rightarrow> fifo \<times> data_ptr option" where
  "gf_pop f =
     (case m_fifo_first f of
        None \<Rightarrow> (f, None)
      | Some x \<Rightarrow>
          if m_readers f = None
          then let f1 = f\<lparr>m_fifo_first := elem_next f x\<rparr>;
                   f2 = (if m_fifo_first f1 = None then f1\<lparr>m_fifo_last := None\<rparr> else f1);
                   f3 = upd_elem x (\<lambda>c. c\<lparr>c_next := m_allocated f2\<rparr>) f2
               in (f3\<lparr>m_allocated := Some x\<rparr>, Some (c_data (f_chain f x)))
          else (f, None))"

section \<open>Readers\<close>

definition rd_isEmpty :: "reader_id \<Rightarrow> fifo \<Rightarrow> bool" where
  "rd_isEmpty r f \<longleftrightarrow> rd_first (f_readers f r) = None"

text \<open>\<^verbatim>\<open>link->next = unusedLinks; unusedLinks = link\<close>\<close>

definition free_link :: "link_id \<Rightarrow> fifo_reader \<Rightarrow> fifo_reader" where
  "free_link l x = (set_link l (\<lambda>k. k\<lparr>lk_next := unusedLinks x\<rparr>) x)\<lparr>unusedLinks := Some l\<rparr>"

definition link_data :: "fifo \<Rightarrow> reader_id \<Rightarrow> link_id \<Rightarrow> data_ptr" where
  "link_data f r l = c_data (f_chain f (lk_element (links (f_readers f r) l)))"

definition release_head :: "reader_id \<Rightarrow> link_id \<Rightarrow> fifo \<Rightarrow> fifo res" where
  "release_head r h f =
     bindR (gf_releaseElement (Some (lk_element (links (f_readers f r) h))) (readerId (f_readers f r)) f) (\<lambda>f1.
       Inr (upd_reader r (\<lambda>x. (free_link h x)\<lparr>allocated_elements := lk_next (links x h)\<rparr>) f1))"

definition rd_release :: "reader_id \<Rightarrow> data_ptr \<Rightarrow> fifo \<Rightarrow> fifo res" where
  "rd_release r d f =
     (case allocated_elements (f_readers f r) of
        None \<Rightarrow> Inr f
      | Some h \<Rightarrow>
          if \<not> rd_fifo (f_readers f r) then Inr f
          else if link_data f r h = d then release_head r h f
          else bindR (for_ptr (\<lambda>_ l. case lk_next (links (f_readers f r) l) of
                                       None \<Rightarrow> False | Some k \<Rightarrow> link_data f r k \<noteq> d)
                        (\<lambda>_ l. lk_next (links (f_readers f r) l)) (\<lambda>_. Inr) (Some h) ())
                 (\<lambda>(previous, _). deref previous (\<lambda>p.
                    case lk_next (links (f_readers f r) p) of
                      None \<Rightarrow> Inr f
                    | Some k \<Rightarrow>
                        bindR (gf_releaseElement (Some (lk_element (links (f_readers f r) k)))
                                 (readerId (f_readers f r)) f) (\<lambda>f1.
                          Inr (upd_reader r (\<lambda>x. set_link p (\<lambda>lk. lk\<lparr>lk_next := lk_next (links x k)\<rparr>)
                                                     (free_link k x)) f1)))))"

definition rd_pop :: "reader_id \<Rightarrow> fifo \<Rightarrow> (fifo \<times> data_ptr option) res" where
  "rd_pop r f =
     (if \<not> rd_fifo (f_readers f r) then Inr (f, None)
      else case rd_first (f_readers f r) of
        None \<Rightarrow> Inr (f, None)
      | Some x \<Rightarrow>
          case unusedLinks (f_readers f r) of
            None \<Rightarrow> Inr (f, None)
          | Some l \<Rightarrow>
              let f1 = upd_reader r (\<lambda>rd. (set_link l (\<lambda>k. \<lparr>lk_element = x, lk_next = allocated_elements rd\<rparr>) rd)
                         \<lparr>unusedLinks := lk_next (links rd l), allocated_elements := Some l, rd_first := elem_next f x\<rparr>) f
              in if rd_last (f_readers f1 r) = Some x
                 then Inr (upd_reader r (\<lambda>rd. rd\<lparr>rd_first := None, rd_last := None\<rparr>) f1, Some (c_data (f_chain f1 x)))
                 else if rd_first (f_readers f1 r) = None then Inl AssertFailed
                 else Inr (f1, Some (c_data (f_chain f1 x))))"

definition rd_releaseAll :: "reader_id \<Rightarrow> fifo \<Rightarrow> fifo res" where
  "rd_releaseAll r f =
     bindR (for_ptr (\<lambda>_ _. True) (\<lambda>f _. allocated_elements (f_readers f r))
              (\<lambda>h f. if rd_fifo (f_readers f r) then release_head r h f else Inl NullPointer)
              (allocated_elements (f_readers f r)) f)
       (\<lambda>(_, f1). Inr f1)"

lemma half_less: "drop_bit 1 (x :: uint) AND 1 \<noteq> 0 \<Longrightarrow> unat (drop_bit 1 x) < unat x"
proof -
  assume "drop_bit 1 x AND 1 \<noteq> 0"
  then have "drop_bit 1 x \<noteq> 0" by auto
  then have "unat (drop_bit 1 x) \<noteq> 0" by (simp add: unat_eq_0)
  moreover have "unat (drop_bit 1 x) = unat x div 2" by (simp add: unat_div_distrib drop_bit_eq_div del: drop_bit_Suc)
  ultimately show ?thesis by linarith
qed

text \<open>\<^verbatim>\<open>while ((tmpBitField >>= 1) & 1) { readerId <<= 1; }\<close>\<close>

function free_bit :: "uint \<Rightarrow> uint \<Rightarrow> uint" where
  "free_bit tmp i =
     (if drop_bit 1 tmp AND 1 \<noteq> 0 then free_bit (drop_bit 1 tmp) (push_bit 1 i) else i)"
  by pat_completeness auto

termination
  by (relation "measure (\<lambda>(tmp, i). unat tmp)") (use half_less in auto)

declare free_bit.simps [simp del]

definition gf_associateReader :: "reader_id \<Rightarrow> fifo \<Rightarrow> fifo res" where
  "gf_associateReader r f =
     bindR (for_ptr (\<lambda>_ x. x \<noteq> r) (\<lambda>_ x. nextReader (f_readers f x)) (\<lambda>_. Inr) (m_readers f) ())
       (\<lambda>(check, _).
          if check \<noteq> None then Inr f
          else let f1 = upd_reader r (\<lambda>x. x\<lparr>nextReader := m_readers f\<rparr>) f;
                   i = (if m_readers f \<noteq> None then push_bit 1 (free_bit (ucast (m_readerBitMask f)) 1) else 1);
                   f2 = (if m_readers f \<noteq> None
                         then f1\<lparr>m_readerBitMask := ucast (ucast (m_readerBitMask f) OR i)\<rparr> else f1);
                   f3 = upd_reader r (\<lambda>x. x\<lparr>rd_fifo := True, readerId := i\<rparr>) (f2\<lparr>m_readers := Some r\<rparr>)
               in bindR (for_ptr (\<lambda>_ _. True) (\<lambda>f x. elem_next f x)
                           (\<lambda>x f. Inr (upd_elem x (\<lambda>c. c\<lparr>expectedReads := expectedReads c OR i\<rparr>) f))
                           (m_fifo_first f3) f3)
                    (\<lambda>(_, f4). Inr f4))"

text \<open>
  In the loop that removes a reader behind the head, the state is the FIFO with the variable
  \<^verbatim>\<open>currentReader\<close>, which the body itself moves to the removed reader.
\<close>

definition remove_reader :: "reader_id \<Rightarrow> fifo \<Rightarrow> fifo res" where
  "remove_reader r f =
     (if m_readers f = Some r
      then let f1 = f\<lparr>m_readers := nextReader (f_readers f r)\<rparr>
           in Inr (f1\<lparr>m_readerBitMask :=
                (if m_readers f1 \<noteq> None
                 then ucast (ucast (m_readerBitMask f1) AND NOT (readerId (f_readers f1 r))) else 1)\<rparr>)
      else bindR (for_ptr (\<lambda>_ _. True) (\<lambda>(f, current) _. nextReader (f_readers f current))
                    (\<lambda>x (f, _).
                       if nextReader (f_readers f x) = Some r
                       then Inr (upd_reader r (\<lambda>y. y\<lparr>nextReader := None\<rparr>)
                                  ((upd_reader x (\<lambda>y. y\<lparr>nextReader := nextReader (f_readers f r)\<rparr>) f)
                                     \<lparr>m_readerBitMask := ucast (ucast (m_readerBitMask f) AND
                                                               NOT (readerId (f_readers f r)))\<rparr>), r)
                       else Inr (f, x))
                    (m_readers f) (f, r))
             (\<lambda>(_, f1, _). Inr f1))"

definition gf_releaseReader :: "reader_id \<Rightarrow> fifo \<Rightarrow> fifo res" where
  "gf_releaseReader r f =
     bindR (rd_releaseAll r f) (\<lambda>f1.
       let f2 = (if rd_first (f_readers f1 r) = None
                 then upd_reader r (\<lambda>x. x\<lparr>rd_first := m_fifo_first f1\<rparr>) f1 else f1)
       in bindR (for_ptr (\<lambda>_ _. True) (\<lambda>f _. rd_first (f_readers f r))
                   (\<lambda>x f. bindR (gf_releaseElement (Some x) (readerId (f_readers f r)) f)
                            (\<lambda>f'. Inr (upd_reader r (\<lambda>y. y\<lparr>rd_first := elem_next f x\<rparr>) f')))
                   (rd_first (f_readers f2 r)) f2)
            (\<lambda>(_, f3). remove_reader r (upd_reader r (\<lambda>x. x\<lparr>rd_fifo := False\<rparr>) (f3\<lparr>m_fifo_last := None\<rparr>))))"

text \<open>\<^verbatim>\<open>for (i = 0; i < volume - 1; i++)\<close>, with \<open>n\<close> iterations left.\<close>

fun step_items :: "nat \<Rightarrow> elem_id \<Rightarrow> fifo \<Rightarrow> elem_id res" where
  "step_items 0 x f = Inr x"
| "step_items (Suc n) x f = (case elem_next f x of None \<Rightarrow> Inl AssertFailed | Some y \<Rightarrow> step_items n y f)"

definition synchronize_reader :: "reader_id \<Rightarrow> uint \<Rightarrow> fifo \<Rightarrow> fifo res" where
  "synchronize_reader r volume f =
     (case m_fifo_first f of
        None \<Rightarrow> Inl AssertFailed
      | Some h \<Rightarrow>
          bindR
            (if rd_first (f_readers f r) = None
             then bindR (for_ptr (\<lambda>_ x. expectedReads (f_chain f x) AND readerId (f_readers f r) = 0)
                           (\<lambda>_ x. elem_next f x) (\<lambda>_. Inr) (Some h) ())
                    (\<lambda>(first, _). case first of
                        None \<Rightarrow> Inl AssertFailed
                      | Some x \<Rightarrow> Inr (upd_reader r (\<lambda>y. y\<lparr>rd_first := Some x\<rparr>) f, x))
             else deref (rd_last (f_readers f r)) (\<lambda>l.
                    case elem_next f l of None \<Rightarrow> Inl AssertFailed | Some x \<Rightarrow> Inr (f, x)))
            (\<lambda>(f1, newItem).
               bindR (step_items (unat (volume - 1)) newItem f1)
                 (\<lambda>x. Inr (upd_reader r (\<lambda>y. y\<lparr>rd_last := Some x\<rparr>) f1))))"

definition gf_synchronize :: "task_id \<Rightarrow> uint \<Rightarrow> fifo \<Rightarrow> fifo res" where
  "gf_synchronize t volume f =
     (if volume > 0
      then bindR (for_ptr (\<lambda>_ r. readerTask (f_readers f r) \<noteq> t) (\<lambda>_ r. nextReader (f_readers f r)) (\<lambda>_. Inr)
                    (m_readers f) ())
             (\<lambda>(reader, _). case reader of None \<Rightarrow> Inr f | Some r \<Rightarrow> synchronize_reader r volume f)
      else Inr f)"

end
