(* ===== verification/FifoQueue.thy ===== *)
theory FifoQueue
  imports FifoGeneric
begin

text \<open>
  The FIFO without readers implements three lists: the unused elements, the allocated ones and
  the queue. Every sequence of calls, also with data pointers that are not allocated, is answered
  as the lists answer it and meets no fault.
\<close>

section \<open>Representation\<close>

text \<open>The three lists; the bits of the elements in the FIFO are those of its readers.\<close>

definition queue_shape :: "nat \<Rightarrow> nat \<Rightarrow> fifo \<Rightarrow> elem_id list \<times> elem_id list \<times> elem_id list \<Rightarrow> bool" where
  "queue_shape sz n f s \<longleftrightarrow> (case s of (us, al, q) \<Rightarrow>
     chain (elem_next f) (m_unused f) us \<and> chain (elem_next f) (m_allocated f) al \<and> chain (elem_next f) (m_fifo_first f) q \<and>
     m_fifo_last f = lastp q \<and> distinct (us @ al @ q) \<and> set us \<union> set al \<union> set q = {..<n} \<and>
     (\<forall>x. x < n \<longrightarrow> c_data (f_chain f x) = sz * x) \<and> (\<forall>x\<in>set al. expectedReads (f_chain f x) = 1))"

text \<open>A FIFO without readers.\<close>

definition queue_rep :: "nat \<Rightarrow> nat \<Rightarrow> fifo \<Rightarrow> elem_id list \<times> elem_id list \<times> elem_id list \<Rightarrow> bool" where
  "queue_rep sz n f s \<longleftrightarrow> queue_shape sz n f s \<and>
     (\<forall>x\<in>set (snd (snd s)). expectedReads (f_chain f x) = 1) \<and> m_readers f = None \<and> m_readerBitMask f = 1"

text \<open>What the writer leaves as it was; a pushed element waits for the associated readers.\<close>

definition writer_keeps :: "fifo \<Rightarrow> fifo \<Rightarrow> elem_id list \<Rightarrow> elem_id list \<Rightarrow> bool" where
  "writer_keeps f f' q q' \<longleftrightarrow>
     m_readers f' = m_readers f \<and> f_readers f' = f_readers f \<and> m_readerBitMask f' = m_readerBitMask f \<and>
     (\<forall>x\<in>set q'. expectedReads (f_chain f' x) =
        (if x \<in> set q then expectedReads (f_chain f x) else ucast (m_readerBitMask f)))"

lemma upd_elem_simps [simp]:
  "f_chain (upd_elem x g f) = (f_chain f)(x := g (f_chain f x))"
  "f_readers (upd_elem x g f) = f_readers f" "m_unused (upd_elem x g f) = m_unused f"
  "m_allocated (upd_elem x g f) = m_allocated f" "m_fifo_first (upd_elem x g f) = m_fifo_first f"
  "m_fifo_last (upd_elem x g f) = m_fifo_last f" "m_lastPushed (upd_elem x g f) = m_lastPushed f"
  "m_readers (upd_elem x g f) = m_readers f" "m_readerBitMask (upd_elem x g f) = m_readerBitMask f"
  by (simp_all add: upd_elem_def)

lemma elem_next_simps [simp]:
  "elem_next (f\<lparr>m_unused := p\<rparr>) = elem_next f" "elem_next (f\<lparr>m_allocated := p\<rparr>) = elem_next f"
  "elem_next (f\<lparr>m_fifo_first := p\<rparr>) = elem_next f" "elem_next (f\<lparr>m_fifo_last := p\<rparr>) = elem_next f"
  "elem_next (f\<lparr>m_lastPushed := d\<rparr>) = elem_next f" "elem_next (f\<lparr>m_readers := r\<rparr>) = elem_next f"
  "elem_next (f\<lparr>m_readerBitMask := b\<rparr>) = elem_next f"
  "elem_next (upd_elem x g f) = (elem_next f)(x := c_next (g (f_chain f x)))"
  by (rule ext, simp add: elem_next_def)+

lemma put_unused_simps [simp]:
  "f_chain (put_unused x f) = (f_chain f)(x := (f_chain f x)\<lparr>c_next := m_unused f\<rparr>)"
  "f_readers (put_unused x f) = f_readers f" "m_unused (put_unused x f) = Some x"
  "m_allocated (put_unused x f) = m_allocated f" "m_fifo_first (put_unused x f) = m_fifo_first f"
  "m_fifo_last (put_unused x f) = m_fifo_last f" "m_lastPushed (put_unused x f) = m_lastPushed f"
  "m_readers (put_unused x f) = m_readers f" "m_readerBitMask (put_unused x f) = m_readerBitMask f"
  "elem_next (put_unused x f) = (elem_next f)(x := m_unused f)"
  by (simp_all add: put_unused_def)

lemma clear_bit_simps [simp]:
  "c_next (clear_bit i c) = c_next c" "c_data (clear_bit i c) = c_data c"
  "expectedReads (clear_bit i c) = expectedReads c AND NOT i"
  by (simp_all add: clear_bit_def)

lemma elem_next_same [simp]: "(elem_next f)(x := c_next (f_chain f x)) = elem_next f"
  by (rule ext) (simp add: elem_next_def)

section \<open>The initial FIFO\<close>

lemma add_unused_rep:
  "fold (add_unused sz) [0..<n] f0 = f \<Longrightarrow> m_unused f0 = None \<Longrightarrow>
    chain (elem_next f) (m_unused f) (rev [0..<n]) \<and> (\<forall>x. x < n \<longrightarrow> c_data (f_chain f x) = sz * x) \<and>
    m_allocated f = m_allocated f0 \<and> m_fifo_first f = m_fifo_first f0 \<and> m_fifo_last f = m_fifo_last f0 \<and>
    m_readers f = m_readers f0 \<and> m_readerBitMask f = m_readerBitMask f0"
proof (induction n arbitrary: f)
  case 0
  then show ?case by auto
next
  case (Suc n)
  define g where "g = fold (add_unused sz) [0..<n] f0"
  have f: "f = add_unused sz n g" using Suc.prems(1) by (simp add: g_def)
  have n: "n \<notin> set (rev [0..<n])" by simp
  note IH = Suc.IH [OF g_def [symmetric] Suc.prems(2)]
  have nx: "elem_next f = (elem_next g)(n := m_unused g)" "m_unused f = Some n" by (simp_all add: f add_unused_def)
  have "chain (elem_next f) (m_unused f) (rev [0..<Suc n])"
    using IH seg_upd_other [OF n, of "elem_next g" "m_unused g" "m_unused g" None] by (simp add: nx)
  moreover have "\<forall>x. x < Suc n \<longrightarrow> c_data (f_chain f x) = sz * x"
    using IH by (auto simp: f add_unused_def less_Suc_eq)
  moreover have "m_allocated f = m_allocated f0 \<and> m_fifo_first f = m_fifo_first f0 \<and>
      m_fifo_last f = m_fifo_last f0 \<and> m_readers f = m_readers f0 \<and> m_readerBitMask f = m_readerBitMask f0"
    using IH by (simp add: f add_unused_def)
  ultimately show ?case by blast
qed

lemma queue_rep_init: "queue_rep sz n (gf_init sz n tasks) (rev [0..<n], [], [])"
proof -
  define f0 where "f0 = \<lparr>f_chain = (\<lambda>_. \<lparr>c_next = None, c_data = 0, expectedReads = 0\<rparr>),
        f_readers = (\<lambda>r. reader_init (tasks r)), m_unused = None, m_allocated = None,
        m_fifo_first = None, m_fifo_last = None, m_lastPushed = None, m_readers = None,
        m_readerBitMask = 1\<rparr>"
  have "gf_init sz n tasks = fold (add_unused sz) [0..<n] f0" by (simp add: gf_init_def f0_def)
  from add_unused_rep [OF this [symmetric]] show ?thesis
    by (auto simp: queue_rep_def queue_shape_def f0_def)
qed

section \<open>Unlinking an allocated element\<close>

fun prev_of :: "(elem_id \<Rightarrow> bool) \<Rightarrow> elem_id list \<Rightarrow> elem_id option" where
  "prev_of P (y # x # xs) = (if P x then Some y else prev_of P (x # xs))"
| "prev_of P xs = None"

lemma prev_loop:
  "chain (elem_next f) (Some y) (y # xs) \<Longrightarrow>
    bindR (for_ptr (\<lambda>result x. elem_next f x \<noteq> None \<and> result = None) (\<lambda>result x. elem_next f x)
      (\<lambda>x result. deref (elem_next f x) (\<lambda>z. Inr (if c_data (f_chain f z) = d then Some x else result)))
      (Some y) None) (\<lambda>(_, result). Inr result) =
    Inr (prev_of (\<lambda>x. c_data (f_chain f x) = d) (y # xs))"
proof (induction xs arbitrary: y)
  case Nil
  then show ?case by (simp add: for_ptr_Some)
next
  case (Cons x xs)
  then have n: "elem_next f y = Some x" "chain (elem_next f) (Some x) (x # xs)" by auto
  show ?case
  proof (cases "c_data (f_chain f x) = d")
    case True
    then show ?thesis by (simp add: for_ptr_Some n(1))
  next
    case False
    then show ?thesis using Cons.IH [OF n(2)] by (subst for_ptr_Some) (simp add: n(1))
  qed
qed

lemma findPrevious_eq:
  assumes "chain (elem_next f) (m_allocated f) (h # xs)" and "c_data (f_chain f h) \<noteq> d"
  shows "gf_findPrevious d f = Inr (prev_of (\<lambda>x. c_data (f_chain f x) = d) (h # xs))"
proof -
  have "m_allocated f = Some h" "chain (elem_next f) (Some h) (h # xs)" using assms(1) by auto
  then show ?thesis using assms(2) prev_loop by (simp add: gf_findPrevious_def)
qed

lemma prev_of_find:
  "\<not> P h \<Longrightarrow> case find P (h # xs) of
     None \<Rightarrow> prev_of P (h # xs) = None
   | Some x \<Rightarrow> \<exists>A y B. h # xs = A @ y # x # B \<and> prev_of P (h # xs) = Some y"
proof (induction xs arbitrary: h)
  case (Cons x xs)
  show ?case
  proof (cases "P x")
    case True
    have "h # x # xs = [] @ h # x # xs" by simp
    then show ?thesis using True Cons.prems by (simp del: append_Nil) blast
  next
    case False
    from Cons.IH [OF False] have "case find P (x # xs) of None \<Rightarrow> prev_of P (x # xs) = None
       | Some z \<Rightarrow> \<exists>A y B. x # xs = A @ y # z # B \<and> prev_of P (x # xs) = Some y" .
    then show ?thesis using False Cons.prems
      by (auto split: option.splits) (metis append_Cons)
  qed
qed simp

text \<open>\<open>y\<close> is linked to the element behind \<open>x\<close>.\<close>

lemma chain_unlink:
  assumes "chain h p (A @ y # x # B)"
  shows "chain (h(y := h x)) p (A @ y # B)" "h y = Some x"
  using assms chain_distinct [OF assms] by (auto simp: seg_append)

lemma find_split: "find P xs = Some x \<Longrightarrow> x \<in> set xs \<and> P x"
  by (auto simp: find_Some_iff)

lemma remove1_middle: "distinct (A @ y # x # B) \<Longrightarrow> remove1 x (A @ y # x # B) = A @ y # B"
  by (simp add: remove1_append)

section \<open>The abstract FIFO\<close>

datatype fifo_call = Allocate | Release data_ptr | Push data_ptr | Pop | Empty
datatype fifo_answer = Data "data_ptr option" | Flag bool | Done

type_synonym fifo_lists = "elem_id list \<times> elem_id list \<times> elem_id list"

definition allocated_at :: "nat \<Rightarrow> data_ptr \<Rightarrow> elem_id list \<Rightarrow> elem_id option" where
  "allocated_at sz d al = find (\<lambda>x. sz * x = d) al"

fun spec_call :: "nat \<Rightarrow> fifo_call \<Rightarrow> fifo_lists \<Rightarrow> fifo_lists \<times> fifo_answer" where
  "spec_call sz Allocate (us, al, q) =
     (case us of [] \<Rightarrow> ((us, al, q), Data None) | x # us' \<Rightarrow> ((us', x # al, q), Data (Some (sz * x))))"
| "spec_call sz (Release d) (us, al, q) =
     (case allocated_at sz d al of None \<Rightarrow> ((us, al, q), Done) | Some x \<Rightarrow> ((x # us, remove1 x al, q), Done))"
| "spec_call sz (Push d) (us, al, q) =
     (case allocated_at sz d al of
        None \<Rightarrow> ((us, al, q), Flag False) | Some x \<Rightarrow> ((us, remove1 x al, q @ [x]), Flag True))"
| "spec_call sz Pop (us, al, q) =
     (case q of [] \<Rightarrow> ((us, al, q), Data None) | x # q' \<Rightarrow> ((us, x # al, q'), Data (Some (sz * x))))"
| "spec_call sz Empty (us, al, q) = ((us, al, q), Flag (q = []))"

fun fifo_step :: "fifo_call \<Rightarrow> fifo \<Rightarrow> (fifo \<times> fifo_answer) res" where
  "fifo_step Allocate f = (case gf_allocate f of (f', d) \<Rightarrow> Inr (f', Data d))"
| "fifo_step (Release d) f = bindR (gf_release d 1 f) (\<lambda>f'. Inr (f', Done))"
| "fifo_step (Push d) f = bindR (gf_push d f) (\<lambda>(f', b). Inr (f', Flag b))"
| "fifo_step Pop f = (case gf_pop f of (f', d) \<Rightarrow> Inr (f', Data d))"
| "fifo_step Empty f = Inr (f, Flag (gf_isEmpty f))"

section \<open>Each operation implements its abstract call\<close>

lemma queue_shapeD:
  assumes "queue_shape sz n f (us, al, q)"
  shows "chain (elem_next f) (m_unused f) us" "chain (elem_next f) (m_allocated f) al" "chain (elem_next f) (m_fifo_first f) q"
    "m_fifo_last f = lastp q" "distinct (us @ al @ q)"
    "\<And>x. x \<in> set us \<union> set al \<union> set q \<Longrightarrow> c_data (f_chain f x) = sz * x"
    "\<And>x. x \<in> set al \<Longrightarrow> expectedReads (f_chain f x) = 1"
  using assms by (auto simp: queue_shape_def)

lemma queue_repD:
  assumes "queue_rep sz n f (us, al, q)"
  shows "queue_shape sz n f (us, al, q)" "m_readers f = None" "m_readerBitMask f = 1"
    "\<And>x. x \<in> set q \<Longrightarrow> expectedReads (f_chain f x) = 1"
  using assms by (auto simp: queue_rep_def)

abbreviation writer_ok :: "nat \<Rightarrow> nat \<Rightarrow> fifo_call \<Rightarrow> fifo \<Rightarrow> fifo_lists \<Rightarrow> bool" where
  "writer_ok sz n c f s \<equiv> \<exists>f'. fifo_step c f = Inr (f', snd (spec_call sz c s)) \<and>
     queue_shape sz n f' (fst (spec_call sz c s)) \<and> writer_keeps f f' (snd (snd s)) (snd (snd (fst (spec_call sz c s))))"

lemma writer_keeps_refl [simp]: "writer_keeps f f q q"
  by (simp add: writer_keeps_def)

lemma allocate_shape:
  assumes r: "queue_shape sz n f (us, al, q)"
  shows "writer_ok sz n Allocate f (us, al, q)"
proof (cases us)
  case Nil
  then have "m_unused f = None" using queue_shapeD(1) [OF r] by simp
  then show ?thesis using r Nil by (simp add: gf_allocate_def)
next
  case (Cons x us')
  then have m: "m_unused f = Some x" and c: "chain (elem_next f) (elem_next f x) us'" using queue_shapeD(1) [OF r] by auto
  have d: "x \<notin> set us'" "x \<notin> set al" "x \<notin> set q" using queue_shapeD(5) [OF r] Cons by auto
  obtain f' where f': "gf_allocate f = (f', Some (c_data (f_chain f x)))" "queue_shape sz n f' (us', x # al, q)" "writer_keeps f f' q q"
    using r c d unfolding queue_shape_def writer_keeps_def by (auto simp: gf_allocate_def m Let_def Cons)
  then show ?thesis using queue_shapeD(6) [OF r, of x] Cons by auto
qed

lemma pop_rep:
  assumes r: "queue_rep sz n f (us, al, q)" and a: "gf_pop f = (f', d)"
  shows "queue_rep sz n f' (fst (spec_call sz Pop (us, al, q))) \<and>
    Data d = snd (spec_call sz Pop (us, al, q))"
proof (cases q)
  case Nil
  then have "m_fifo_first f = None" using queue_shapeD(3) [OF queue_repD(1) [OF r]] by simp
  then show ?thesis using a r Nil by (auto simp: gf_pop_def)
next
  case (Cons x q')
  note D = queue_shapeD [OF queue_repD(1) [OF r]]
  have m: "m_fifo_first f = Some x" and c: "chain (elem_next f) (elem_next f x) q'" using D(3) Cons by auto
  have d: "x \<notin> set us" "x \<notin> set al" "x \<notin> set q'" using D(5) Cons by auto
  have e: "elem_next f x = None \<longleftrightarrow> q' = []" by (rule chain_empty_iff [OF c])
  have "queue_rep sz n f' (us, x # al, q') \<and> d = Some (c_data (f_chain f x))"
    using a r c d e unfolding queue_rep_def queue_shape_def
    by (cases "q' = []") (auto simp: gf_pop_def m Let_def Cons lastp_Cons)
  then show ?thesis using D(6) [of x] Cons by simp
qed

text \<open>What the search for allocated data finds.\<close>

lemma allocated_find:
  assumes r: "queue_shape sz n f (us, al, q)"
  shows "find (\<lambda>x. c_data (f_chain f x) = d) al = allocated_at sz d al"
  unfolding allocated_at_def using queue_shapeD(6) [OF r] by (intro find_cong) auto

lemma unlink_shape:
  assumes r: "queue_shape sz n f (us, al, q)"
  shows "case allocated_at sz d al of
     None \<Rightarrow> gf_unlink d f = Inr (f, None)
   | Some x \<Rightarrow> x \<in> set al \<and> (\<exists>f'. gf_unlink d f = Inr (f', Some x) \<and>
       chain (elem_next f') (m_unused f') us \<and> chain (elem_next f') (m_allocated f') (remove1 x al) \<and>
       chain (elem_next f') (m_fifo_first f') q \<and> m_fifo_last f' = lastp q \<and> m_readers f' = m_readers f \<and>
       f_readers f' = f_readers f \<and> m_readerBitMask f' = m_readerBitMask f \<and>
       (\<forall>y. c_data (f_chain f' y) = c_data (f_chain f y) \<and> expectedReads (f_chain f' y) = expectedReads (f_chain f y)))"
proof (cases al)
  case Nil
  then have "m_allocated f = None" using queue_shapeD(2) [OF r] by simp
  then show ?thesis by (simp add: gf_unlink_def allocated_at_def Nil)
next
  case (Cons h al')
  let ?P = "\<lambda>x. c_data (f_chain f x) = d"
  have m: "m_allocated f = Some h" and c: "chain (elem_next f) (m_allocated f) (h # al')"
    using queue_shapeD(2) [OF r] Cons by auto
  note f = allocated_find [OF r, of d, symmetric]
  note D = queue_shapeD [OF r]
  show ?thesis
  proof (cases "?P h")
    case True
    then show ?thesis unfolding f using c D(1,3,4) m by (simp add: Cons gf_unlink_def)
  next
    case False
    note p = prev_of_find [of ?P, OF False, of al']
    have u: "gf_unlink d f = (case prev_of ?P al of None \<Rightarrow> Inr (f, None)
        | Some p \<Rightarrow> deref (elem_next f p) (\<lambda>x. Inr (upd_elem p (\<lambda>c. c\<lparr>c_next := elem_next f x\<rparr>) f, Some x)))"
      using False m findPrevious_eq [OF c False] by (simp add: gf_unlink_def Cons)
    show ?thesis
    proof (cases "find ?P al")
      case None
      then show ?thesis unfolding f using p u by (simp add: Cons)
    next
      case (Some x)
      then obtain A y B where l: "al = A @ y # x # B" "prev_of ?P al = Some y" using p Cons by auto
      have ch: "chain (elem_next f) (m_allocated f) (A @ y # x # B)" using D(2) l by simp
      have d: "y \<notin> set us" "y \<notin> set q" "distinct al" using D(5) l by auto
      have "remove1 x al = A @ y # B" unfolding l(1) by (rule remove1_middle) (use d(3) l in simp)
      then show ?thesis unfolding f using chain_unlink [OF ch] D(1,3,4) d(1,2) l u Some by simp
    qed
  qed
qed

lemma append_rep:
  assumes us: "chain (elem_next f) (m_unused f) us" "chain (elem_next f) (m_allocated f) al"
    and q: "chain (elem_next f) (m_fifo_first f) q" "m_fifo_last f = lastp q"
    and x: "x \<notin> set us" "x \<notin> set al" "x \<notin> set q" and d: "distinct (us @ al @ q)"
  shows "\<exists>f'. gf_append x d' f = Inr f' \<and> chain (elem_next f') (m_unused f') us \<and> chain (elem_next f') (m_allocated f') al \<and>
    chain (elem_next f') (m_fifo_first f') (q @ [x]) \<and> m_fifo_last f' = Some x \<and> m_readers f' = m_readers f \<and>
    f_readers f' = f_readers f \<and> m_readerBitMask f' = m_readerBitMask f \<and> (\<forall>y. c_data (f_chain f' y) = c_data (f_chain f y)) \<and>
    (\<forall>y. expectedReads (f_chain f' y) = (if y = x then ucast (m_readerBitMask f) else expectedReads (f_chain f y)))"
proof (cases q rule: rev_cases)
  case Nil
  then have "m_fifo_first f = None" using q(1) by simp
  then show ?thesis using us x Nil by (simp add: gf_append_def gf_isEmpty_def)
next
  case (snoc q0 l)
  have c: "chain (elem_next f) (m_fifo_first f) (q0 @ [l])" and l: "m_fifo_last f = Some l" using q snoc by auto
  have ne: "m_fifo_first f \<noteq> None" using chain_empty_iff [OF c] by simp
  have dl: "l \<notin> set us" "l \<notin> set al" "l \<notin> set q0" "l \<noteq> x" "x \<notin> set q0" using d x snoc by auto
  then show ?thesis using us x c ne l
    by (simp add: gf_append_def gf_isEmpty_def snoc seg_append)
qed

lemma push_shape:
  assumes r: "queue_shape sz n f (us, al, q)"
  shows "writer_ok sz n (Push d) f (us, al, q)"
proof (cases "allocated_at sz d al")
  case None
  then have "gf_unlink d f = Inr (f, None)" using unlink_shape [OF r, of d] by simp
  then show ?thesis using r None by (simp add: gf_push_def)
next
  case (Some x)
  then obtain f1 where x: "x \<in> set al" and f1: "gf_unlink d f = Inr (f1, Some x)"
    "chain (elem_next f1) (m_unused f1) us" "chain (elem_next f1) (m_allocated f1) (remove1 x al)"
    "chain (elem_next f1) (m_fifo_first f1) q" "m_fifo_last f1 = lastp q" "m_readers f1 = m_readers f"
    "f_readers f1 = f_readers f" "m_readerBitMask f1 = m_readerBitMask f"
    "\<forall>y. c_data (f_chain f1 y) = c_data (f_chain f y) \<and> expectedReads (f_chain f1 y) = expectedReads (f_chain f y)"
    using unlink_shape [OF r, of d] by auto
  have d: "distinct (us @ al @ q)" by (rule queue_shapeD(5) [OF r])
  then have nx: "x \<notin> set us" "x \<notin> set (remove1 x al)" "x \<notin> set q" "distinct (us @ remove1 x al @ q)"
    using x by (auto dest: notin_set_remove1)
  from append_rep [OF f1(2-5) nx, of d] obtain f' where f': "gf_append x d f1 = Inr f'"
    "chain (elem_next f') (m_unused f') us" "chain (elem_next f') (m_allocated f') (remove1 x al)"
    "chain (elem_next f') (m_fifo_first f') (q @ [x])" "m_fifo_last f' = Some x" "m_readers f' = m_readers f"
    "f_readers f' = f_readers f" "m_readerBitMask f' = m_readerBitMask f"
    "\<forall>y. c_data (f_chain f' y) = c_data (f_chain f y)"
    "\<forall>y. expectedReads (f_chain f' y) = (if y = x then ucast (m_readerBitMask f) else expectedReads (f_chain f y))"
    using f1(6-9) by auto
  have "set us \<union> set (remove1 x al) \<union> set (q @ [x]) = {..<n}"
    using r x d by (auto simp: queue_shape_def)
  then have "queue_shape sz n f' (us, remove1 x al, q @ [x])"
    using f'(2-5,9,10) r nx d x unfolding queue_shape_def by (auto dest: notin_set_remove1 in_set_remove1)
  moreover have "writer_keeps f f' q (q @ [x])" using f'(6-8,10) nx(3) by (auto simp: writer_keeps_def)
  ultimately show ?thesis using Some f1(1) f'(1) by (auto simp: gf_push_def)
qed

lemma release_shape:
  assumes r: "queue_shape sz n f (us, al, q)"
  shows "writer_ok sz n (Release d) f (us, al, q)"
proof (cases al)
  case Nil
  then have "m_allocated f = None" using queue_shapeD(2) [OF r] by simp
  then show ?thesis using r Nil by (simp add: gf_release_def allocated_at_def)
next
  case (Cons h al')
  let ?P = "\<lambda>x. c_data (f_chain f x) = d"
  have m: "m_allocated f = Some h" and c: "chain (elem_next f) (m_allocated f) (h # al')"
    using queue_shapeD(2) [OF r] Cons by auto
  note f = allocated_find [OF r, of d, symmetric]
  note D = queue_shapeD [OF r]
  show ?thesis
  proof (cases "?P h")
    case True
    let ?f = "upd_elem h (clear_bit 1) f"
    let ?f' = "put_unused h (?f\<lparr>m_allocated := elem_next ?f h\<rparr>)"
    have h: "h \<notin> set us" "h \<notin> set al'" "h \<notin> set q" using D(5) Cons by auto
    have "gf_release d 1 f = Inr ?f'"
      using True m D(7) [of h] Cons by (simp add: gf_release_def Let_def)
    moreover have "queue_shape sz n ?f' (h # us, al', q)" "writer_keeps f ?f' q q"
      using r c h unfolding queue_shape_def writer_keeps_def by (auto simp: Cons)
    ultimately show ?thesis using f True by (simp add: Cons)
  next
    case False
    note p = prev_of_find [of ?P, OF False, of al']
    have u: "gf_findPrevious d f = Inr (prev_of ?P al)"
      using findPrevious_eq [OF c False] by (simp add: Cons)
    show ?thesis
    proof (cases "find ?P al")
      case None
      then show ?thesis using p u r False m f by (simp add: gf_release_def Cons)
    next
      case (Some x)
      then obtain A y B where l: "al = A @ y # x # B" "prev_of ?P al = Some y" using p Cons by auto
      let ?f = "upd_elem x (clear_bit 1) f"
      let ?f' = "put_unused x (upd_elem y (\<lambda>c. c\<lparr>c_next := elem_next ?f x\<rparr>) ?f)"
      have ch: "chain (elem_next f) (m_allocated f) (A @ y # x # B)" using D(2) l by simp
      note cu = chain_unlink [OF ch]
      have d: "y \<notin> set us" "y \<notin> set q" "x \<notin> set us" "x \<notin> set q" "x \<noteq> y" "x \<notin> set A" "x \<notin> set B"
        using D(5) l by auto
      have "gf_release d 1 f = Inr ?f'"
        using False m u l cu(2) D(7) [of x] by (simp add: gf_release_def Let_def)
      moreover have "queue_shape sz n ?f' (x # us, A @ y # B, q)" "writer_keeps f ?f' q q"
        using r cu d l(1) unfolding queue_shape_def writer_keeps_def by (auto simp: seg_append)
      moreover have "remove1 x al = A @ y # B" unfolding l(1) by (rule remove1_middle) (use D(5) l in auto)
      ultimately show ?thesis using f Some by simp
    qed
  qed
qed

text \<open>The writer, whatever readers there are.\<close>

lemma writer_shape:
  assumes "queue_shape sz n f (us, al, q)" and "c \<noteq> Pop"
  shows "writer_ok sz n c f (us, al, q)"
  using assms allocate_shape push_shape release_shape chain_empty_iff [OF queue_shapeD(3) [OF assms(1)]]
  by (cases c) (auto simp: gf_isEmpty_def)

lemma fifo_step_rep:
  "queue_rep sz n f s \<Longrightarrow> \<exists>f'. fifo_step c f = Inr (f', snd (spec_call sz c s)) \<and>
    queue_rep sz n f' (fst (spec_call sz c s))"
proof (cases s)
  case (fields us al q)
  assume "queue_rep sz n f s"
  then have r: "queue_rep sz n f (us, al, q)" by (simp add: fields)
  show ?thesis unfolding fields
  proof (cases "c = Pop")
    case True
    then show "\<exists>f'. fifo_step c f = Inr (f', snd (spec_call sz c (us, al, q))) \<and>
        queue_rep sz n f' (fst (spec_call sz c (us, al, q)))"
      using pop_rep [OF r] by (cases "gf_pop f") (simp del: spec_call.simps)
  next
    case False
    note D = queue_repD [OF r]
    obtain f' where f': "fifo_step c f = Inr (f', snd (spec_call sz c (us, al, q)))"
      "queue_shape sz n f' (fst (spec_call sz c (us, al, q)))"
      "writer_keeps f f' q (snd (snd (fst (spec_call sz c (us, al, q)))))"
      using writer_shape [OF D(1) False] by auto
    then have "queue_rep sz n f' (fst (spec_call sz c (us, al, q)))"
      using D(2-4) by (auto simp: queue_rep_def writer_keeps_def)
    then show "\<exists>f'. fifo_step c f = Inr (f', snd (spec_call sz c (us, al, q))) \<and>
        queue_rep sz n f' (fst (spec_call sz c (us, al, q)))" using f'(1) by blast
  qed
qed

section \<open>Sequences of calls\<close>

fun run_fifo :: "fifo_call list \<Rightarrow> fifo \<Rightarrow> fifo_answer list res" where
  "run_fifo [] f = Inr []"
| "run_fifo (c # cs) f = bindR (fifo_step c f) (\<lambda>(f', a). bindR (run_fifo cs f') (\<lambda>as. Inr (a # as)))"

fun run_spec :: "nat \<Rightarrow> fifo_call list \<Rightarrow> fifo_lists \<Rightarrow> fifo_answer list" where
  "run_spec sz [] s = []"
| "run_spec sz (c # cs) s = snd (spec_call sz c s) # run_spec sz cs (fst (spec_call sz c s))"

lemma run_fifo_rep: "queue_rep sz n f s \<Longrightarrow> run_fifo cs f = Inr (run_spec sz cs s)"
proof (induction cs arbitrary: f s)
  case (Cons c cs)
  obtain f' where "fifo_step c f = Inr (f', snd (spec_call sz c s))" "queue_rep sz n f' (fst (spec_call sz c s))"
    using fifo_step_rep [OF Cons.prems] by blast
  with Cons.IH show ?case by simp
qed simp

text \<open>C11: A FIFO channel without readers, of any number of elements, answers every sequence of allocations,
  pushes, pops and releases - with data pointers that are allocated or not - like three lists of its
  elements: the data popped are those pushed, in the order of the pushes, no element is lost, and no
  call meets a null pointer.\<close>
theorem fifo_refines_lists:
  "run_fifo cs (gf_init sz n tasks) = Inr (run_spec sz cs (rev [0..<n], [], []))"
  by (rule run_fifo_rep [OF queue_rep_init])

text \<open>The data that were pushed with success and those that \<^verbatim>\<open>pop\<close> returned.\<close>

fun pushed :: "fifo_call list \<Rightarrow> fifo_answer list \<Rightarrow> data_ptr list" where
  "pushed (Push d # cs) (Flag True # as) = d # pushed cs as"
| "pushed (c # cs) (a # as) = pushed cs as"
| "pushed cs as = []"

fun popped :: "fifo_call list \<Rightarrow> fifo_answer list \<Rightarrow> data_ptr list" where
  "popped (Pop # cs) (Data (Some d) # as) = d # popped cs as"
| "popped (c # cs) (a # as) = popped cs as"
| "popped cs as = []"

lemma spec_fifo:
  "\<exists>r. map ((*) sz) q @ pushed cs (run_spec sz cs (us, al, q)) = popped cs (run_spec sz cs (us, al, q)) @ r"
proof (induction cs arbitrary: us al q)
  case (Cons c cs)
  show ?case
  proof (cases c)
    case Allocate
    then show ?thesis using Cons.IH by (cases us) auto
  next
    case (Release d)
    then show ?thesis using Cons.IH by (cases "allocated_at sz d al") auto
  next
    case (Push d)
    show ?thesis
    proof (cases "allocated_at sz d al")
      case (Some x)
      then have "sz * x = d" by (auto simp: allocated_at_def find_Some_iff)
      then show ?thesis using Cons.IH [where q = "q @ [x]"] Push Some by simp
    qed (use Push Cons.IH in simp)
  next
    case Pop
    then show ?thesis using Cons.IH [where q = "[]"] Cons.IH by (cases q) auto
  next
    case Empty
    then show ?thesis using Cons.IH by auto
  qed
qed simp

text \<open>Whatever the application does, the data popped from a FIFO channel without readers are the first of
  those pushed, in the same order; the data not yet popped are \<open>r\<close>.\<close>
theorem fifo_first_in_first_out:
  "\<exists>as r. run_fifo cs (gf_init sz n tasks) = Inr as \<and> pushed cs as = popped cs as @ r"
  using spec_fifo [of sz "[]" cs "rev [0..<n]" "[]"] run_fifo_rep [OF queue_rep_init] by auto

end
