(* ===== verification/FifoReaders.thy ===== *)
theory FifoReaders
  imports FifoQueue
begin

text \<open>
  Readers of a FIFO: the bits by which they are told apart, and what goes wrong when a reader is
  released, when there are more readers than bits, and when popped data are not released in time.
\<close>

section \<open>The bits of the readers\<close>

lemma low_bit: "drop_bit 1 x AND 1 \<noteq> 0 \<longleftrightarrow> bit (x :: uint) 1"
  by (simp add: and_one_eq mod_2_eq_odd bit_iff_odd_drop_bit)

lemma free_bit_least:
  "(\<And>j. j < k \<Longrightarrow> bit tmp (Suc j)) \<Longrightarrow> \<not> bit tmp (Suc k) \<Longrightarrow> free_bit tmp i = push_bit k i"
proof (induction k arbitrary: tmp i)
  case 0
  then show ?case by (subst free_bit.simps) (simp only: low_bit, simp)
next
  case (Suc k)
  have b: "bit tmp 1" using Suc.prems(1) [of 0] by simp
  have "free_bit (drop_bit 1 tmp) (push_bit 1 i) = push_bit k (push_bit 1 i)"
    using Suc.prems by (intro Suc.IH) (simp_all add: bit_drop_bit_eq)
  then show ?case using b by (subst free_bit.simps) (simp only: low_bit, simp)
qed

text \<open>
  The mask of \<open>k\<close> associated readers, none of which has been released.
\<close>

lemma free_bit_mask: "k \<le> 8 \<Longrightarrow> 0 < k \<Longrightarrow> push_bit 1 (free_bit (ucast (mask k :: 8 word)) 1) = (push_bit k 1 :: uint)"
proof -
  assume k: "k \<le> 8" "0 < k"
  have "free_bit (ucast (mask k :: 8 word)) 1 = (push_bit (k - 1) 1 :: uint)"
    using k by (intro free_bit_least) (auto simp: bit_mask_iff bit_ucast_iff)
  then show ?thesis using k by (simp add: push_bit_eq_mult power_eq_if)
qed

definition readers_rep :: "fifo \<Rightarrow> reader_id list \<Rightarrow> elem_id list \<Rightarrow> bool" where
  "readers_rep f rs q \<longleftrightarrow>
     chain (\<lambda>r. nextReader (f_readers f r)) (m_readers f) rs \<and> chain (elem_next f) (m_fifo_first f) q \<and>
     m_readerBitMask f = mask (max 1 (length rs)) \<and>
     (\<forall>k. k < length rs \<longrightarrow> readerId (f_readers f (rev rs ! k)) = push_bit k 1 \<and> rd_fifo (f_readers f (rev rs ! k))) \<and>
     (\<forall>x\<in>set q. expectedReads (f_chain f x) = mask (max 1 (length rs)))"

lemma upd_reader_simps [simp]:
  "f_readers (upd_reader r g f) = (f_readers f)(r := g (f_readers f r))" "f_chain (upd_reader r g f) = f_chain f"
  "m_readers (upd_reader r g f) = m_readers f" "m_readerBitMask (upd_reader r g f) = m_readerBitMask f"
  "m_fifo_first (upd_reader r g f) = m_fifo_first f" "m_fifo_last (upd_reader r g f) = m_fifo_last f"
  "m_unused (upd_reader r g f) = m_unused f" "m_allocated (upd_reader r g f) = m_allocated f"
  "elem_next (upd_reader r g f) = elem_next f"
  by (simp_all add: upd_reader_def elem_next_def fun_eq_iff)

text \<open>The loop that makes the elements in the FIFO visible to the new reader.\<close>

abbreviation expect :: "uint \<Rightarrow> elem_id \<Rightarrow> fifo \<Rightarrow> fifo" where
  "expect i x \<equiv> upd_elem x (\<lambda>c. c\<lparr>expectedReads := expectedReads c OR i\<rparr>)"

lemma fold_expect:
  "f_readers (fold (expect i) q f) = f_readers f" "m_readers (fold (expect i) q f) = m_readers f"
  "m_readerBitMask (fold (expect i) q f) = m_readerBitMask f" "m_fifo_first (fold (expect i) q f) = m_fifo_first f"
  "elem_next (fold (expect i) q f) = elem_next f"
  by (induction q arbitrary: f) simp_all

lemma fold_expect_reads:
  "distinct q \<Longrightarrow> x \<in> set q \<Longrightarrow>
    expectedReads (f_chain (fold (expect i) q f) x) = expectedReads (f_chain f x) OR i"
proof (induction q arbitrary: f)
  case (Cons y q)
  have other: "z \<notin> set q \<Longrightarrow> f_chain (fold (expect i) q g) z = f_chain g z" for z g
    by (induction q arbitrary: g) auto
  show ?case using Cons other by (cases "x = y") auto
qed simp

lemma expect_loop:
  assumes "chain (elem_next f) p q"
  shows "bindR (for_ptr (\<lambda>_ _. True) (\<lambda>f x. elem_next f x) (\<lambda>x f. Inr (expect i x f)) p f) (\<lambda>(_, f'). Inr f') =
    Inr (fold (expect i) q f)"
  using for_ptr_fold [where n = elem_next and g = "\<lambda>_ _. True" and f = "expect i", OF assms]
  by (simp add: takeWhile_eq_all_conv [THEN iffD2])

lemma mask_Suc_or: "mask (Suc k) = (mask k OR push_bit k 1 :: 'a::len word)"
  by (rule bit_word_eqI) (auto simp: bit_simps)

lemma associate_step:
  assumes r: "readers_rep f rs q" and n: "r \<notin> set rs" "length rs < 8"
  shows "\<exists>f'. gf_associateReader r f = Inr f' \<and> readers_rep f' (r # rs) q"
proof -
  let ?k = "length rs"
  let ?i = "push_bit ?k 1 :: uint"
  have c: "chain (\<lambda>r. nextReader (f_readers f r)) (m_readers f) rs" and q: "chain (elem_next f) (m_fifo_first f) q"
    and m: "m_readerBitMask f = mask (max 1 ?k)" using r by (simp_all add: readers_rep_def)
  have search: "for_ptr (\<lambda>_ x. x \<noteq> r) (\<lambda>_ x. nextReader (f_readers f x)) (\<lambda>_. Inr) (m_readers f) () = Inr (None, ())"
  proof -
    have "find (\<lambda>x. \<not> x \<noteq> r) rs = None" using n(1) by (auto simp: find_None_iff)
    then show ?thesis using for_ptr_find [OF c, of "\<lambda>x. x \<noteq> r"] by simp
  qed
  have e: "m_readers f = None \<longleftrightarrow> rs = []" by (rule chain_empty_iff [OF c])
  have i: "(if m_readers f \<noteq> None then push_bit 1 (free_bit (ucast (m_readerBitMask f)) 1) else 1) = ?i"
    using free_bit_mask [of ?k] n(2) e m by (cases rs) (simp_all del: push_bit_Suc)
  let ?f1 = "upd_reader r (\<lambda>x. x\<lparr>nextReader := m_readers f\<rparr>) f"
  define g where "g = upd_reader r (\<lambda>x. x\<lparr>rd_fifo := True, readerId := ?i\<rparr>)
    ((upd_reader r (\<lambda>x. x\<lparr>nextReader := m_readers f\<rparr>) f)
      \<lparr>m_readerBitMask := mask (Suc ?k), m_readers := Some r\<rparr>)"
  define f' where "f' = fold (expect ?i) q g"
  have mk: "(if m_readers f \<noteq> None then ucast (ucast (m_readerBitMask f) OR ?i) else m_readerBitMask f) = mask (Suc ?k)"
  proof (cases rs)
    case (Cons a as)
    have "ucast (ucast (mask ?k :: 8 word) OR ?i) = (mask ?k OR push_bit ?k 1 :: 8 word)"
      using n(2) by (intro bit_word_eqI) (auto simp: bit_simps)
    then show ?thesis using e m Cons by (simp add: mask_Suc_or del: push_bit_Suc mask_Suc_exp)
  qed (use e m in simp)
  have f2: "(if m_readers f \<noteq> None then ?f1\<lparr>m_readerBitMask := ucast (ucast (m_readerBitMask f) OR ?i)\<rparr> else ?f1) =
      ?f1\<lparr>m_readerBitMask := mask (Suc ?k)\<rparr>"
    using mk by (cases "m_readers f") (auto simp: upd_reader_def)
  have gs: "m_fifo_first g = m_fifo_first f" "elem_next g = elem_next f" "f_chain g = f_chain f"
    "m_readers g = Some r" "m_readerBitMask g = mask (Suc ?k)"
    "f_readers g = (f_readers f)(r := (f_readers f r)\<lparr>nextReader := m_readers f, rd_fifo := True, readerId := ?i\<rparr>)"
    by (simp_all add: g_def elem_next_def fun_eq_iff)
  have "gf_associateReader r f = bindR (for_ptr (\<lambda>_ _. True) (\<lambda>f x. elem_next f x)
      (\<lambda>x f. Inr (expect ?i x f)) (m_fifo_first g) g) (\<lambda>(_, f'). Inr f')"
    unfolding gf_associateReader_def search bindR_Inr prod.case Let_def i f2 g_def by simp
  then have "gf_associateReader r f = Inr f'"
    using expect_loop [of g "m_fifo_first g" q ?i] q by (simp add: gs f'_def)
  moreover have "readers_rep f' (r # rs) q"
    unfolding readers_rep_def
  proof (intro conjI allI impI ballI)
    show "chain (\<lambda>x. nextReader (f_readers f' x)) (m_readers f') (r # rs)"
    proof -
      have "chain (\<lambda>x. nextReader (f_readers f' x)) (m_readers f) rs"
        using c n(1) by (subst seg_cong [where h' = "\<lambda>x. nextReader (f_readers f x)"])
          (auto simp: f'_def fold_expect gs)
      then show ?thesis by (simp add: f'_def fold_expect gs)
    qed
    show "chain (elem_next f') (m_fifo_first f') q" using q by (simp add: f'_def fold_expect gs)
    show "m_readerBitMask f' = mask (max 1 (length (r # rs)))" by (simp add: f'_def fold_expect gs)
  next
    fix k assume k: "k < length (r # rs)"
    have "k < ?k \<Longrightarrow> rev rs ! k \<noteq> r" using n(1) nth_mem [of k "rev rs"] by auto
    then show "readerId (f_readers f' (rev (r # rs) ! k)) = push_bit k 1"
      "rd_fifo (f_readers f' (rev (r # rs) ! k))"
      using k r by (auto simp: f'_def fold_expect gs readers_rep_def nth_append less_Suc_eq)
  next
    fix x assume x: "x \<in> set q"
    have "expectedReads (f_chain f' x) = expectedReads (f_chain f x) OR ?i"
      using fold_expect_reads [OF chain_distinct [OF q] x] by (simp add: f'_def gs)
    also have "expectedReads (f_chain f x) = mask (max 1 ?k)" using r x by (simp add: readers_rep_def)
    also have "mask (max 1 ?k) OR ?i = mask (Suc ?k)"
      by (cases rs) (simp_all add: mask_Suc_or del: push_bit_Suc mask_Suc_exp)
    finally show "expectedReads (f_chain f' x) = mask (max 1 (length (r # rs)))" by simp
  qed
  ultimately show ?thesis by blast
qed

fun associate_all :: "reader_id list \<Rightarrow> fifo \<Rightarrow> fifo res" where
  "associate_all [] f = Inr f"
| "associate_all (r # rs) f = bindR (gf_associateReader r f) (associate_all rs)"

lemma associate_all_rep:
  "readers_rep f us q \<Longrightarrow> distinct (rs @ us) \<Longrightarrow> length us + length rs \<le> 8 \<Longrightarrow>
    \<exists>f'. associate_all rs f = Inr f' \<and> readers_rep f' (rev rs @ us) q"
proof (induction rs arbitrary: f us)
  case (Cons r rs)
  then obtain f1 where f1: "gf_associateReader r f = Inr f1" "readers_rep f1 (r # us) q"
    using associate_step [of f us q r] by auto
  with Cons.IH [OF f1(2)] Cons.prems show ?case by simp
qed simp

lemma readers_rep_none: "queue_rep sz n f (us, al, q) \<Longrightarrow> readers_rep f [] q"
  by (auto simp: queue_rep_def queue_shape_def readers_rep_def)

text \<open>C29: Up to eight readers associated with a FIFO one after the other get a bit of their own each, the mask of
  the FIFO holds exactly these bits, and every element that is already in the FIFO waits for all of them.\<close>
theorem readers_own_bits:
  assumes "queue_rep sz n f (us, al, q)" and "distinct rs" and "rs \<noteq> []" and "length rs \<le> 8"
  shows "\<exists>f'. associate_all rs f = Inr f' \<and> m_readerBitMask f' = mask (length rs) \<and>
    (\<forall>k. k < length rs \<longrightarrow> readerId (f_readers f' (rs ! k)) = push_bit k 1) \<and>
    (\<forall>x\<in>set q. expectedReads (f_chain f' x) = mask (length rs))"
proof -
  obtain f' where f': "associate_all rs f = Inr f'" "readers_rep f' (rev rs) q"
    using associate_all_rep [OF readers_rep_none [OF assms(1)], of rs] assms(2,4) by auto
  have "max 1 (length rs) = length rs" using assms(3) by (cases rs) auto
  then show ?thesis using f' by (auto simp: readers_rep_def)
qed

theorem readers_own_bits_witness:
  "\<exists>f'. associate_all [4, 2] (gf_init 8 3 (\<lambda>r. r)) = Inr f' \<and> m_readerBitMask f' = 3"
  using readers_own_bits [OF queue_rep_init, of "[4, 2]" 8 3 "\<lambda>r. r"] by (auto simp: mask_eq_exp_minus_1)

section \<open>Faults\<close>

definition push_one :: "fifo \<Rightarrow> fifo res" where
  "push_one f = (case gf_allocate f of (f1, d) \<Rightarrow>
     deref d (\<lambda>d. bindR (gf_push d f1) (\<lambda>(f2, _). Inr f2)))"

lemma remove_reader_last: "remove_reader r f = Inr f' \<Longrightarrow> m_fifo_last f' = m_fifo_last f"
proof (cases "m_readers f = Some r")
  case False
  assume "remove_reader r f = Inr f'"
  then obtain p c where "for_ptr (\<lambda>_ _. True) (\<lambda>(f, current) _. nextReader (f_readers f current))
                    (\<lambda>x (f, _).
                       if nextReader (f_readers f x) = Some r
                       then Inr (upd_reader r (\<lambda>y. y\<lparr>nextReader := None\<rparr>)
                                  ((upd_reader x (\<lambda>y. y\<lparr>nextReader := nextReader (f_readers f r)\<rparr>) f)
                                     \<lparr>m_readerBitMask := ucast (ucast (m_readerBitMask f) AND
                                                               NOT (readerId (f_readers f r)))\<rparr>), r)
                       else Inr (f, x)) (m_readers f) (f, r) = Inr (p, f', c)"
    using False by (auto simp: remove_reader_def bindR_eq_Inr)
  then have "m_fifo_last (fst (f', c)) = m_fifo_last f"
    by (rule for_ptr_keeps) (auto simp: upd_reader_def split: if_splits)
  then show ?thesis by simp
qed (auto simp: remove_reader_def Let_def)

text \<open>C40: The release of a reader clears the pointer to the last element of the FIFO. When elements stay in the FIFO, because another
  reader has still to read them, the next element that is allocated cannot be pushed: the push reads through the pointer. This holds for
  every FIFO and every reader.\<close>
theorem release_reader_breaks_push:
  assumes "gf_releaseReader r f = Inr f1" and "\<not> gf_isEmpty f1" and "gf_allocate f1 = (f2, Some d)"
  shows "m_fifo_last f1 = None \<and> gf_push d f2 = Inl NullPointer"
proof -
  obtain g where "remove_reader r (upd_reader r (\<lambda>x. x\<lparr>rd_fifo := False\<rparr>) (g\<lparr>m_fifo_last := None\<rparr>)) = Inr f1"
    using assms(1) by (auto simp: gf_releaseReader_def bindR_eq_Inr Let_def)
  then have l: "m_fifo_last f1 = None" using remove_reader_last by (fastforce simp: upd_reader_def)
  obtain x where x: "m_allocated f2 = Some x" "c_data (f_chain f2 x) = d" "m_fifo_first f2 = m_fifo_first f1" "m_fifo_last f2 = None"
    using assms(3) l by (auto simp: gf_allocate_def upd_elem_def Let_def split: option.splits)
  then have "gf_push d f2 = bindR (gf_append x d (f2\<lparr>m_allocated := elem_next f2 x\<rparr>)) (\<lambda>f'. Inr (f', True))"
    by (simp add: gf_push_def gf_unlink_def)
  then show ?thesis using assms(2) x l by (simp add: gf_append_def gf_isEmpty_def upd_elem_def Let_def)
qed

text \<open>Readers 2 and 3, one element; reader 2 is released.\<close>

theorem release_reader_breaks_push_witness:
  "\<exists>f f1 f2 d. bindR (associate_all [2, 3] (gf_init 8 4 (\<lambda>r. r))) push_one = Inr f \<and>
     gf_releaseReader 2 f = Inr f1 \<and> gf_allocate f1 = (f2, Some d) \<and> gf_push d f2 = Inl NullPointer"
proof -
  let ?r = "bindR (associate_all [2, 3] (gf_init 8 4 (\<lambda>r. r))) (\<lambda>f. bindR (push_one f) (gf_releaseReader 2))"
  have "(case ?r of Inl _ \<Rightarrow> False | Inr f1 \<Rightarrow> \<not> gf_isEmpty f1 \<and> snd (gf_allocate f1) \<noteq> None)" by code_simp
  then obtain f f1 f2 d where "bindR (associate_all [2, 3] (gf_init 8 4 (\<lambda>r. r))) push_one = Inr f"
    "gf_releaseReader 2 f = Inr f1" "\<not> gf_isEmpty f1" "gf_allocate f1 = (f2, Some d)"
    by (cases ?r) (auto simp: bindR_eq_Inr, metis prod.collapse)
  then show ?thesis using release_reader_breaks_push by blast
qed

text \<open>The mask of the readers has eight bits: the ninth reader never sees an element that is pushed after it
  was associated, and its task fails an assertion when it is started for the element.\<close>
theorem ninth_reader_blind:
  "bindR (associate_all [1, 2, 3, 4, 5, 6, 7, 8, 9] (gf_init 8 4 (\<lambda>r. r))) (\<lambda>f. bindR (push_one f) (\<lambda>f.
     bindR (gf_synchronize 9 1 f) (\<lambda>f. Inr (m_fifo_first f)))) = Inl AssertFailed"
  by code_simp

text \<open>A reader that has popped an element and not released it before its task starts again pops the same
  element again, and not the one that started the task.\<close>
theorem reader_redelivers:
  "bindR (associate_all [2] (gf_init 8 4 (\<lambda>r. r))) (\<lambda>f. bindR (push_one f) (\<lambda>f. bindR (gf_synchronize 2 1 f) (\<lambda>f.
     bindR (rd_pop 2 f) (\<lambda>(f, d1). bindR (push_one f) (\<lambda>f. bindR (gf_synchronize 2 1 f) (\<lambda>f.
     bindR (rd_pop 2 f) (\<lambda>(f, d2). Inr (d1 = d2, d1 = None)))))))) = Inr (True, False)"
  by code_simp

end
