(* ===== verification/FifoReaderLists.thy ===== *)
theory FifoReaderLists
  imports FifoReaders
begin

text \<open>
  A FIFO with up to eight readers represents lists: the unused elements, the allocated ones, those in
  the FIFO, and for each reader those it has popped and not released, those it has still to pop, and
  how many of these its task was started for. This theory has the lists, the representation and the
  calls that do not give elements back.
\<close>

section \<open>Releasing an element\<close>

text \<open>The search for the element before \<open>x\<close>.\<close>

lemma before_loop:
  assumes ch: "chain h p (A @ y # x # B)" and d: "y \<noteq> x" "x \<notin> set A"
  shows "for_ptr (\<lambda>_ z. h z \<noteq> Some x) (\<lambda>_ z. h z) (\<lambda>_. Inr) p () = Inr (Some y, ())"
proof -
  have "h z \<noteq> Some x" if z: "z \<in> set A" for z
  proof
    assume n: "h z = Some x"
    from z obtain C E where A: "A = C @ z # E" by (auto simp: in_set_conv_decomp)
    with ch n have "chain h (Some x) (E @ y # x # B)" by (auto simp: seg_append)
    then show False using d A by (cases E) auto
  qed
  then have "find (\<lambda>z. \<not> h z \<noteq> Some x) (A @ y # x # B) = Some y"
    using chain_unlink(2) [OF ch] by (intro find_first) auto
  then show ?thesis using for_ptr_find [OF ch, of "\<lambda>z. h z \<noteq> Some x"] by simp
qed

lemma releaseElement_shape:
  assumes r: "queue_shape sz n f (us, al, A @ x # B)"
  shows "\<exists>f'. gf_releaseElement (Some x) i f = Inr f' \<and> m_readers f' = m_readers f \<and> f_readers f' = f_readers f \<and>
    m_readerBitMask f' = m_readerBitMask f \<and>
    (\<forall>y. expectedReads (f_chain f' y) = (if y = x then expectedReads (f_chain f x) AND NOT i else expectedReads (f_chain f y))) \<and>
    queue_shape sz n f' (if expectedReads (f_chain f x) AND NOT i = 0 then (x # us, al, A @ B) else (us, al, A @ x # B))"
proof (cases "expectedReads (f_chain f x) AND NOT i = 0")
  case False
  let ?f' = "upd_elem x (clear_bit i) f"
  note D = queue_shapeD [OF r]
  have "m_fifo_first f \<noteq> None" using chain_empty_iff [OF D(3)] by simp
  then have "gf_releaseElement (Some x) i f = Inr ?f'" using False by (simp add: gf_releaseElement_def)
  moreover have "queue_shape sz n ?f' (us, al, A @ x # B)" using r D(5) by (auto simp: queue_shape_def)
  ultimately show ?thesis using False by simp
next
  case e: True
  note D = queue_shapeD [OF r]
  have d: "x \<notin> set us" "x \<notin> set al" "x \<notin> set A" "x \<notin> set B" using D(5) by auto
  show ?thesis
  proof (cases A rule: rev_cases)
    case Nil
    then have c: "m_fifo_first f = Some x" "chain (elem_next f) (elem_next f x) B" using D(3) by auto
    have l: "m_fifo_last f = Some x \<longleftrightarrow> B = []" using D(4) Nil d(4) lastp_in_set [of B x] by (auto simp: lastp_Cons)
    have s: "{..<n} = insert x (set us \<union> set al \<union> set B)" using r Nil by (auto simp: queue_shape_def)
    show ?thesis using r c l d e s unfolding queue_shape_def
      by (cases "B = []") (auto simp: gf_releaseElement_def Let_def Nil lastp_Cons)
  next
    case (snoc A' y)
    have ch: "chain (elem_next f) (m_fifo_first f) (A' @ y # x # B)" using D(3) snoc by simp
    note cu = chain_unlink [OF ch]
    have dy: "y \<notin> set us" "y \<notin> set al" "y \<noteq> x" "y \<notin> set B" "y \<notin> set A'" "x \<notin> set A'"
      using D(5) d snoc by auto
    obtain h where h: "m_fifo_first f = Some h" "h \<noteq> x" using ch snoc d by (cases A') auto
    define g1 where "g1 = upd_elem x (clear_bit i) f"
    define g2 where "g2 = upd_elem y (\<lambda>c. c\<lparr>c_next := elem_next g1 x\<rparr>) g1"
    define g3 where "g3 = (if B = [] then g2\<lparr>m_fifo_last := Some y\<rparr> else g2)"
    have loop: "for_ptr (\<lambda>_ z. elem_next g1 z \<noteq> Some x) (\<lambda>_ z. elem_next g1 z) (\<lambda>_. Inr) (Some h) () = Inr (Some y, ())"
      using before_loop [OF ch dy(3,6)] h(1) by (simp add: g1_def)
    have l: "m_fifo_last f = Some x \<longleftrightarrow> B = []" using D(4) snoc d(4) lastp_in_set [of B x] by (auto simp: lastp_Cons)
    have s: "{..<n} = insert x (set us \<union> set al \<union> set (A' @ y # B))" using r snoc by (auto simp: queue_shape_def)
    have g3: "elem_next g3 = (elem_next f)(y := elem_next f x)" "m_unused g3 = m_unused f" "m_allocated g3 = m_allocated f"
      "m_fifo_first g3 = m_fifo_first f" "m_fifo_last g3 = lastp (A' @ y # B)" "m_readers g3 = m_readers f"
      "m_readerBitMask g3 = m_readerBitMask f" "f_readers g3 = f_readers f"
      "\<And>z. c_data (f_chain g3 z) = c_data (f_chain f z)"
      "\<And>z. expectedReads (f_chain g3 z) = (if z = x then 0 else expectedReads (f_chain f z))"
      using D(4) e dy(3) by (auto simp: g3_def g2_def g1_def snoc lastp_Cons)
    have "gf_releaseElement (Some x) i f = Inr (put_unused x g3)"
      using h e l loop by (simp add: gf_releaseElement_def Let_def g1_def g2_def g3_def)
    moreover have "queue_shape sz n (put_unused x g3) (x # us, al, A @ B)"
      using r cu(1) d dy g3 s unfolding queue_shape_def by (auto simp: snoc seg_append)
    ultimately show ?thesis using g3 e by simp
  qed
qed

section \<open>The links of a reader\<close>

abbreviation link_next :: "fifo_reader \<Rightarrow> link_id \<Rightarrow> link_id option" where
  "link_next R \<equiv> (\<lambda>l. lk_next (links R l))"

definition links_rep :: "fifo_reader \<Rightarrow> elem_id list \<Rightarrow> bool" where
  "links_rep R pp \<longleftrightarrow> (\<exists>ls ul. chain (link_next R) (allocated_elements R) ls \<and> chain (link_next R) (unusedLinks R) ul \<and>
     distinct (ls @ ul) \<and> map (\<lambda>l. lk_element (links R l)) ls = pp \<and> length ls + length ul = maximumFifoReaderLinks)"

lemma links_rep_fields [simp]:
  "links_rep (R\<lparr>rd_first := a\<rparr>) pp = links_rep R pp" "links_rep (R\<lparr>rd_last := a\<rparr>) pp = links_rep R pp"
  "links_rep (R\<lparr>nextReader := b\<rparr>) pp = links_rep R pp" "links_rep (R\<lparr>rd_fifo := c, readerId := i\<rparr>) pp = links_rep R pp"
  by (simp_all add: links_rep_def)

lemma upto_chain:
  "k < m \<Longrightarrow> chain (\<lambda>i. if i < m - 1 then Some (i + 1) else None) (Some k) [k..<m]"
proof (induction "m - k" arbitrary: k)
  case (Suc d)
  show ?case
  proof (cases "k = m - 1")
    case True
    then have "[k..<m] = [k]" using Suc.prems by (simp add: upt_rec)
    then show ?thesis using True by simp
  next
    case False
    then have "[k..<m] = k # [k + 1..<m]" "k < m - 1" using Suc.prems by (simp_all add: upt_rec)
    then show ?thesis using Suc.hyps(1) [of "k + 1"] Suc.hyps(2) by simp
  qed
qed simp

lemma links_rep_init: "links_rep (reader_init t) []"
proof -
  have "chain (link_next (reader_init t)) (unusedLinks (reader_init t)) [0..<maximumFifoReaderLinks]"
    using upto_chain [of 0 maximumFifoReaderLinks] by (simp add: reader_init_def maximumFifoReaderLinks_def)
  then show ?thesis by (auto simp: links_rep_def reader_init_def)
qed

lemma links_rep_pop:
  assumes "links_rep R pp"
  shows "case unusedLinks R of
     None \<Rightarrow> length pp = maximumFifoReaderLinks
   | Some l \<Rightarrow> length pp < maximumFifoReaderLinks \<and>
       links_rep ((set_link l (\<lambda>k. \<lparr>lk_element = x, lk_next = allocated_elements R\<rparr>) R)
         \<lparr>unusedLinks := lk_next (links R l), allocated_elements := Some l, rd_first := a\<rparr>) (x # pp)"
proof -
  obtain ls ul where l: "chain (link_next R) (allocated_elements R) ls" "chain (link_next R) (unusedLinks R) ul"
    "distinct (ls @ ul)" "map (\<lambda>l. lk_element (links R l)) ls = pp" "length ls + length ul = maximumFifoReaderLinks"
    using assms by (auto simp: links_rep_def)
  show ?thesis
  proof (cases ul)
    case Nil
    then show ?thesis using l by auto
  next
    case (Cons u ul')
    let ?R = "(set_link u (\<lambda>k. \<lparr>lk_element = x, lk_next = allocated_elements R\<rparr>) R)
         \<lparr>unusedLinks := lk_next (links R u), allocated_elements := Some u, rd_first := a\<rparr>"
    have n: "link_next ?R = (link_next R)(u := allocated_elements R)" by (auto simp: set_link_def)
    have "chain (link_next ?R) (allocated_elements ?R) (u # ls)" "chain (link_next ?R) (unusedLinks ?R) ul'"
      unfolding n using l(1-3) Cons by auto
    moreover have "map (\<lambda>l. lk_element (links ?R l)) (u # ls) = x # pp"
      using l(3,4) Cons by (auto simp: set_link_def)
    ultimately have "links_rep ?R (x # pp)" using l(3,5) Cons
      unfolding links_rep_def by (intro exI [of _ "u # ls"] exI [of _ ul']) auto
    then show ?thesis using l Cons by auto
  qed
qed

lemma links_rep_head:
  assumes "links_rep R (x # pp)"
  shows "\<exists>h. allocated_elements R = Some h \<and> lk_element (links R h) = x \<and>
    links_rep ((free_link h R)\<lparr>allocated_elements := lk_next (links R h)\<rparr>) pp"
proof -
  obtain h ls ul where l: "chain (link_next R) (allocated_elements R) (h # ls)" "chain (link_next R) (unusedLinks R) ul"
    "distinct (h # ls @ ul)" "lk_element (links R h) = x" "map (\<lambda>l. lk_element (links R l)) ls = pp"
    "Suc (length ls) + length ul = maximumFifoReaderLinks"
    using assms by (auto simp: links_rep_def map_eq_Cons_conv)
  let ?R = "(free_link h R)\<lparr>allocated_elements := lk_next (links R h)\<rparr>"
  have n: "link_next ?R = (link_next R)(h := unusedLinks R)" by (auto simp: free_link_def set_link_def)
  have "chain (link_next ?R) (allocated_elements ?R) ls" "chain (link_next ?R) (unusedLinks ?R) (h # ul)"
    unfolding n using l(1-3) by (auto simp: free_link_def set_link_def)
  moreover have "map (\<lambda>l. lk_element (links ?R l)) ls = pp"
    using l(3,5) by (auto simp: free_link_def set_link_def)
  ultimately have "links_rep ?R pp" using l(3,6)
    unfolding links_rep_def by (intro exI [of _ ls] exI [of _ "h # ul"]) auto
  then show ?thesis using l by auto
qed

text \<open>A link behind the head: \<open>p\<close> is linked to the link behind \<open>k\<close>.\<close>

lemma links_rep_middle:
  assumes "chain (link_next R) (allocated_elements R) (A @ p # k # B)" "chain (link_next R) (unusedLinks R) ul"
    "distinct ((A @ p # k # B) @ ul)" "length (A @ p # k # B) + length ul = maximumFifoReaderLinks"
  shows "links_rep (set_link p (\<lambda>lk. lk\<lparr>lk_next := lk_next (links R k)\<rparr>) (free_link k R))
    (map (\<lambda>l. lk_element (links R l)) (A @ p # B))"
proof -
  let ?R = "set_link p (\<lambda>lk. lk\<lparr>lk_next := lk_next (links R k)\<rparr>) (free_link k R)"
  have pk: "p \<noteq> k" using assms(3) by auto
  have n: "link_next ?R = (link_next R)(k := unusedLinks R, p := lk_next (links R k))"
    by (auto simp: free_link_def set_link_def)
  have a: "allocated_elements ?R = allocated_elements R" "unusedLinks ?R = Some k"
    by (simp_all add: free_link_def set_link_def)
  have "chain (link_next ?R) (allocated_elements ?R) (A @ p # B)"
    unfolding n a using chain_unlink(1) [OF assms(1)] assms(3) pk by (auto simp: seg_append)
  moreover have "chain (link_next ?R) (unusedLinks ?R) (k # ul)" unfolding n a using assms(2,3) pk by auto
  moreover have "lk_element (links ?R l) = lk_element (links R l)" for l by (simp add: free_link_def set_link_def)
  ultimately show ?thesis using assms(3,4)
    unfolding links_rep_def by (intro exI [of _ "A @ p # B"] exI [of _ "k # ul"]) auto
qed


section \<open>The lists\<close>

text \<open>
  \<open>l_popped r\<close> are the elements the reader \<open>r\<close> has popped and not released, the last one first,
  \<open>l_unread r\<close> those it has still to pop, \<open>l_visible r\<close> how many of these its task was started for.
\<close>

record reader_lists =
  l_unused :: "elem_id list"
  l_allocated :: "elem_id list"
  l_queue :: "elem_id list"
  l_popped :: "reader_id \<Rightarrow> elem_id list"
  l_unread :: "reader_id \<Rightarrow> elem_id list"
  l_visible :: "reader_id \<Rightarrow> nat"

definition lists_init :: "nat \<Rightarrow> reader_lists" where
  "lists_init n = \<lparr>l_unused = rev [0..<n], l_allocated = [], l_queue = [], l_popped = (\<lambda>_. []), l_unread = (\<lambda>_. []),
     l_visible = (\<lambda>_. 0)\<rparr>"

definition waits :: "reader_lists \<Rightarrow> reader_id \<Rightarrow> elem_id \<Rightarrow> bool" where
  "waits s r x \<longleftrightarrow> x \<in> set (l_popped s r) \<or> x \<in> set (l_unread s r)"

definition awaited :: "reader_id list \<Rightarrow> reader_lists \<Rightarrow> elem_id \<Rightarrow> bool" where
  "awaited rs s x \<longleftrightarrow> list_ex (\<lambda>r. waits s r x) rs"

definition set_lists :: "reader_id \<Rightarrow> elem_id list \<Rightarrow> elem_id list \<Rightarrow> nat \<Rightarrow> reader_lists \<Rightarrow> reader_lists" where
  "set_lists r pp q v s = s\<lparr>l_popped := (l_popped s)(r := pp), l_unread := (l_unread s)(r := q), l_visible := (l_visible s)(r := v)\<rparr>"

text \<open>A reader gives an element back; when no other reader has it, it is unused.\<close>

definition give_back :: "reader_id list \<Rightarrow> reader_id \<Rightarrow> elem_id \<Rightarrow> reader_lists \<Rightarrow> reader_lists" where
  "give_back rs r x s =
     (let s1 = set_lists r (remove1 x (l_popped s r)) (l_unread s r) (l_visible s r) s
      in if awaited rs s1 x then s1 else s1\<lparr>l_queue := remove1 x (l_queue s1), l_unused := x # l_unused s1\<rparr>)"

datatype reader_call = Writer fifo_call | Start reader_id uint | Read reader_id | Return reader_id data_ptr
  | ReturnAll reader_id | Unread reader_id

text \<open>A call of the writer on the three lists; a pushed element is unread by all readers.\<close>

definition writer_lists :: "nat \<Rightarrow> fifo_call \<Rightarrow> reader_lists \<Rightarrow> reader_lists" where
  "writer_lists sz c s =
     (case fst (spec_call sz c (l_unused s, l_allocated s, l_queue s)) of (us, al, q) \<Rightarrow>
        s\<lparr>l_unused := us, l_allocated := al, l_queue := q,
          l_unread := (\<lambda>r. l_unread s r @ drop (length (l_queue s)) q)\<rparr>)"

text \<open>The calls of the lists; a start for more elements than there are fails an assertion.\<close>

fun reader_spec :: "nat \<Rightarrow> reader_id list \<Rightarrow> reader_call \<Rightarrow> reader_lists \<Rightarrow> (reader_lists \<times> fifo_answer) res" where
  "reader_spec sz rs (Writer c) s = Inr
     (if c = Pop then (s, Data None) else (writer_lists sz c s, snd (spec_call sz c (l_unused s, l_allocated s, l_queue s))))"
| "reader_spec sz rs (Start r k) s =
     (if l_visible s r + unat k \<le> length (l_unread s r)
      then Inr (set_lists r (l_popped s r) (l_unread s r) (l_visible s r + unat k) s, Done) else Inl AssertFailed)"
| "reader_spec sz rs (Read r) s = Inr
     (if l_visible s r = 0 \<or> length (l_popped s r) = maximumFifoReaderLinks then (s, Data None)
      else (set_lists r (hd (l_unread s r) # l_popped s r) (tl (l_unread s r)) (l_visible s r - 1) s,
            Data (Some (sz * hd (l_unread s r)))))"
| "reader_spec sz rs (Return r d) s = Inr
     (case allocated_at sz d (l_popped s r) of None \<Rightarrow> (s, Done) | Some x \<Rightarrow> (give_back rs r x s, Done))"
| "reader_spec sz rs (ReturnAll r) s = Inr (fold (give_back rs r) (l_popped s r) s, Done)"
| "reader_spec sz rs (Unread r) s = Inr (s, Flag (l_visible s r = 0))"

text \<open>\<open>tasks r\<close> is the task of the reader \<open>r\<close>.\<close>

fun reader_step :: "(reader_id \<Rightarrow> task_id) \<Rightarrow> reader_call \<Rightarrow> fifo \<Rightarrow> (fifo \<times> fifo_answer) res" where
  "reader_step tasks (Writer c) f = fifo_step c f"
| "reader_step tasks (Start r k) f = bindR (gf_synchronize (tasks r) k f) (\<lambda>f'. Inr (f', Done))"
| "reader_step tasks (Read r) f = bindR (rd_pop r f) (\<lambda>(f', d). Inr (f', Data d))"
| "reader_step tasks (Return r d) f = bindR (rd_release r d f) (\<lambda>f'. Inr (f', Done))"
| "reader_step tasks (ReturnAll r) f = bindR (rd_releaseAll r f) (\<lambda>f'. Inr (f', Done))"
| "reader_step tasks (Unread r) f = Inr (f, Flag (rd_isEmpty r f))"

section \<open>Representation\<close>

definition window_rep :: "fifo_reader \<Rightarrow> elem_id list \<Rightarrow> nat \<Rightarrow> bool" where
  "window_rep R q v \<longleftrightarrow> v \<le> length q \<and> rd_first R = (if v = 0 then None else Some (hd q)) \<and>
     rd_last R = (if v = 0 then None else Some (q ! (v - 1)))"

text \<open>The \<open>j\<close>-th associated reader: what it has still to pop is the end of the FIFO.\<close>

definition reader_ok :: "task_id \<Rightarrow> nat \<Rightarrow> fifo_reader \<Rightarrow> elem_id list \<Rightarrow> elem_id list \<Rightarrow> elem_id list \<Rightarrow> nat \<Rightarrow> bool" where
  "reader_ok t j R Q pp q v \<longleftrightarrow> readerTask R = t \<and> readerId R = 2 ^ j \<and> rd_fifo R \<and>
     links_rep R pp \<and> window_rep R q v \<and> distinct pp \<and> (\<exists>P. Q = P @ q \<and> set pp \<subseteq> set P)"

definition bits_ok :: "reader_id list \<Rightarrow> fifo \<Rightarrow> reader_lists \<Rightarrow> bool" where
  "bits_ok rs f s \<longleftrightarrow> (\<forall>x\<in>set (l_queue s). awaited rs s x \<and>
     (\<forall>i. bit (expectedReads (f_chain f x)) i \<longleftrightarrow> i < length rs \<and> waits s (rs ! i) x))"

text \<open>The associated readers, the first one first; every task has one.\<close>

definition readers_distinct :: "(reader_id \<Rightarrow> task_id) \<Rightarrow> reader_id list \<Rightarrow> bool" where
  "readers_distinct tasks rs \<longleftrightarrow> distinct (map tasks rs) \<and> rs \<noteq> [] \<and> length rs \<le> 8"

abbreviation next_reader :: "fifo \<Rightarrow> reader_id \<Rightarrow> reader_id option" where
  "next_reader f \<equiv> (\<lambda>r. nextReader (f_readers f r))"

definition reader_rep :: "nat \<Rightarrow> nat \<Rightarrow> (reader_id \<Rightarrow> task_id) \<Rightarrow> reader_id list \<Rightarrow> fifo \<Rightarrow> reader_lists \<Rightarrow> bool" where
  "reader_rep sz n tasks rs f s \<longleftrightarrow> readers_distinct tasks rs \<and>
     queue_shape sz n f (l_unused s, l_allocated s, l_queue s) \<and>
     chain (next_reader f) (m_readers f) (rev rs) \<and> m_readerBitMask f = mask (length rs) \<and> bits_ok rs f s \<and>
     (\<forall>j < length rs. reader_ok (tasks (rs ! j)) j (f_readers f (rs ! j)) (l_queue s)
        (l_popped s (rs ! j)) (l_unread s (rs ! j)) (l_visible s (rs ! j)))"

lemma reader_repD:
  assumes "reader_rep sz n tasks rs f s"
  shows "distinct (map tasks rs)" "distinct rs" "rs \<noteq> []" "length rs \<le> 8"
    "queue_shape sz n f (l_unused s, l_allocated s, l_queue s)" "chain (next_reader f) (m_readers f) (rev rs)"
    "m_readerBitMask f = mask (length rs)" "bits_ok rs f s"
    "\<And>j. j < length rs \<Longrightarrow> reader_ok (tasks (rs ! j)) j (f_readers f (rs ! j)) (l_queue s)
        (l_popped s (rs ! j)) (l_unread s (rs ! j)) (l_visible s (rs ! j))"
  using assms by (auto simp: reader_rep_def readers_distinct_def distinct_map)

text \<open>A step of the code does what the lists do.\<close>

abbreviation step_ok :: "nat \<Rightarrow> nat \<Rightarrow> (reader_id \<Rightarrow> task_id) \<Rightarrow> reader_id list \<Rightarrow> reader_call \<Rightarrow> fifo \<Rightarrow> reader_lists \<Rightarrow> bool" where
  "step_ok sz n tasks rs c f s \<equiv> (case reader_spec sz rs c s of
     Inl e \<Rightarrow> reader_step tasks c f = Inl e
   | Inr (s', a) \<Rightarrow> \<exists>f'. reader_step tasks c f = Inr (f', a) \<and> reader_rep sz n tasks rs f' s')"

lemma queue_shape_readers [simp]:
  "queue_shape sz n (upd_reader r g f) = queue_shape sz n f" "queue_shape sz n (f\<lparr>m_readers := p\<rparr>) = queue_shape sz n f"
  "queue_shape sz n (f\<lparr>m_readerBitMask := b\<rparr>) = queue_shape sz n f"
  by (simp_all add: queue_shape_def fun_eq_iff)

lemma set_lists_simps [simp]:
  "l_unused (set_lists r pp q v s) = l_unused s" "l_allocated (set_lists r pp q v s) = l_allocated s"
  "l_queue (set_lists r pp q v s) = l_queue s" "l_popped (set_lists r pp q v s) = (l_popped s)(r := pp)"
  "l_unread (set_lists r pp q v s) = (l_unread s)(r := q)" "l_visible (set_lists r pp q v s) = (l_visible s)(r := v)"
  by (simp_all add: set_lists_def)

text \<open>Only the lists of one reader change, and it has the same elements.\<close>

lemma reader_rep_upd:
  assumes rep: "reader_rep sz n tasks rs f s" and j: "j < length rs" "rs ! j = r"
    and nx: "nextReader R = nextReader (f_readers f r)"
    and ok: "reader_ok (tasks r) j R (l_queue s) pp q v"
    and w: "set pp \<union> set q = set (l_popped s r) \<union> set (l_unread s r)"
  shows "reader_rep sz n tasks rs (upd_reader r (\<lambda>_. R) f) (set_lists r pp q v s)"
proof -
  note D = reader_repD [OF rep]
  have "next_reader (upd_reader r (\<lambda>_. R) f) = next_reader f" using nx by auto
  moreover have "waits (set_lists r pp q v s) r' x = waits s r' x" for r' x using w by (auto simp: waits_def)
  then have "bits_ok rs (upd_reader r (\<lambda>_. R) f) (set_lists r pp q v s)" using D(8) by (simp add: bits_ok_def awaited_def)
  moreover have "rs ! i \<noteq> r" if "i < length rs" "i \<noteq> j" for i using D(2) j that nth_eq_iff_index_eq by blast
  then have "reader_ok (tasks (rs ! i)) i (f_readers (upd_reader r (\<lambda>_. R) f) (rs ! i)) (l_queue s)
      (l_popped (set_lists r pp q v s) (rs ! i)) (l_unread (set_lists r pp q v s) (rs ! i)) (l_visible (set_lists r pp q v s) (rs ! i))"
    if "i < length rs" for i using D(9) [OF that] ok j(2) that by (cases "i = j") auto
  ultimately show ?thesis using rep by (simp add: reader_rep_def)
qed

section \<open>The writer\<close>

lemma window_append: "window_rep R q v \<Longrightarrow> window_rep R (q @ [x]) v"
  by (auto simp: window_rep_def nth_append hd_append)

lemma reader_ok_append: "reader_ok t j R Q pp q v \<Longrightarrow> reader_ok t j R (Q @ [x]) pp (q @ [x]) v"
  by (auto simp: reader_ok_def window_append)

lemma mask_reads: "k \<le> 8 \<Longrightarrow> bit (ucast (mask k :: 8 word) :: uint) i \<longleftrightarrow> i < k"
  by (auto simp: bit_simps)

lemma writer_lists_same:
  assumes "snd (snd (fst (spec_call sz c (l_unused s, l_allocated s, l_queue s)))) = l_queue s"
  shows "l_queue (writer_lists sz c s) = l_queue s" "l_popped (writer_lists sz c s) = l_popped s"
    "l_unread (writer_lists sz c s) = l_unread s" "l_visible (writer_lists sz c s) = l_visible s"
  using assms by (auto simp: writer_lists_def split: prod.splits)

lemma writer_step:
  assumes rep: "reader_rep sz n tasks rs f s"
  shows "step_ok sz n tasks rs (Writer c) f s"
proof (cases "c = Pop")
  case True
  have "m_readers f \<noteq> None" using reader_repD(3,6) [OF rep] by (metis chain_empty_iff rev_is_Nil_conv)
  then have "gf_pop f = (f, None)" by (auto simp: gf_pop_def split: option.split)
  then show ?thesis using rep True by simp
next
  case False
  note D = reader_repD [OF rep]
  let ?l = "(l_unused s, l_allocated s, l_queue s)"
  let ?s = "writer_lists sz c s"
  obtain f' where f': "fifo_step c f = Inr (f', snd (spec_call sz c ?l))" "queue_shape sz n f' (fst (spec_call sz c ?l))"
    and k: "writer_keeps f f' (l_queue s) (snd (snd (fst (spec_call sz c ?l))))"
    using writer_shape [OF D(5) False] by auto
  have same: "m_readers f' = m_readers f" "f_readers f' = f_readers f" "m_readerBitMask f' = m_readerBitMask f"
    using k by (simp_all add: writer_keeps_def)
  have shape: "queue_shape sz n f' (l_unused ?s, l_allocated ?s, l_queue ?s)"
    using f'(2) by (auto simp: writer_lists_def split: prod.split)
  consider (kept) "snd (snd (fst (spec_call sz c ?l))) = l_queue s"
    | (put) d x where "c = Push d" "allocated_at sz d (l_allocated s) = Some x"
  proof -
    have "snd (snd (fst (spec_call sz c ?l))) = l_queue s \<or> (\<exists>d x. c = Push d \<and> allocated_at sz d (l_allocated s) = Some x)"
      using False by (cases c) (auto split: option.splits list.splits)
    then show thesis using that by blast
  qed
  then have "reader_rep sz n tasks rs f' ?s"
  proof cases
    case kept
    note l = writer_lists_same [OF kept]
    have "bits_ok rs f' ?s" using D(8) k kept by (simp add: bits_ok_def awaited_def waits_def l writer_keeps_def)
    then show ?thesis using rep shape same by (simp add: reader_rep_def l)
  next
    case put
    have s: "l_queue ?s = l_queue s @ [x]" "l_popped ?s = l_popped s" "l_unread ?s = (\<lambda>r. l_unread s r @ [x])"
      "l_visible ?s = l_visible s" using put by (simp_all add: writer_lists_def)
    have "x \<in> set (l_allocated s)" using put(2) by (auto simp: allocated_at_def find_Some_iff)
    then have x: "x \<notin> set (l_queue s)" using queue_shapeD(5) [OF D(5)] by auto
    have b: "bit (expectedReads (f_chain f' x)) i \<longleftrightarrow> i < length rs" for i
      using k x put D(7) mask_reads [OF D(4), of i] by (simp add: writer_keeps_def)
    have o: "expectedReads (f_chain f' y) = expectedReads (f_chain f y)" if "y \<in> set (l_queue s)" for y
      using k that put by (auto simp: writer_keeps_def)
    have w: "waits ?s r y \<longleftrightarrow> waits s r y \<or> y = x" for r y by (auto simp: waits_def s)
    have "bits_ok rs f' ?s" unfolding bits_ok_def
    proof (intro ballI conjI allI)
      fix y assume y: "y \<in> set (l_queue ?s)"
      show "awaited rs ?s y" using y D(3,8) by (auto simp: awaited_def list_ex_iff w s bits_ok_def neq_Nil_conv)
      show "bit (expectedReads (f_chain f' y)) i \<longleftrightarrow> i < length rs \<and> waits ?s (rs ! i) y" for i
        using y D(8) b o x by (auto simp: w s bits_ok_def)
    qed
    then show ?thesis using rep shape same reader_ok_append by (simp add: reader_rep_def s)
  qed
  then show ?thesis using f'(1) False by simp
qed

section \<open>Popping\<close>

lemma nth_chain:
  "chain h p q \<Longrightarrow> i < length q \<Longrightarrow>
    chain h (Some (q ! i)) (drop i q) \<and> h (q ! i) = (if Suc i < length q then Some (q ! Suc i) else None)"
proof (induction q arbitrary: p i)
  case (Cons x q)
  show ?case
  proof (cases i)
    case 0
    then show ?thesis using Cons.prems chain_firstp [of h "h x" q] by (cases q) auto
  next
    case (Suc j)
    then show ?thesis using Cons.IH [of "h x" j] Cons.prems by auto
  qed
qed simp

text \<open>The elements a reader has still to pop are linked.\<close>

lemma unread_chain:
  assumes "reader_rep sz n tasks rs f s" and "j < length rs" and "rs ! j = r"
  shows "\<exists>p. chain (elem_next f) p (l_unread s r) \<and> (l_unread s r \<noteq> [] \<longrightarrow> p = Some (hd (l_unread s r)))"
proof -
  note D = reader_repD [OF assms(1)]
  obtain P where P: "l_queue s = P @ l_unread s r" using D(9) [OF assms(2)] assms(3) by (auto simp: reader_ok_def)
  have c: "chain (elem_next f) (m_fifo_first f) (P @ l_unread s r)" using queue_shapeD(3) [OF D(5)] P by simp
  show ?thesis
  proof (cases "l_unread s r")
    case (Cons x q)
    then show ?thesis using c by (intro exI [of _ "Some x"]) (auto simp: seg_append)
  qed simp
qed

lemma read_step:
  assumes rep: "reader_rep sz n tasks rs f s" and j: "j < length rs" "rs ! j = r"
  shows "step_ok sz n tasks rs (Read r) f s"
proof -
  note D = reader_repD [OF rep]
  let ?R = "f_readers f r" and ?v = "l_visible s r" and ?pp = "l_popped s r"
  have ok: "reader_ok (tasks r) j ?R (l_queue s) ?pp (l_unread s r) ?v" using D(9) [OF j(1)] j(2) by simp
  then have R: "readerTask ?R = tasks r" "readerId ?R = 2 ^ j" "rd_fifo ?R" "links_rep ?R ?pp"
    "window_rep ?R (l_unread s r) ?v" "distinct ?pp" by (simp_all add: reader_ok_def)
  obtain P where P: "l_queue s = P @ l_unread s r" "set ?pp \<subseteq> set P" using ok by (auto simp: reader_ok_def)
  show ?thesis
  proof (cases "?v = 0")
    case True
    then have "rd_pop r f = Inr (f, None)" using R(3,5) by (simp add: rd_pop_def window_rep_def)
    then show ?thesis using rep True by simp
  next
    case v: False
    then obtain x q where q: "l_unread s r = x # q" using R(5) by (cases "l_unread s r") (auto simp: window_rep_def)
    have first: "rd_first ?R = Some x" and last: "rd_last ?R = Some (l_unread s r ! (?v - 1))" and vq: "?v \<le> Suc (length q)"
      using R(5) v q by (auto simp: window_rep_def)
    show ?thesis
    proof (cases "unusedLinks ?R")
      case None
      then have "rd_pop r f = Inr (f, None)" using R(3) first by (simp add: rd_pop_def)
      then show ?thesis using rep None links_rep_pop [OF R(4)] by simp
    next
      case (Some l)
      define R1 where "R1 = (set_link l (\<lambda>k. \<lparr>lk_element = x, lk_next = allocated_elements ?R\<rparr>) ?R)
         \<lparr>unusedLinks := lk_next (links ?R l), allocated_elements := Some l, rd_first := elem_next f x\<rparr>"
      define R2 where "R2 = (if ?v = 1 then R1\<lparr>rd_first := None, rd_last := None\<rparr> else R1)"
      have lk: "length ?pp < maximumFifoReaderLinks" "links_rep R1 (x # ?pp)"
        using links_rep_pop [OF R(4), where x = x and a = "elem_next f x"] Some by (simp_all add: R1_def)
      have R1: "nextReader R1 = nextReader ?R" "readerTask R1 = tasks r" "readerId R1 = 2 ^ j" "rd_fifo R1"
        "rd_first R1 = elem_next f x" "rd_last R1 = rd_last ?R" using R(1-3) by (simp_all add: R1_def set_link_def)
      have dx: "x \<notin> set P" "x \<notin> set q" using queue_shapeD(5) [OF D(5)] P(1) q by auto
      have data: "c_data (f_chain f x) = sz * x" using queue_shapeD(6) [OF D(5), of x] P(1) q by simp
      have nx: "elem_next f x = (if q = [] then None else Some (hd q))"
        using unread_chain [OF rep j] nth_chain [of "elem_next f" _ "x # q" 0] q by (cases q) auto
      have l2: "?v \<noteq> 1 \<Longrightarrow> l_unread s r ! (?v - 1) = q ! (?v - 2) \<and> ?v - 2 < length q"
        using v vq q by (auto simp: nth_Cons' numeral_2_eq_2)
      then have "?v \<noteq> 1 \<Longrightarrow> l_unread s r ! (?v - 1) \<noteq> x" using dx(2) nth_mem by metis
      then have "rd_pop r f = Inr (upd_reader r (\<lambda>_. R2) f, Some (sz * x))"
        using R(3) first last Some data q R1 nx l2 unfolding R2_def
        by (cases "?v = 1") (auto simp: rd_pop_def Let_def R1_def upd_reader_def set_link_def)
      moreover have "window_rep R2 q (?v - 1)"
        using R1(5,6) nx last l2 v by (cases "?v = 1") (auto simp: window_rep_def R2_def numeral_2_eq_2)
      then have "reader_ok (tasks r) j R2 (l_queue s) (x # ?pp) q (?v - 1)"
        using R1 R(6) lk(2) P dx q by (auto simp: reader_ok_def R2_def intro!: exI [of _ "P @ [x]"])
      then have "reader_rep sz n tasks rs (upd_reader r (\<lambda>_. R2) f) (set_lists r (x # ?pp) q (?v - 1) s)"
        using reader_rep_upd [OF rep j, of R2 "x # ?pp" q "?v - 1"] R1(1) q by (simp add: R2_def)
      ultimately show ?thesis using v q lk(1) by simp
    qed
  qed
qed

section \<open>Starting the task of a reader\<close>

lemma step_items_nth:
  "chain (elem_next f) p q \<Longrightarrow> i < length q \<Longrightarrow>
    step_items m (q ! i) f = (if i + m < length q then Inr (q ! (i + m)) else Inl AssertFailed)"
proof (induction m arbitrary: i)
  case (Suc m)
  then show ?case using nth_chain [OF Suc.prems] by simp
qed simp

lemma step_items_frame [simp]: "step_items m x (upd_reader r g f) = step_items m x f"
  by (induction m arbitrary: x) (simp_all split: option.split)

lemma bit_test: "w AND 2 ^ j = (0 :: uint) \<longleftrightarrow> \<not> bit w j"
  by (rule and_exp_eq_0_iff_not_bit)

lemma find_reader:
  assumes rep: "reader_rep sz n tasks rs f s" and r: "r \<in> set rs" and k: "0 < k"
  shows "gf_synchronize (tasks r) k f = synchronize_reader r k f"
proof -
  note D = reader_repD [OF rep]
  have t: "readerTask (f_readers f x) = tasks x" if "x \<in> set rs" for x
    using D(9) that by (auto simp: in_set_conv_nth reader_ok_def)
  obtain A B where rs: "rs = A @ r # B" using r by (auto simp: in_set_conv_decomp)
  have "find (\<lambda>x. \<not> readerTask (f_readers f x) \<noteq> tasks r) (rev B @ r # rev A) = Some r"
    using t D(1) rs by (intro find_first) (auto simp: image_iff)
  then have "for_ptr (\<lambda>_ x. readerTask (f_readers f x) \<noteq> tasks r) (\<lambda>_. next_reader f) (\<lambda>_. Inr) (m_readers f) () =
      Inr (Some r, ())"
    using for_ptr_find [OF D(6), of "\<lambda>x. readerTask (f_readers f x) \<noteq> tasks r"] rs by simp
  then show ?thesis using k by (simp add: gf_synchronize_def)
qed

text \<open>The search for the first element that waits for the reader.\<close>

lemma find_unread:
  assumes rep: "reader_rep sz n tasks rs f s" and j: "j < length rs" "rs ! j = r" and pp: "l_popped s r = []"
  shows "for_ptr (\<lambda>_ x. expectedReads (f_chain f x) AND readerId (f_readers f r) = 0) (\<lambda>_ x. elem_next f x) (\<lambda>_. Inr)
    (m_fifo_first f) () = Inr (case l_unread s r of [] \<Rightarrow> None | x # q \<Rightarrow> Some x, ())"
proof -
  note D = reader_repD [OF rep]
  have R: "readerId (f_readers f r) = 2 ^ j" using D(9) [OF j(1)] j(2) by (simp add: reader_ok_def)
  obtain P where P: "l_queue s = P @ l_unread s r" using D(9) [OF j(1)] j(2) by (auto simp: reader_ok_def)
  have "distinct (P @ l_unread s r)" using queue_shapeD(5) [OF D(5)] P by simp
  then have b: "bit (expectedReads (f_chain f x)) j \<longleftrightarrow> x \<notin> set P" if "x \<in> set (l_queue s)" for x
    using that D(8) j pp P by (auto simp: bits_ok_def waits_def)
  have "find (\<lambda>x. \<not> expectedReads (f_chain f x) AND readerId (f_readers f r) = 0) (l_queue s) =
      (case l_unread s r of [] \<Rightarrow> None | x # q \<Rightarrow> Some x)"
  proof (cases "l_unread s r")
    case Nil
    then show ?thesis using b P by (auto simp: find_None_iff R bit_test)
  next
    case (Cons x q)
    have "find (\<lambda>x. \<not> expectedReads (f_chain f x) AND readerId (f_readers f r) = 0) (P @ x # q) = Some x"
      using b P Cons \<open>distinct (P @ l_unread s r)\<close> by (intro find_first) (auto simp: R bit_test)
    then show ?thesis using P Cons by simp
  qed
  then show ?thesis
    using for_ptr_find [OF queue_shapeD(3) [OF D(5)], of "\<lambda>x. expectedReads (f_chain f x) AND readerId (f_readers f r) = 0"] by simp
qed

lemma start_step:
  assumes rep: "reader_rep sz n tasks rs f s" and j: "j < length rs" "rs ! j = r"
    and d: "k = 0 \<or> l_popped s r = [] \<or> l_visible s r > 0"
  shows "step_ok sz n tasks rs (Start r k) f s"
proof (cases "k = 0")
  case True
  have same: "set_lists r (l_popped s r) (l_unread s r) (l_visible s r) s = s" by (simp add: set_lists_def)
  have "l_visible s r \<le> length (l_unread s r)"
    using reader_repD(9) [OF rep j(1)] j(2) by (simp add: reader_ok_def window_rep_def)
  then show ?thesis using rep True by (simp add: gf_synchronize_def same)
next
  case k: False
  note D = reader_repD [OF rep]
  let ?R = "f_readers f r" and ?v = "l_visible s r" and ?q = "l_unread s r"
  have ok: "reader_ok (tasks r) j ?R (l_queue s) (l_popped s r) ?q ?v" using D(9) [OF j(1)] j(2) by simp
  have W: "window_rep ?R ?q ?v" using ok by (simp add: reader_ok_def)
  have u: "unat (k - 1) = unat k - 1" "unat k > 0"
    using k by (simp_all add: unat_sub word_le_nat_alt unat_gt_0 Suc_leI)
  have vq: "?v \<le> length ?q" using W by (simp add: window_rep_def)
  have sync: "gf_synchronize (tasks r) k f = synchronize_reader r k f"
    using find_reader [OF rep] k j by (metis nth_mem word_gt_0)
  obtain p where c: "chain (elem_next f) p ?q" using unread_chain [OF rep j] by blast
  define g where "g = (\<lambda>x. upd_reader r (\<lambda>_. ?R\<lparr>rd_first := Some (hd ?q), rd_last := Some x\<rparr>) f)"
  have upd: "reader_rep sz n tasks rs (g (?q ! (v' - 1))) (set_lists r (l_popped s r) ?q v' s)"
    if "v' \<le> length ?q" "0 < v'" for v'
    unfolding g_def using ok that by (intro reader_rep_upd [OF rep j]) (auto simp: reader_ok_def window_rep_def)
  have "synchronize_reader r k f =
      (if ?v < length ?q then bindR (step_items (unat k - 1) (?q ! ?v) f) (\<lambda>x. Inr (g x)) else Inl AssertFailed)"
  proof (cases "m_fifo_first f")
    case None
    have "chain (elem_next f) (m_fifo_first f) (l_queue s)" by (rule queue_shapeD(3) [OF D(5)])
    then have "l_queue s = []" using None chain_empty_iff by blast
    then have "?q = []" using ok by (auto simp: reader_ok_def)
    then show ?thesis using None by (simp add: synchronize_reader_def)
  next
    case (Some h)
    show ?thesis
    proof (cases "?v = 0")
      case True
      then have first: "rd_first ?R = None" and pp: "l_popped s r = []" using d k W by (auto simp: window_rep_def)
      have "upd_reader r (\<lambda>x. x\<lparr>rd_last := Some y\<rparr>) (upd_reader r (\<lambda>x. x\<lparr>rd_first := Some (hd ?q)\<rparr>) f) = g y" for y
        by (simp add: upd_reader_def g_def)
      then show ?thesis using find_unread [OF rep j pp, unfolded Some] first True Some u
        by (cases ?q) (simp_all add: synchronize_reader_def)
    next
      case False
      then have f: "rd_first ?R = Some (hd ?q)" "rd_last ?R = Some (?q ! (?v - 1))" using W by (simp_all add: window_rep_def)
      have n: "elem_next f (?q ! (?v - 1)) = (if ?v < length ?q then Some (?q ! ?v) else None)"
        using nth_chain [OF c, of "?v - 1"] False vq by auto
      have "upd_reader r (\<lambda>x. x\<lparr>rd_last := Some y\<rparr>) f = g y" for y
        using f(1) by (cases ?R) (simp add: upd_reader_def g_def)
      then show ?thesis using f n Some u False by (simp add: synchronize_reader_def)
    qed
  qed
  then show ?thesis
    using sync step_items_nth [OF c, of ?v "unat k - 1"] u(2) upd [of "?v + unat k"] vq by auto
qed

end
