(* ===== verification/FifoReaderQueue.thy ===== *)
theory FifoReaderQueue
  imports FifoReaderLists
begin

text \<open>
  Readers give elements back: an element is in the FIFO as long as a reader has it among its own. With
  that, every sequence of calls is answered as the lists answer it.
\<close>

section \<open>Returning elements\<close>

lemma reader_ok_remove:
  assumes "reader_ok t j R Q pp q v" and "x \<notin> set pp" "x \<notin> set q" "x \<in> set Q"
  shows "reader_ok t j R (remove1 x Q) pp q v"
proof -
  obtain P where P: "Q = P @ q" "set pp \<subseteq> set P" using assms(1) by (auto simp: reader_ok_def)
  have "remove1 x Q = remove1 x P @ q" using P(1) assms(3,4) by (simp add: remove1_append)
  moreover have "set pp \<subseteq> set (remove1 x P)" using P(2) assms(2) by (metis in_set_remove1 subset_iff)
  ultimately show ?thesis using assms(1) by (auto simp: reader_ok_def)
qed

text \<open>A reader that differs in its links only.\<close>

definition relinked :: "fifo_reader \<Rightarrow> fifo_reader \<Rightarrow> bool" where
  "relinked R R' \<longleftrightarrow> nextReader R' = nextReader R \<and> readerTask R' = readerTask R \<and> readerId R' = readerId R \<and>
     rd_fifo R' = rd_fifo R \<and> rd_first R' = rd_first R \<and> rd_last R' = rd_last R"

lemma no_bits: "w = 0 \<longleftrightarrow> (\<forall>i. \<not> bit (w :: uint) i)"
  by (auto intro: bit_word_eqI)

lemma popped_elem:
  assumes rep: "reader_rep sz n tasks rs f s" and j: "j < length rs" "rs ! j = r" and x: "x \<in> set (l_popped s r)"
  shows "x \<in> set (l_queue s)" "x \<notin> set (l_unread s r)" "distinct (l_popped s r)" "readerId (f_readers f r) = 2 ^ j" "distinct (l_queue s)"
proof -
  note D = reader_repD [OF rep]
  show d: "distinct (l_queue s)" using queue_shapeD(5) [OF D(5)] by simp
  have ok: "reader_ok (tasks r) j (f_readers f r) (l_queue s) (l_popped s r) (l_unread s r) (l_visible s r)"
    using D(9) [OF j(1)] j(2) by simp
  then obtain P where P: "l_queue s = P @ l_unread s r" "x \<in> set P" using x by (auto simp: reader_ok_def)
  then show "x \<in> set (l_queue s)" "x \<notin> set (l_unread s r)" using d by auto
  show "distinct (l_popped s r)" "readerId (f_readers f r) = 2 ^ j" using ok by (simp_all add: reader_ok_def)
qed

text \<open>The bits of an element that the reader \<open>r\<close> has given back are those of the readers that still have it.\<close>

definition taken_back :: "reader_id \<Rightarrow> elem_id \<Rightarrow> reader_lists \<Rightarrow> reader_lists" where
  "taken_back r x s = set_lists r (remove1 x (l_popped s r)) (l_unread s r) (l_visible s r) s"

lemma give_back_taken: "give_back rs r x s =
  (if awaited rs (taken_back r x s) x then taken_back r x s
   else (taken_back r x s)\<lparr>l_queue := remove1 x (l_queue (taken_back r x s)), l_unused := x # l_unused (taken_back r x s)\<rparr>)"
  by (simp add: give_back_def taken_back_def Let_def)

lemma taken_back_waits:
  assumes "reader_rep sz n tasks rs f s" and "j < length rs" "rs ! j = r" and "x \<in> set (l_popped s r)"
  shows "waits (taken_back r x s) r' y \<longleftrightarrow> waits s r' y \<and> (y = x \<longrightarrow> r' \<noteq> r)"
  using popped_elem(2,3) [OF assms] by (auto simp: taken_back_def waits_def dest: notin_set_remove1)

lemma taken_back_bits:
  assumes rep: "reader_rep sz n tasks rs f s" and j: "j < length rs" "rs ! j = r" and x: "x \<in> set (l_popped s r)"
  shows "bit (expectedReads (f_chain f x) AND NOT (2 ^ j)) i \<longleftrightarrow> i < length rs \<and> waits (taken_back r x s) (rs ! i) x"
    and "expectedReads (f_chain f x) AND NOT (2 ^ j) = 0 \<longleftrightarrow> \<not> awaited rs (taken_back r x s) x"
proof -
  note D = reader_repD [OF rep]
  have b: "bit (expectedReads (f_chain f x) AND NOT (2 ^ j)) i \<longleftrightarrow> i < length rs \<and> waits (taken_back r x s) (rs ! i) x" for i
  proof -
    have "bit (expectedReads (f_chain f x)) i \<longleftrightarrow> i < length rs \<and> waits s (rs ! i) x"
      using D(8) popped_elem(1) [OF rep j x] by (simp add: bits_ok_def)
    moreover have "i < length rs \<Longrightarrow> rs ! i = r \<longleftrightarrow> i = j" using D(2) j nth_eq_iff_index_eq by blast
    ultimately show ?thesis using D(4) by (auto simp: bit_simps taken_back_waits [OF rep j x])
  qed
  then show "bit (expectedReads (f_chain f x) AND NOT (2 ^ j)) i \<longleftrightarrow> i < length rs \<and> waits (taken_back r x s) (rs ! i) x" .
  show "expectedReads (f_chain f x) AND NOT (2 ^ j) = 0 \<longleftrightarrow> \<not> awaited rs (taken_back r x s) x"
    unfolding no_bits awaited_def list_ex_iff b by (metis in_set_conv_nth)
qed

lemma taken_back_ok:
  assumes rep: "reader_rep sz n tasks rs f s" and j: "j < length rs" "rs ! j = r" and x: "x \<in> set (l_popped s r)"
    and R: "relinked (f_readers f r) R" "links_rep R (remove1 x (l_popped s r))" and i: "i < length rs"
  shows "reader_ok (tasks (rs ! i)) i (((f_readers f)(r := R)) (rs ! i)) (l_queue s) (l_popped (taken_back r x s) (rs ! i))
    (l_unread (taken_back r x s) (rs ! i)) (l_visible (taken_back r x s) (rs ! i))"
proof (cases "i = j")
  case True
  have "set (remove1 x (l_popped s r)) \<subseteq> set (l_popped s r)" by (rule set_remove1_subset)
  then show ?thesis using reader_repD(9) [OF rep j(1)] R popped_elem(3) [OF rep j x] j(2) True
    by (auto simp: taken_back_def reader_ok_def relinked_def window_rep_def distinct_remove1)
next
  case False
  then have "rs ! i \<noteq> r" using reader_repD(2) [OF rep] i j nth_eq_iff_index_eq by blast
  then show ?thesis using reader_repD(9) [OF rep i] by (simp add: taken_back_def)
qed

lemma give_back_rep:
  assumes rep: "reader_rep sz n tasks rs f s" and j: "j < length rs" "rs ! j = r" and x: "x \<in> set (l_popped s r)"
  shows "\<exists>f1. gf_releaseElement (Some x) (readerId (f_readers f r)) f = Inr f1 \<and>
    (\<forall>R. relinked (f_readers f r) R \<longrightarrow> links_rep R (remove1 x (l_popped s r)) \<longrightarrow>
      f_readers f1 = f_readers f \<and> reader_rep sz n tasks rs (upd_reader r (\<lambda>_. R) f1) (give_back rs r x s))"
proof -
  note D = reader_repD [OF rep]
  note xq = popped_elem [OF rep j x]
  let ?R = "f_readers f r" and ?pp = "l_popped s r"
  define s1 where "s1 = taken_back r x s"
  obtain A B where Q: "l_queue s = A @ x # B" "x \<notin> set A" using xq(1) by (meson split_list_first)
  note w = taken_back_waits [OF rep j x, folded s1_def]
  note b = taken_back_bits [OF rep j x, folded s1_def]
  have l1: "l_queue s1 = l_queue s" "l_unused s1 = l_unused s" "l_allocated s1 = l_allocated s" by (simp_all add: s1_def taken_back_def)
  obtain f1 where f1: "gf_releaseElement (Some x) (2 ^ j) f = Inr f1" "m_readers f1 = m_readers f"
    "f_readers f1 = f_readers f" "m_readerBitMask f1 = m_readerBitMask f"
    "\<And>y. expectedReads (f_chain f1 y) = (if y = x then expectedReads (f_chain f x) AND NOT (2 ^ j) else expectedReads (f_chain f y))"
    "queue_shape sz n f1 (if awaited rs s1 x then (l_unused s, l_allocated s, A @ x # B) else (x # l_unused s, l_allocated s, A @ B))"
    using releaseElement_shape [OF D(5) [unfolded Q(1)], of "2 ^ j"] b(2) by auto
  have "reader_rep sz n tasks rs (upd_reader r (\<lambda>_. R) f1) (give_back rs r x s)"
    if R: "relinked ?R R" "links_rep R (remove1 x ?pp)" for R
  proof -
    define f' where "f' = upd_reader r (\<lambda>_. R) f1"
    have f': "next_reader f' = next_reader f" "f_readers f' = (f_readers f)(r := R)" "f_chain f' = f_chain f1"
      "m_readers f' = m_readers f" "m_readerBitMask f' = m_readerBitMask f" "queue_shape sz n f' = queue_shape sz n f1"
      using R(1) f1(2-4) by (auto simp: f'_def relinked_def)
    note oks = taken_back_ok [OF rep j x R, folded s1_def f'(2)]
    have bits: "awaited rs s1 y \<and> (\<forall>i. bit (expectedReads (f_chain f' y)) i \<longleftrightarrow> i < length rs \<and> waits s1 (rs ! i) y)"
      if "y \<in> set (l_queue s)" "y \<noteq> x" for y
      using D(8) that f1(5) by (simp add: bits_ok_def f'(3) w awaited_def)
    show ?thesis
    proof (cases "awaited rs s1 x")
      case True
      then have "bits_ok rs f' s1" using bits b(1) f1(5) unfolding bits_ok_def by (auto simp: l1 f'(3))
      then have "reader_rep sz n tasks rs f' s1"
        using rep oks f1(6) True Q(1) by (simp add: reader_rep_def f'(1,4-6) l1)
      then show ?thesis using True by (simp add: give_back_taken s1_def [symmetric] f'_def)
    next
      case False
      define s2 where "s2 = s1\<lparr>l_queue := remove1 x (l_queue s1), l_unused := x # l_unused s1\<rparr>"
      have q2: "l_queue s2 = A @ B" "l_queue s2 = remove1 x (l_queue s)" using Q by (simp_all add: s2_def l1 remove1_append)
      have s2: "l_popped s2 = l_popped s1" "l_unread s2 = l_unread s1" "l_visible s2 = l_visible s1" "l_unused s2 = x # l_unused s"
        "l_allocated s2 = l_allocated s" by (simp_all add: s2_def l1)
      have w2: "waits s2 r' y = waits s1 r' y" "awaited rs s2 y = awaited rs s1 y" for r' y by (simp_all add: waits_def awaited_def s2)
      have "bits_ok rs f' s2" unfolding bits_ok_def w2 using bits xq(5) by (auto simp: q2(2))
      moreover have "reader_ok (tasks (rs ! i)) i (f_readers f' (rs ! i)) (l_queue s2) (l_popped s2 (rs ! i)) (l_unread s2 (rs ! i))
          (l_visible s2 (rs ! i))" if i: "i < length rs" for i
        unfolding s2 q2(2) using False i xq(1)
        by (intro reader_ok_remove [OF oks [OF i]]) (auto simp: awaited_def list_ex_iff waits_def)
      ultimately have "reader_rep sz n tasks rs f' s2"
        using rep f1(6) False q2(1) by (simp add: reader_rep_def f'(1,4-6) s2)
      then show ?thesis using False by (simp add: give_back_taken s1_def [symmetric] s2_def [symmetric] f'_def)
    qed
  qed
  then show ?thesis using f1(1,3) xq(4) by auto
qed

lemma upd_reader_const: "upd_reader r g f = upd_reader r (\<lambda>_. g (f_readers f r)) f"
  by (simp add: upd_reader_def)

lemma release_head_rep:
  assumes rep: "reader_rep sz n tasks rs f s" and j: "j < length rs" "rs ! j = r" and pp: "l_popped s r = x # pp"
  shows "\<exists>h f'. allocated_elements (f_readers f r) = Some h \<and> link_data f r h = sz * x \<and> rd_fifo (f_readers f r) \<and>
    release_head r h f = Inr f' \<and> reader_rep sz n tasks rs f' (give_back rs r x s) \<and> l_popped (give_back rs r x s) r = pp"
proof -
  note D = reader_repD [OF rep]
  let ?R = "f_readers f r"
  have ok: "reader_ok (tasks r) j ?R (l_queue s) (x # pp) (l_unread s r) (l_visible s r)" using D(9) [OF j(1)] j(2) pp by simp
  then have "links_rep ?R (x # pp)" by (simp add: reader_ok_def)
  then obtain h where h: "allocated_elements ?R = Some h" "lk_element (links ?R h) = x"
    "links_rep ((free_link h ?R)\<lparr>allocated_elements := lk_next (links ?R h)\<rparr>) pp"
    using links_rep_head by blast
  let ?R' = "(free_link h ?R)\<lparr>allocated_elements := lk_next (links ?R h)\<rparr>"
  have "relinked ?R ?R'" "links_rep ?R' (remove1 x (l_popped s r))"
    using h(3) pp by (simp_all add: relinked_def free_link_def set_link_def)
  with give_back_rep [OF rep j, of x] pp obtain f1 where f1: "gf_releaseElement (Some x) (readerId ?R) f = Inr f1"
    "f_readers f1 = f_readers f" "reader_rep sz n tasks rs (upd_reader r (\<lambda>_. ?R') f1) (give_back rs r x s)" by force
  have "release_head r h f = Inr (upd_reader r (\<lambda>_. ?R') f1)"
    using f1(1,2) h(2) upd_reader_const [of r "\<lambda>x. (free_link h x)\<lparr>allocated_elements := lk_next (links x h)\<rparr>" f1]
    by (simp add: release_head_def)
  moreover have "x \<in> set (l_queue s)" using ok by (auto simp: reader_ok_def)
  then have "link_data f r h = sz * x" using queue_shapeD(6) [OF D(5), of x] h(2) by (simp add: link_data_def)
  moreover have "l_popped (give_back rs r x s) r = pp" using pp by (simp add: give_back_def Let_def)
  ultimately show ?thesis using h(1) f1(3) ok by (auto simp: reader_ok_def)
qed

lemma links_rep_Nil: "links_rep R [] \<Longrightarrow> allocated_elements R = None"
  by (auto simp: links_rep_def)

lemma return_all_loop:
  "reader_rep sz n tasks rs f s \<Longrightarrow> j < length rs \<Longrightarrow> rs ! j = r \<Longrightarrow> l_popped s r = pp \<Longrightarrow>
    \<exists>f'. for_ptr (\<lambda>_ _. True) (\<lambda>f _. allocated_elements (f_readers f r))
        (\<lambda>h f. if rd_fifo (f_readers f r) then release_head r h f else Inl NullPointer)
        (allocated_elements (f_readers f r)) f = Inr (None, f') \<and> reader_rep sz n tasks rs f' (fold (give_back rs r) pp s)"
proof (induction pp arbitrary: f s)
  case Nil
  then have "links_rep (f_readers f r) []" using reader_repD(9) [OF Nil(1,2)] by (simp add: reader_ok_def)
  then show ?case using Nil(1) links_rep_Nil by simp
next
  case (Cons x pp)
  obtain h f1 where h: "allocated_elements (f_readers f r) = Some h" "rd_fifo (f_readers f r)" "release_head r h f = Inr f1"
    "reader_rep sz n tasks rs f1 (give_back rs r x s)" "l_popped (give_back rs r x s) r = pp"
    using release_head_rep [OF Cons.prems] by blast
  show ?case using Cons.IH [OF h(4) Cons.prems(2,3) h(5)] h(1-3) by (simp add: for_ptr_Some)
qed

lemma return_all_step:
  assumes "reader_rep sz n tasks rs f s" and "j < length rs" "rs ! j = r"
  shows "step_ok sz n tasks rs (ReturnAll r) f s"
  using return_all_loop [OF assms refl] by (auto simp: rd_releaseAll_def)

text \<open>The search of \<^verbatim>\<open>release\<close> for the link before the one with the data.\<close>

lemma link_search:
  "chain h (Some l) (l # ls) \<Longrightarrow>
    \<exists>p. for_ptr (\<lambda>_ x. case h x of None \<Rightarrow> False | Some k \<Rightarrow> \<not> P k) (\<lambda>_ x. h x) (\<lambda>_. Inr) (Some l) () = Inr (Some p, ()) \<and>
      (case find P ls of None \<Rightarrow> h p = None | Some k \<Rightarrow> \<exists>A B. l # ls = A @ p # k # B)"
proof (induction ls arbitrary: l)
  case Nil
  then show ?case by (simp add: for_ptr_stop)
next
  case (Cons k ls)
  then have n: "h l = Some k" and c: "chain h (Some k) (k # ls)" by auto
  show ?case
  proof (cases "P k")
    case True
    then show ?thesis using n by (intro exI [of _ l]) (auto simp: for_ptr_stop intro: exI [of _ "[]"])
  next
    case False
    obtain p where p: "for_ptr (\<lambda>_ x. case h x of None \<Rightarrow> False | Some k \<Rightarrow> \<not> P k) (\<lambda>_ x. h x) (\<lambda>_. Inr) (Some k) () =
        Inr (Some p, ())" "case find P ls of None \<Rightarrow> h p = None | Some j \<Rightarrow> \<exists>A B. k # ls = A @ p # j # B"
      using Cons.IH [OF c] by blast
    have "for_ptr (\<lambda>_ x. case h x of None \<Rightarrow> False | Some k \<Rightarrow> \<not> P k) (\<lambda>_ x. h x) (\<lambda>_. Inr) (Some l) () = Inr (Some p, ())"
      using p(1) n False by (simp add: for_ptr_Some [of _ _ _ l])
    moreover have "case find P (k # ls) of None \<Rightarrow> h p = None | Some j \<Rightarrow> \<exists>A B. l # k # ls = A @ p # j # B"
      using p(2) False by (auto split: option.splits) (metis append_Cons)
    ultimately show ?thesis by blast
  qed
qed

lemma find_map_elements: "find P (map g ls) = map_option g (find (\<lambda>l. P (g l)) ls)"
  by (induction ls) auto

lemma return_step:
  assumes rep: "reader_rep sz n tasks rs f s" and j: "j < length rs" "rs ! j = r"
  shows "step_ok sz n tasks rs (Return r d) f s"
proof (cases "l_popped s r")
  case Nil
  then have "links_rep (f_readers f r) []" using reader_repD(9) [OF rep j(1)] j(2) by (simp add: reader_ok_def)
  then have "rd_release r d f = Inr f" using links_rep_Nil by (simp add: rd_release_def)
  then show ?thesis using rep Nil by (simp add: allocated_at_def)
next
  case (Cons x pp)
  note D = reader_repD [OF rep]
  let ?R = "f_readers f r"
  have ok: "reader_ok (tasks r) j ?R (l_queue s) (l_popped s r) (l_unread s r) (l_visible s r)" using D(9) [OF j(1)] j(2) by simp
  obtain h f1 where h: "allocated_elements ?R = Some h" "link_data f r h = sz * x" "rd_fifo ?R" "release_head r h f = Inr f1"
    "reader_rep sz n tasks rs f1 (give_back rs r x s)" using release_head_rep [OF rep j Cons] by blast
  show ?thesis
  proof (cases "sz * x = d")
    case True
    then have "rd_release r d f = Inr f1" using h by (simp add: rd_release_def)
    then show ?thesis using h(5) True Cons by (simp add: allocated_at_def)
  next
    case False
    have "links_rep ?R (l_popped s r)" using ok by (simp add: reader_ok_def)
    then obtain ls ul where l: "chain (link_next ?R) (Some h) (h # ls)" "chain (link_next ?R) (unusedLinks ?R) ul"
      "distinct ((h # ls) @ ul)" "map (\<lambda>l. lk_element (links ?R l)) (h # ls) = l_popped s r"
      "length (h # ls) + length ul = maximumFifoReaderLinks"
      using h(1) unfolding links_rep_def Cons by (auto simp: map_eq_Cons_conv)
    let ?P = "\<lambda>l. link_data f r l = d" and ?g = "\<lambda>l. lk_element (links ?R l)"
    have sub: "set (l_popped s r) \<subseteq> set (l_queue s)" using ok by (auto simp: reader_ok_def)
    have "link_data f r l = sz * ?g l" if "l \<in> set ls" for l
    proof -
      have "?g l \<in> set (map ?g (h # ls))" using that by simp
      then show ?thesis using sub queue_shapeD(6) [OF D(5), of "?g l"] unfolding l(4) by (auto simp: link_data_def)
    qed
    then have "find ?P ls = find (\<lambda>l. sz * ?g l = d) ls" by (intro find_cong) auto
    then have fd: "allocated_at sz d (l_popped s r) = map_option ?g (find ?P ls)"
      using False l(4) unfolding allocated_at_def Cons by (auto simp: find_map_elements)
    obtain p where p: "for_ptr (\<lambda>_ x. case link_next ?R x of None \<Rightarrow> False | Some k \<Rightarrow> \<not> ?P k)
        (\<lambda>_. link_next ?R) (\<lambda>_. Inr) (Some h) () = Inr (Some p, ())"
      "case find ?P ls of None \<Rightarrow> link_next ?R p = None | Some k \<Rightarrow> \<exists>A B. h # ls = A @ p # k # B"
      using link_search [OF l(1), of ?P] by blast
    have rel: "rd_release r d f = (case lk_next (links ?R p) of None \<Rightarrow> Inr f
       | Some k \<Rightarrow> bindR (gf_releaseElement (Some (?g k)) (readerId ?R) f) (\<lambda>f1.
           Inr (upd_reader r (\<lambda>x. set_link p (\<lambda>lk. lk\<lparr>lk_next := lk_next (links x k)\<rparr>) (free_link k x)) f1)))"
      using h(1-3) False p(1) by (simp add: rd_release_def)
    show ?thesis
    proof (cases "find ?P ls")
      case None
      then show ?thesis using rel p(2) fd rep by simp
    next
      case (Some k)
      then obtain A B where s: "h # ls = A @ p # k # B" using p(2) by auto
      let ?R' = "set_link p (\<lambda>lk. lk\<lparr>lk_next := lk_next (links ?R k)\<rparr>) (free_link k ?R)"
      have n: "link_next ?R p = Some k" using chain_unlink(2) [OF l(1) [unfolded s]] .
      have pp: "l_popped s r = map ?g (A @ [p]) @ ?g k # map ?g B" using l(4) unfolding s by simp
      have "distinct (l_popped s r)" using ok by (simp add: reader_ok_def)
      then have "remove1 (?g k) (l_popped s r) = map ?g (A @ p # B)" unfolding pp by (simp add: remove1_append)
      moreover have "links_rep ?R' (map ?g (A @ p # B))"
        using links_rep_middle [of ?R A p k B ul] l(1,2,3,5) h(1) unfolding s by simp
      ultimately obtain f2 where f2: "gf_releaseElement (Some (?g k)) (readerId ?R) f = Inr f2" "f_readers f2 = f_readers f"
        "reader_rep sz n tasks rs (upd_reader r (\<lambda>_. ?R') f2) (give_back rs r (?g k) s)"
        using give_back_rep [OF rep j, of "?g k"] pp by (force simp: relinked_def free_link_def set_link_def)
      have "rd_release r d f = Inr (upd_reader r (\<lambda>_. ?R') f2)" using rel n f2(1,2)
        upd_reader_const [of r "\<lambda>x. set_link p (\<lambda>lk. lk\<lparr>lk_next := lk_next (links x k)\<rparr>) (free_link k x)" f2] by simp
      then show ?thesis using fd Some f2(3) by simp
    qed
  qed
qed

section \<open>Sequences of calls\<close>

text \<open>
  The discipline of the reading tasks: when one is started again, either it still has elements to
  pop, or it has released everything it popped. The calls are those of associated readers.
\<close>

fun in_time :: "reader_id list \<Rightarrow> reader_call \<Rightarrow> reader_lists \<Rightarrow> bool" where
  "in_time rs (Writer c) s \<longleftrightarrow> True"
| "in_time rs (Start r k) s \<longleftrightarrow> r \<in> set rs \<and> (k = 0 \<or> l_popped s r = [] \<or> l_visible s r > 0)"
| "in_time rs (Read r) s \<longleftrightarrow> r \<in> set rs"
| "in_time rs (Return r d) s \<longleftrightarrow> r \<in> set rs"
| "in_time rs (ReturnAll r) s \<longleftrightarrow> r \<in> set rs"
| "in_time rs (Unread r) s \<longleftrightarrow> r \<in> set rs"

lemma unread_step:
  assumes "reader_rep sz n tasks rs f s" and "j < length rs" "rs ! j = r"
  shows "step_ok sz n tasks rs (Unread r) f s"
  using assms(1) reader_repD(9) [OF assms(1,2)] assms(3) by (auto simp: rd_isEmpty_def reader_ok_def window_rep_def)

lemma reader_step_rep:
  assumes "reader_rep sz n tasks rs f s" and "in_time rs c s"
  shows "step_ok sz n tasks rs c f s"
  using assms writer_step [OF assms(1)] start_step [OF assms(1)] read_step [OF assms(1)] return_step [OF assms(1)]
    return_all_step [OF assms(1)] unread_step [OF assms(1)]
  by (cases c) (auto simp only: in_time.simps in_set_conv_nth)

fun run_reader :: "(reader_id \<Rightarrow> task_id) \<Rightarrow> reader_call list \<Rightarrow> fifo \<Rightarrow> fifo_answer list res" where
  "run_reader tasks [] f = Inr []"
| "run_reader tasks (c # cs) f =
     bindR (reader_step tasks c f) (\<lambda>(f', a). bindR (run_reader tasks cs f') (\<lambda>as. Inr (a # as)))"

fun run_reader_spec :: "nat \<Rightarrow> reader_id list \<Rightarrow> reader_call list \<Rightarrow> reader_lists \<Rightarrow> fifo_answer list res" where
  "run_reader_spec sz rs [] s = Inr []"
| "run_reader_spec sz rs (c # cs) s =
     bindR (reader_spec sz rs c s) (\<lambda>(s', a). bindR (run_reader_spec sz rs cs s') (\<lambda>as. Inr (a # as)))"

fun disciplined :: "nat \<Rightarrow> reader_id list \<Rightarrow> reader_call list \<Rightarrow> reader_lists \<Rightarrow> bool" where
  "disciplined sz rs [] s \<longleftrightarrow> True"
| "disciplined sz rs (c # cs) s \<longleftrightarrow> in_time rs c s \<and>
     (case reader_spec sz rs c s of Inl e \<Rightarrow> True | Inr (s', a) \<Rightarrow> disciplined sz rs cs s')"

lemma run_reader_rep:
  "reader_rep sz n tasks rs f s \<Longrightarrow> disciplined sz rs cs s \<Longrightarrow> run_reader tasks cs f = run_reader_spec sz rs cs s"
proof (induction cs arbitrary: f s)
  case (Cons c cs)
  show ?case
  proof (cases "reader_spec sz rs c s")
    case (Inl e)
    then show ?thesis using reader_step_rep [OF Cons.prems(1), of c] Cons.prems(2) by simp
  next
    case (Inr x)
    then obtain s' a f' where "reader_spec sz rs c s = Inr (s', a)" "reader_step tasks c f = Inr (f', a)"
      "reader_rep sz n tasks rs f' s'" using reader_step_rep [OF Cons.prems(1), of c] Cons.prems(2) by (cases x) auto
    then show ?thesis using Cons.IH Cons.prems(2) by simp
  qed
qed simp

text \<open>Associating a reader with an empty FIFO touches neither its elements nor the links of a reader.\<close>

definition same_links :: "fifo_reader \<Rightarrow> fifo_reader \<Rightarrow> bool" where
  "same_links R R' \<longleftrightarrow> readerTask R' = readerTask R \<and> rd_first R' = rd_first R \<and> rd_last R' = rd_last R \<and>
     allocated_elements R' = allocated_elements R \<and> unusedLinks R' = unusedLinks R \<and> links R' = links R"

lemma associate_frame:
  "gf_associateReader r f = Inr f' \<Longrightarrow> m_fifo_first f = None \<Longrightarrow>
    queue_shape sz n f' = queue_shape sz n f \<and> m_fifo_first f' = None \<and> (\<forall>x. same_links (f_readers f x) (f_readers f' x))"
  by (auto simp: gf_associateReader_def bindR_eq_Inr Let_def same_links_def split: if_splits)

lemma associate_all_frame:
  "associate_all rs f = Inr f' \<Longrightarrow> m_fifo_first f = None \<Longrightarrow>
    queue_shape sz n f' = queue_shape sz n f \<and> (\<forall>x. same_links (f_readers f x) (f_readers f' x))"
proof (induction rs arbitrary: f)
  case (Cons r rs)
  then obtain f1 where f1: "gf_associateReader r f = Inr f1" "associate_all rs f1 = Inr f'" by (auto simp: bindR_eq_Inr)
  note a = associate_frame [OF f1(1) Cons.prems(2)]
  then show ?case using Cons.IH [OF f1(2)] by (simp add: same_links_def)
qed (simp add: same_links_def)

lemma reader_rep_init:
  assumes "readers_distinct tasks rs"
  shows "\<exists>f. associate_all rs (gf_init sz n tasks) = Inr f \<and> reader_rep sz n tasks rs f (lists_init n)"
proof -
  let ?f0 = "gf_init sz n tasks"
  have q: "queue_rep sz n ?f0 (rev [0..<n], [], [])" by (rule queue_rep_init)
  have d: "distinct rs" "rs \<noteq> []" "length rs \<le> 8" using assms by (auto simp: readers_distinct_def distinct_map)
  obtain f where f: "associate_all rs ?f0 = Inr f" "readers_rep f (rev rs) []"
    using associate_all_rep [OF readers_rep_none [OF q], of rs] d by auto
  have e: "m_fifo_first ?f0 = None" using queue_shapeD(3) [OF queue_repD(1) [OF q]] by simp
  note a = associate_all_frame [OF f(1) e, of sz n]
  have R: "f_readers ?f0 = (\<lambda>r. reader_init (tasks r))"
  proof -
    have "f_readers (fold (add_unused sz) xs g) = f_readers g" for xs g
      by (induction xs arbitrary: g) (simp_all add: add_unused_def)
    then show ?thesis by (simp add: gf_init_def)
  qed
  have "reader_ok (tasks (rs ! j)) j (f_readers f (rs ! j)) [] [] [] 0" if "j < length rs" for j
  proof -
    let ?r = "rs ! j"
    have s: "same_links (reader_init (tasks ?r)) (f_readers f ?r)" using a R by simp
    then have "links_rep (f_readers f ?r) []" using links_rep_init [of "tasks ?r"] by (simp add: links_rep_def same_links_def)
    then show ?thesis using s f(2) that by (simp add: reader_ok_def readers_rep_def window_rep_def same_links_def reader_init_def)
  qed
  moreover have "m_readerBitMask f = mask (length rs)" using f(2) d(2) by (cases rs) (simp_all add: readers_rep_def)
  ultimately have "reader_rep sz n tasks rs f (lists_init n)"
    using assms f(2) a queue_repD(1) [OF q] by (simp add: reader_rep_def lists_init_def bits_ok_def readers_rep_def)
  then show ?thesis using f(1) by blast
qed

text \<open>C12: A FIFO with up to eight readers answers every sequence of calls of the writer and the readers, in which a
  reader has released what it popped whenever its task starts with nothing left to pop, like lists: a
  start makes as many further elements visible to its reader as there were notifications, each reader
  pops visible elements only, in the order of the pushes and each once, an element is unused again as
  soon as every reader has popped and released it and not before, and the only fault is a start for
  more elements than were pushed.\<close>
theorem reader_refines_lists:
  assumes "readers_distinct tasks rs" and "disciplined sz rs cs (lists_init n)"
  shows "bindR (associate_all rs (gf_init sz n tasks)) (run_reader tasks cs) = run_reader_spec sz rs cs (lists_init n)"
proof -
  obtain f where f: "associate_all rs (gf_init sz n tasks) = Inr f" "reader_rep sz n tasks rs f (lists_init n)"
    using reader_rep_init [OF assms(1)] by blast
  then show ?thesis using run_reader_rep [OF f(2) assms(2)] by simp
qed

theorem reader_refines_lists_witness:
  "bindR (associate_all [3, 5] (gf_init 8 2 id))
     (run_reader id [Writer Allocate, Writer (Push 8), Start 3 1, Read 3, Return 3 8, Writer Allocate, Writer Allocate,
       Start 5 1, Read 5, ReturnAll 5, Writer Allocate, Unread 5]) =
   Inr [Data (Some 8), Flag True, Done, Data (Some 8), Done, Data (Some 0), Data None, Done, Data (Some 8), Done,
     Data (Some 8), Flag True]"
proof -
  let ?cs = "[Writer Allocate, Writer (Push 8), Start 3 1, Read 3, Return 3 8, Writer Allocate, Writer Allocate,
       Start 5 1, Read 5, ReturnAll 5, Writer Allocate, Unread 5]"
  note e = lists_init_def allocated_at_def maximumFifoReaderLinks_def upt_rec writer_lists_def set_lists_def give_back_def
    awaited_def waits_def Let_def
  have "readers_distinct id [3, 5]" by (simp add: readers_distinct_def)
  moreover have "disciplined 8 [3, 5] ?cs (lists_init 2)" by (simp add: e)
  ultimately show ?thesis using reader_refines_lists [of id "[3, 5]" 8 ?cs 2] by (simp add: e)
qed

text \<open>The data written with success, those a reader popped, and the number of elements its task was started for.\<close>

fun written :: "reader_call list \<Rightarrow> fifo_answer list \<Rightarrow> data_ptr list" where
  "written (Writer (Push d) # cs) (Flag True # as) = d # written cs as"
| "written (c # cs) (a # as) = written cs as"
| "written cs as = []"

fun read_data :: "reader_id \<Rightarrow> reader_call list \<Rightarrow> fifo_answer list \<Rightarrow> data_ptr list" where
  "read_data r (Read r' # cs) (Data (Some d) # as) = (if r' = r then d # read_data r cs as else read_data r cs as)"
| "read_data r (c # cs) (a # as) = read_data r cs as"
| "read_data r cs as = []"

fun started_for :: "reader_id \<Rightarrow> reader_call list \<Rightarrow> nat" where
  "started_for r (Start r' k # cs) = (if r' = r then unat k else 0) + started_for r cs"
| "started_for r (c # cs) = started_for r cs"
| "started_for r [] = 0"

lemma give_back_other [simp]: "l_unread (give_back rs r x s) = l_unread s" "l_visible (give_back rs r x s) = l_visible s"
  by (simp_all add: give_back_def Let_def)

lemma fold_give_back_other [simp]:
  "l_unread (fold (give_back rs r) xs s) = l_unread s" "l_visible (fold (give_back rs r) xs s) = l_visible s"
  by (induction xs arbitrary: s) simp_all

lemma written_step:
  assumes "a = snd (spec_call sz c (l_unused s, l_allocated s, l_queue s))" and "c \<noteq> Pop"
  shows "\<exists>new. l_unread (writer_lists sz c s) = (\<lambda>r. l_unread s r @ new) \<and>
    map ((*) sz) new @ written cs as = written (Writer c # cs) (a # as)"
proof (cases c)
  case (Push d)
  show ?thesis
  proof (cases "allocated_at sz d (l_allocated s)")
    case (Some x)
    then have "sz * x = d" by (auto simp: allocated_at_def find_Some_iff)
    then show ?thesis using assms(1) Push Some by (intro exI [of _ "[x]"]) (simp add: writer_lists_def)
  qed (use assms(1) Push in \<open>simp add: writer_lists_def\<close>)
qed (use assms in \<open>auto simp: writer_lists_def split: list.splits option.splits\<close>)

lemma reader_spec_order:
  "run_reader_spec sz rs cs s = Inr as \<Longrightarrow> l_visible s r \<le> length (l_unread s r) \<Longrightarrow>
    \<exists>rest. map ((*) sz) (l_unread s r) @ written cs as = read_data r cs as @ rest \<and>
      length (read_data r cs as) \<le> l_visible s r + started_for r cs"
proof (induction cs arbitrary: s as)
  case (Cons c cs)
  obtain s' a as' where s: "reader_spec sz rs c s = Inr (s', a)" "run_reader_spec sz rs cs s' = Inr as'" "as = a # as'"
    using Cons.prems(1) by (auto simp: bindR_eq_Inr)
  note IH = Cons.IH [OF s(2)]
  show ?case
  proof (cases c)
    case (Writer w)
    show ?thesis
    proof (cases "w = Pop")
      case False
      then have a: "a = snd (spec_call sz w (l_unused s, l_allocated s, l_queue s))" "s' = writer_lists sz w s"
        using s(1) Writer by simp_all
      obtain new where n: "l_unread s' = (\<lambda>r. l_unread s r @ new)"
        "map ((*) sz) new @ written cs as' = written (Writer w # cs) (a # as')"
        using written_step [OF a(1) False] a(2) by blast
      have "l_visible s' = l_visible s" using a(2) by (simp add: writer_lists_def split: prod.split)
      then show ?thesis using IH Cons.prems(2) n s(3) Writer by auto
    qed (use IH Cons.prems(2) s Writer in auto)
  next
    case (Start r' k)
    then show ?thesis using IH s Cons.prems(2) by (cases "r' = r") (auto split: if_splits)
  next
    case (Read r')
    show ?thesis
    proof (cases "r' = r \<and> l_visible s r > 0 \<and> length (l_popped s r) \<noteq> maximumFifoReaderLinks")
      case True
      then obtain x q w where q: "l_unread s r = x # q" "l_visible s r = Suc w"
        using Cons.prems(2) by (cases "l_unread s r"; cases "l_visible s r") auto
      then show ?thesis using IH s(1,3) Cons.prems(2) Read True by auto
    qed (use IH s(1,3) Cons.prems(2) Read in \<open>auto split: if_splits\<close>)
  next
    case (Return r' d)
    then show ?thesis using IH s(1,3) Cons.prems(2) by (auto split: option.splits)
  qed (use IH s(1,3) Cons.prems(2) in auto)
qed simp

text \<open>What a disciplined reader pops are the first of the data pushed, in the same order, and not more
  than its task was started for, whatever the other readers do.\<close>
theorem reader_in_order:
  assumes "readers_distinct tasks rs" and "disciplined sz rs cs (lists_init n)"
    and "bindR (associate_all rs (gf_init sz n tasks)) (run_reader tasks cs) = Inr as"
  shows "\<exists>rest. written cs as = read_data r cs as @ rest \<and> length (read_data r cs as) \<le> started_for r cs"
proof -
  have "run_reader_spec sz rs cs (lists_init n) = Inr as"
    using run_reader_rep [OF _ assms(2)] reader_rep_init [OF assms(1), of sz n] assms(3) by auto
  from reader_spec_order [OF this, of r] show ?thesis by (simp add: lists_init_def)
qed

theorem reader_in_order_witness:
  "\<exists>as. bindR (associate_all [3, 5] (gf_init 8 2 id)) (run_reader id
      [Writer Allocate, Writer (Push 8), Writer Allocate, Writer (Push 0), Start 5 2, Read 5, Read 5]) = Inr as \<and>
    read_data 5 [Writer Allocate, Writer (Push 8), Writer Allocate, Writer (Push 0), Start 5 2, Read 5, Read 5] as = [8, 0] \<and>
    written [Writer Allocate, Writer (Push 8), Writer Allocate, Writer (Push 0), Start 5 2, Read 5, Read 5] as = [8, 0]"
proof -
  let ?cs = "[Writer Allocate, Writer (Push 8), Writer Allocate, Writer (Push 0), Start 5 2, Read 5, Read 5]"
  let ?as = "[Data (Some 8), Flag True, Data (Some 0), Flag True, Done, Data (Some 8), Data (Some 0)]"
  note e = lists_init_def allocated_at_def maximumFifoReaderLinks_def upt_rec writer_lists_def set_lists_def
  have d: "readers_distinct id [3, 5]" "disciplined 8 [3, 5] ?cs (lists_init 2)" by (simp_all add: readers_distinct_def e)
  obtain f where f: "associate_all [3, 5] (gf_init 8 2 id) = Inr f" "reader_rep 8 2 id [3, 5] f (lists_init 2)"
    using reader_rep_init [OF d(1)] by blast
  have r: "bindR (associate_all [3, 5] (gf_init 8 2 id)) (run_reader id ?cs) = Inr ?as"
    using run_reader_rep [OF f(2) d(2)] f(1) by (simp add: e)
  from reader_in_order [OF d r, of 5] r show ?thesis by auto
qed

end
