(* ===== verification/DataChannels.thy ===== *)
theory DataChannels
  imports FifoQueue RunQueue
begin

text \<open>
  The channels with data of \<^verbatim>\<open>channels/include/channels\<close>: the signal channel, the single and
  the double buffer, and the FIFO over the generic one. Each operation that sends data ends
  with the push of the channel, so its state is the data with the world.
\<close>

section \<open>Signal channel\<close>

definition signal_trigger :: "channel_id \<Rightarrow> 'p world \<Rightarrow> 'p world res" where
  "signal_trigger c w = channel_push c w"

section \<open>Single buffer\<close>

text \<open>The pointer argument of \<^verbatim>\<open>send\<close> points to the buffer of the channel or to data elsewhere.\<close>

datatype 'v pointer = Internal nat | Elsewhere 'v

record 'v single_buffer =
  sb_data :: 'v

definition sb_init :: "'v \<Rightarrow> 'v single_buffer" where
  "sb_init v = \<lparr>sb_data = v\<rparr>"

text \<open>\<^verbatim>\<open>getBuffer\<close> answers the address of the only element.\<close>

definition sb_getBuffer :: "'v single_buffer \<Rightarrow> 'v pointer" where
  "sb_getBuffer b = Internal 0"

definition sb_read :: "'v single_buffer \<Rightarrow> 'v" where
  "sb_read b = sb_data b"

definition sb_send :: "'v \<Rightarrow> channel_id \<Rightarrow> 'v single_buffer \<times> 'p world \<Rightarrow> ('v single_buffer \<times> 'p world) res" where
  "sb_send v c s = bindR (channel_push c (snd s)) (\<lambda>w'. Inr ((fst s)\<lparr>sb_data := v\<rparr>, w'))"

definition sb_send_pointer ::
  "'v pointer \<Rightarrow> channel_id \<Rightarrow> 'v single_buffer \<times> 'p world \<Rightarrow> ('v single_buffer \<times> 'p world) res" where
  "sb_send_pointer p c s =
     (let b = (case p of Internal i \<Rightarrow> fst s | Elsewhere v \<Rightarrow> (fst s)\<lparr>sb_data := v\<rparr>)
      in bindR (channel_push c (snd s)) (\<lambda>w'. Inr (b, w')))"

section \<open>Double buffer\<close>

text \<open>The array has \<^verbatim>\<open>bufferSize\<close> = 2 elements; a reference to one of them is its index.\<close>

record 'v double_buffer =
  db_data :: "'v list"
  backIndex :: nat

definition db_init :: "'v \<Rightarrow> 'v double_buffer" where
  "db_init v = \<lparr>db_data = replicate 2 v, backIndex = 1\<rparr>"

definition db_read :: "'v double_buffer \<Rightarrow> nat" where
  "db_read b = (backIndex b + 1) mod 2"

definition db_getBuffer :: "'v double_buffer \<Rightarrow> nat" where
  "db_getBuffer b = backIndex b"

definition db_send :: "'v \<Rightarrow> channel_id \<Rightarrow> 'v double_buffer \<times> 'p world \<Rightarrow> ('v double_buffer \<times> 'p world) res" where
  "db_send v c s =
     (let b = fst s;
          b' = b\<lparr>db_data := (db_data b)[backIndex b := v], backIndex := (backIndex b + 1) mod 2\<rparr>
      in bindR (channel_push c (snd s)) (\<lambda>w'. Inr (b', w')))"

definition db_send_pointer ::
  "'v pointer \<Rightarrow> channel_id \<Rightarrow> 'v double_buffer \<times> 'p world \<Rightarrow> ('v double_buffer \<times> 'p world) res" where
  "db_send_pointer p c s =
     (let b = fst s
      in bindR
           (case p of
              Elsewhere v \<Rightarrow> Inr (b\<lparr>db_data := (db_data b)[backIndex b := v]\<rparr>)
            | Internal i \<Rightarrow>
                if i = backIndex b then Inr b
                else if i < length (db_data b) then Inr (b\<lparr>db_data := (db_data b)[backIndex b := db_data b ! i]\<rparr>)
                else Inl OutOfBounds)
           (\<lambda>b1. bindR (channel_push c (snd s)) (\<lambda>w'. Inr (b1\<lparr>backIndex := (backIndex b1 + 1) mod 2\<rparr>, w'))))"

section \<open>FIFO\<close>

text \<open>\<open>fc_data\<close> is the array \<^verbatim>\<open>m_data\<close>, addressed by the data pointers of the generic FIFO.\<close>

record 'v fifo_channel =
  fc_fifo :: fifo
  fc_data :: "data_ptr \<Rightarrow> 'v"

definition fc_allocate :: "'v fifo_channel \<Rightarrow> 'v fifo_channel \<times> data_ptr option" where
  "fc_allocate b = (case gf_allocate (fc_fifo b) of (f, d) \<Rightarrow> (b\<lparr>fc_fifo := f\<rparr>, d))"

definition fc_release :: "data_ptr \<Rightarrow> 'v fifo_channel \<Rightarrow> 'v fifo_channel res" where
  "fc_release d b = bindR (gf_release d 1 (fc_fifo b)) (\<lambda>f. Inr (b\<lparr>fc_fifo := f\<rparr>))"

definition fc_push :: "data_ptr \<Rightarrow> channel_id \<Rightarrow> 'v fifo_channel \<times> 'p world \<Rightarrow>
    (('v fifo_channel \<times> 'p world) \<times> bool) res" where
  "fc_push d c s =
     bindR (gf_push d (fc_fifo (fst s))) (\<lambda>(f, ok).
       let b = (fst s)\<lparr>fc_fifo := f\<rparr>
       in if ok then bindR (channel_push c (snd s)) (\<lambda>w'. Inr ((b, w'), True)) else Inr ((b, snd s), False))"

definition fc_push_value :: "'v \<Rightarrow> channel_id \<Rightarrow> 'v fifo_channel \<times> 'p world \<Rightarrow>
    (('v fifo_channel \<times> 'p world) \<times> bool) res" where
  "fc_push_value v c s =
     (case fc_allocate (fst s) of (b, target) \<Rightarrow>
        case target of
          None \<Rightarrow> Inr ((b, snd s), False)
        | Some d \<Rightarrow> fc_push d c (b\<lparr>fc_data := (fc_data b)(d := v)\<rparr>, snd s))"

definition fc_pop :: "'v fifo_channel \<Rightarrow> 'v fifo_channel \<times> data_ptr option" where
  "fc_pop b = (case gf_pop (fc_fifo b) of (f, d) \<Rightarrow> (b\<lparr>fc_fifo := f\<rparr>, d))"

definition fc_isEmpty :: "'v fifo_channel \<Rightarrow> bool" where
  "fc_isEmpty b = gf_isEmpty (fc_fifo b)"

definition fc_associateReader :: "reader_id \<Rightarrow> 'v fifo_channel \<Rightarrow> 'v fifo_channel res" where
  "fc_associateReader r b = bindR (gf_associateReader r (fc_fifo b)) (\<lambda>f. Inr (b\<lparr>fc_fifo := f\<rparr>))"

definition fc_releaseReader :: "reader_id \<Rightarrow> 'v fifo_channel \<Rightarrow> 'v fifo_channel res" where
  "fc_releaseReader r b = bindR (gf_releaseReader r (fc_fifo b)) (\<lambda>f. Inr (b\<lparr>fc_fifo := f\<rparr>))"

definition fc_synchronizeStart :: "task_id \<Rightarrow> uint \<Rightarrow> 'v fifo_channel \<Rightarrow> 'v fifo_channel res" where
  "fc_synchronizeStart t volume b = bindR (gf_synchronize t volume (fc_fifo b)) (\<lambda>f. Inr (b\<lparr>fc_fifo := f\<rparr>))"

definition fc_getlastPushed :: "'v fifo_channel \<Rightarrow> data_ptr option" where
  "fc_getlastPushed b = getlastPushed (fc_fifo b)"

text \<open>The constructor over the generic FIFO of \<open>n\<close> elements of \<open>sz\<close> bytes, and the typed reader.\<close>

definition fc_init :: "nat \<Rightarrow> nat \<Rightarrow> (reader_id \<Rightarrow> task_id) \<Rightarrow> (data_ptr \<Rightarrow> 'v) \<Rightarrow> 'v fifo_channel" where
  "fc_init sz n tasks memory = \<lparr>fc_fifo = gf_init sz n tasks, fc_data = memory\<rparr>"

definition fr_release :: "reader_id \<Rightarrow> data_ptr \<Rightarrow> 'v fifo_channel \<Rightarrow> 'v fifo_channel res" where
  "fr_release r d b = bindR (rd_release r d (fc_fifo b)) (\<lambda>f. Inr (b\<lparr>fc_fifo := f\<rparr>))"

definition fr_pop :: "reader_id \<Rightarrow> 'v fifo_channel \<Rightarrow> ('v fifo_channel \<times> data_ptr option) res" where
  "fr_pop r b = bindR (rd_pop r (fc_fifo b)) (\<lambda>(f, d). Inr (b\<lparr>fc_fifo := f\<rparr>, d))"

section \<open>Properties\<close>

text \<open>C28: After a send on the double buffer, by value or by a pointer, a read refers to the data sent, and the
  reference of a reader from before the send still refers to the data it had.\<close>
theorem double_buffer_keeps_reader:
  assumes "length (db_data b) = 2" and "backIndex b < 2" and "channel_push c w = Inr w'"
    and "case p of Internal i \<Rightarrow> i < 2 \<and> db_data b ! i = v | Elsewhere u \<Rightarrow> u = v"
  shows "\<exists>b'. db_send_pointer p c (b, w) = Inr (b', w') \<and> db_send v c (b, w) = Inr (b', w') \<and>
    db_data b' ! db_read b' = v \<and> db_data b' ! db_read b = db_data b ! db_read b \<and>
    length (db_data b') = 2 \<and> backIndex b' < 2 \<and> db_getBuffer b' = db_read b"
proof -
  obtain x y where xy: "db_data b = [x, y]"
    using assms(1) by (metis (no_types) Suc_1 length_0_conv length_Suc_conv One_nat_def)
  from assms(2) consider "backIndex b = 0" | "backIndex b = 1" by linarith
  then show ?thesis
    using assms(3,4) xy
    by cases (auto simp: db_send_pointer_def db_send_def db_read_def db_getBuffer_def Let_def nth_Cons'
        less_Suc_eq numeral_2_eq_2 split: pointer.splits)
qed

lemma demo_push: "channel_push 0 (demo_world fifo_ops fifo_init) = Inr (demo_world fifo_ops fifo_init)"
  by (simp add: channel_push_def demo_eval)

theorem double_buffer_keeps_reader_witness:
  "\<exists>b'. db_send_pointer (Elsewhere 7) 0 (db_init (5::nat), demo_world fifo_ops fifo_init) =
       Inr (b', demo_world fifo_ops fifo_init) \<and> db_data b' ! db_read b' = 7"
  using double_buffer_keeps_reader [where b = "db_init 5" and p = "Elsewhere 7" and v = 7, OF _ _ demo_push]
  by (auto simp: db_init_def)

text \<open>Pushing a value on a FIFO channel without readers takes one unused element, stores the value there, appends
  it to the queue and notifies every connected input once; on a full FIFO it returns false, changes
  nothing and notifies nobody.\<close>
theorem fifo_push_value:
  assumes "queue_rep sz n (fc_fifo b) (us, al, q)" and "run_inv fifo_queue fifo_nextTask fifo_rep w ts ex"
    and "wired w c is" and "\<forall>i\<in>set is. in_task (w_inputs w i) \<noteq> None"
  shows "case us of
      [] \<Rightarrow> fc_push_value v c (b, w) = Inr ((b, w), False)
    | x # us' \<Rightarrow> (\<exists>b' w'. fc_push_value v c (b, w) = Inr ((b', w'), True) \<and>
        queue_rep sz n (fc_fifo b') (us', al, q @ [x]) \<and> fc_data b' = (fc_data b)(sz * x := v) \<and>
        w_inputs w' = (\<lambda>i. if i \<in> set is then fst (input_notified (w_inputs w i)) else w_inputs w i))"
proof (cases us)
  case Nil
  then have "m_unused (fc_fifo b) = None" using queue_shapeD(1) [OF queue_repD(1) [OF assms(1)]] by simp
  then show ?thesis using Nil by (simp add: fc_push_value_def fc_allocate_def gf_allocate_def)
next
  case (Cons x us')
  obtain f d where f: "gf_allocate (fc_fifo b) = (f, d)" by (cases "gf_allocate (fc_fifo b)")
  then have r: "queue_rep sz n f (us', x # al, q)" and d: "d = Some (sz * x)"
    using fifo_step_rep [OF assms(1), of Allocate] Cons by auto
  have "allocated_at sz (sz * x) (x # al) = Some x" by (simp add: allocated_at_def)
  with fifo_step_rep [OF r, of "Push (sz * x)"] obtain f' where
    "gf_push (sz * x) f = Inr (f', True)" "queue_rep sz n f' (us', al, q @ [x])"
    by (auto simp: bindR_eq_Inr)
  moreover obtain w' where "channel_push c w = Inr w'"
    "w_inputs w' = (\<lambda>i. if i \<in> set is then fst (input_notified (w_inputs w i)) else w_inputs w i)"
    using fifo_open.channel_push_inv [OF assms(2-4)] by auto
  ultimately show ?thesis using Cons f d
    by (simp add: fc_push_value_def fc_allocate_def fc_push_def Let_def)
qed

theorem fifo_push_value_witness:
  "\<exists>b' w'. fc_push_value (7::nat) 0 (\<lparr>fc_fifo = gf_init 4 1 id, fc_data = (\<lambda>_. 0)\<rparr>, demo_world fifo_ops fifo_init) =
     Inr ((b', w'), True) \<and> fc_data b' 0 = 7"
proof -
  let ?b = "\<lparr>fc_fifo = gf_init 4 1 id, fc_data = (\<lambda>_. 0::nat)\<rparr>" and ?w = "demo_world fifo_ops fifo_init"
  have q: "queue_rep 4 1 (fc_fifo ?b) ([0], [], [])" using queue_rep_init [of 4 1 id] by simp
  have "run_inv fifo_queue fifo_nextTask fifo_rep ?w [] {}"
    by (rule fresh_inv) (use demo_fresh [of fifo_ops fifo_init] fifo_rep_init in \<open>simp_all add: fifo_ops_def\<close>)
  moreover have "wired ?w 0 []" by (simp add: wired_def demo_eval)
  ultimately show ?thesis using fifo_push_value [OF q, of ?w "[]" "{}" 0 "[]" 7] by auto
qed

end
