(* ===== verification/UnitTestScheduler.thy ===== *)
theory UnitTestScheduler
  imports EventProofs
begin

text \<open>
  The scheduler for unit tests (\<^verbatim>\<open>src/schedulerUnitTest.cpp\<close>): it has no executors, a
  simulated clock, and \<^verbatim>\<open>schedule\<close> performs the events and the tasks in the calling
  thread. Its \<^verbatim>\<open>signal\<close>, \<^verbatim>\<open>startTimer\<close> and \<^verbatim>\<open>setZeroTime\<close> do nothing; the world only
  counts the calls.
\<close>

section \<open>Operations\<close>

definition step_time :: "time \<Rightarrow> 'p world \<Rightarrow> 'p world" where
  "step_time span w = w\<lparr>w_now := w_now w + span\<rparr>"

text \<open>The inner loop over the tasks in the run queue; \<open>app t\<close> is the application's \<^verbatim>\<open>execute\<close>.\<close>

partial_function (option) task_loop ::
  "(task_id \<Rightarrow> 'p world \<Rightarrow> 'p world res) \<Rightarrow> 'p world \<Rightarrow> 'p world res option" where
  "task_loop app w =
     (case pol_nextTask (w_ops w) (w_policy w) of
        Inl e \<Rightarrow> Some (Inl e)
      | Inr r \<Rightarrow>
          (case snd r of
             None \<Rightarrow> Some (Inr (w\<lparr>w_policy := fst r\<rparr>))
           | Some t \<Rightarrow>
               (case execute app t (w\<lparr>w_policy := fst r\<rparr>) of
                  Inl e \<Rightarrow> Some (Inl e)
                | Inr w1 \<Rightarrow> task_loop app w1)))"

declare task_loop.simps [code]

text \<open>\<^verbatim>\<open>do { ... } while (clock.isPending())\<close>\<close>

partial_function (option) schedule_loop ::
  "(task_id \<Rightarrow> 'p world \<Rightarrow> 'p world res) \<Rightarrow> 'p world \<Rightarrow> 'p world res option" where
  "schedule_loop app w =
     (case handleEvents w of
        Inl e \<Rightarrow> Some (Inl e)
      | Inr w1 \<Rightarrow>
          (case task_loop app w1 of
             None \<Rightarrow> None
           | Some (Inl e) \<Rightarrow> Some (Inl e)
           | Some (Inr w2) \<Rightarrow> if isPending (w_now w2) (w_clock w2) then schedule_loop app w2 else Some (Inr w2)))"

declare schedule_loop.simps [code]

definition schedule :: "(task_id \<Rightarrow> 'p world \<Rightarrow> 'p world res) \<Rightarrow> time \<Rightarrow> 'p world \<Rightarrow> 'p world res" where
  "schedule app timeSpan w =
     (case schedule_loop app (step_time timeSpan w) of None \<Rightarrow> Inl Diverges | Some r \<Rightarrow> r)"

definition unitTest_waitUntilEmpty ::
  "(task_id \<Rightarrow> 'p world \<Rightarrow> 'p world res) \<Rightarrow> 'p world \<Rightarrow> 'p world res" where
  "unitTest_waitUntilEmpty app w = schedule app 0 w"

definition unitTest_terminate ::
  "(task_id \<Rightarrow> 'p world \<Rightarrow> 'p world res) \<Rightarrow> bool \<Rightarrow> 'p world \<Rightarrow> 'p world res" where
  "unitTest_terminate app = terminate_scheduler (unitTest_waitUntilEmpty app)"

section \<open>Events\<close>

text \<open>A running scheduler with a periodic event of 10 ms, started at time 0, that notifies input 2 of task 5.\<close>

definition ticking :: "fifo_policy world res" where
  "ticking =
     (let w = task_construct 5 (upd_input 2 (\<lambda>x. input_configure 1 False (x\<lparr>in_channel := Some 7\<rparr>))
                (task_create 5 9 [2] (event_create 7 0 (world_init fifo_ops fifo_init))))
      in bindR (associateTo 2 7 w) (\<lambda>(w, _). bindR (start True w) (setPeriodicTiming 10 10 7)))"

text \<open>An event with a shorter period than the time step of a unit test is performed once for every period
  that ends within the step: twice here, and each time its task is executed.\<close>
theorem event_fires_every_period:
  "bindR ticking (\<lambda>w. bindR (schedule (\<lambda>t w. Inr (barrier_increase 1 3 w)) 20 w) (\<lambda>w.
     Inr (counter (w_barriers w 3), nextActivation_ms (ev_of w 7), state_of w 5))) = Inr (2, 30, TASK_WAIT)"
  by code_simp

section \<open>Executing what is in the run queue\<close>

lemma no_event_handle: "queueHead (w_clock w) = None \<Longrightarrow> handleEvents w = Inr w"
  by (simp add: handleEvents_def handle_loop.simps readFirstPending_def)

text \<open>
  A task with one synchronized input, which is in the run queue. Its \<open>execute\<close> counts the
  executions in a barrier.
\<close>

abbreviation counting :: "channel_id \<Rightarrow> task_id \<Rightarrow> 'p world \<Rightarrow> 'p world res" where
  "counting c \<equiv> (\<lambda>t w. Inr (barrier_increase 1 c w))"

definition one_input :: "'p world \<Rightarrow> task_id \<Rightarrow> input_id \<Rightarrow> bool" where
  "one_input w t i \<longleftrightarrow> task_inputs (w_tasks w t) = [i] \<and> plain_inputs w t [i] \<and>
     task_condition (w_tasks w t) = None \<and> task_group (w_tasks w t) = None \<and>
     in_synchron (w_inputs w i) \<and> \<not> in_final (w_inputs w i) \<and> 0 < in_threshold (w_inputs w i)"

lemma consumed_one:
  assumes "in_synchron x"
  shows "refilled x \<longleftrightarrow> in_threshold x \<le> in_missed x"
    "in_missed (consumed x) = (if in_threshold x \<le> in_missed x then in_missed x - in_threshold x else 0)"
    "in_notifications (consumed x) = (if in_threshold x \<le> in_missed x then in_threshold x else in_missed x)"
    "in_threshold (consumed x) = in_threshold x" "in_synchron (consumed x) = in_synchron x"
    "in_final (consumed x) = in_final x" "in_task (consumed x) = in_task x" "in_channel (consumed x) = in_channel x"
  using assms by (simp_all add: input_consumed_def)

lemma execute_counting:
  assumes "one_input w t i"
  shows "execute (counting c) t w =
    (let w1 = consume_in [i] (barrier_increase 1 c w)
     in if in_threshold (w_inputs w i) \<le> in_missed (w_inputs w i)
        then perform t (set_state t TASK_RUN w1) else Inr (set_state t TASK_WAIT w1))"
proof -
  let ?w = "barrier_increase 1 c w"
  have f: "w_tasks ?w = w_tasks w" "w_inputs ?w = w_inputs w" "w_channels ?w = w_channels w"
    by (simp_all add: barrier_increase_def upd_barrier_def)
  have s: "synchronize [i] v = Inr v" if "w_inputs v = w_inputs w" for v
    using that assms by (auto simp: one_input_def plain_inputs_def input_synchronize_def channel_synchronize_def split: option.split)
  have "plain_inputs ?w t [i]" using assms f by (simp add: one_input_def plain_inputs_def)
  from task_reset_plain [OF _ _ this] have r: "task_reset t ?w =
      (if refilled (w_inputs w i) \<and> array_isActivated None [consumed (w_inputs w i)]
       then perform t (set_state t TASK_RUN (consume_in [i] ?w)) else Inr (set_state t TASK_WAIT (consume_in [i] ?w)))"
    using assms f by (simp add: one_input_def)
  have x: "in_synchron (w_inputs w i)" "\<not> in_final (w_inputs w i)" using assms by (auto simp: one_input_def)
  have "refilled (w_inputs w i) \<and> array_isActivated None [consumed (w_inputs w i)] \<longleftrightarrow>
      in_threshold (w_inputs w i) \<le> in_missed (w_inputs w i)"
    using x by (auto simp: array_default consumed_one input_isActivated_def)
  moreover have "execute (counting c) t w = task_reset t ?w"
    using assms f s [of w] s [of ?w] by (simp add: execute_def one_input_def finalizeExecution_def)
  ultimately show ?thesis using r by (simp add: Let_def)
qed

lemma counting_world:
  assumes "one_input w t i"
    and v_def: "v = consume_in [i] (barrier_increase 1 c w)"
  shows "w_inputs v = (w_inputs w)(i := consumed (w_inputs w i))" "w_tasks v = w_tasks w"
    "counter (w_barriers v c) = counter (w_barriers w c) + 1" "w_clock v = w_clock w" "w_now v = w_now w"
    "w_running v = w_running w" "w_channels v = w_channels w"
  by (auto simp: v_def consume_in_def barrier_increase_def upd_barrier_def)

lemma one_input_net: "same_net w w' \<Longrightarrow> one_input w t i \<Longrightarrow> one_input w' t i"
  by (simp add: one_input_def plain_inputs_def same_net_fields)

lemma one_input_next:
  assumes "one_input w t i"
  shows "one_input (set_state t s (consume_in [i] (barrier_increase 1 c w))) t i"
  using assms counting_world [OF assms refl, of c]
  by (auto simp: one_input_def plain_inputs_def upd_task_def consumed_one)

lemma word_div_step:
  fixes m d :: "'a::len word"
  assumes "d \<le> m" and "0 < d"
  shows "m div d = (m - d) div d + 1" "m mod d = (m - d) mod d"
proof -
  have u: "unat (m - d) = unat m - unat d" using assms(1) by (simp add: unat_sub)
  have d: "unat d \<le> unat m" "0 < unat d" using assms by (simp_all add: word_le_nat_alt unat_gt_0 word_gt_0)
  have q: "unat m div unat d = Suc ((unat m - unat d) div unat d)" by (rule le_div_geq [OF d(2,1)])
  have "unat m div unat d < 2 ^ LENGTH('a)"
    using le_less_trans [OF div_le_dividend [of "unat m" "unat d"] unsigned_less] .
  then have "unat ((m - d) div d + 1) = Suc (unat ((m - d) div d))"
    using q u by (subst unat_plus_simple [THEN iffD1]) (simp_all add: unat_div_distrib no_olen_add_nat)
  then have "unat (m div d) = unat ((m - d) div d + 1)" using q u by (simp add: unat_div_distrib)
  then show "m div d = (m - d) div d + 1" by (simp only: word_unat_eq_iff)
  have "unat (m mod d) = unat ((m - d) mod d)" using d u by (simp add: unat_mod_distrib le_mod_geq)
  then show "m mod d = (m - d) mod d" by (simp only: word_unat_eq_iff)
qed

lemma word_div_less:
  fixes m d :: "'a::len word"
  assumes "m < d"
  shows "m div d = 0" "m mod d = m"
proof -
  have "unat (m div d) = unat 0" "unat (m mod d) = unat m"
    using assms by (simp_all add: unat_div_distrib unat_mod_distrib word_less_nat_alt)
  then show "m div d = 0" "m mod d = m" by (simp_all only: word_unat_eq_iff)
qed

context open_policy
begin

lemma inv_data: "inv (consume_in is (barrier_increase n c w)) ts ex = inv w ts ex"
  by (simp add: run_inv_def consume_in_def barrier_increase_def upd_barrier_def)

text \<open>One execution: the task is taken out of the run queue, executed, and queued again if it missed enough.\<close>

lemma task_loop_step:
  assumes i: "inv w [t] {}" and o: "one_input w t i" and "w_running w"
  defines "x \<equiv> w_inputs w i"
  shows "\<exists>p w'. nextTask (w_policy w) = Inr (p, Some t) \<and> execute (counting c) t (w\<lparr>w_policy := p\<rparr>) = Inr w' \<and>
    inv w' (if in_threshold x \<le> in_missed x then [t] else []) {} \<and> one_input w' t i \<and> w_running w' \<and>
    w_clock w' = w_clock w \<and> w_now w' = w_now w \<and> w_inputs w' i = consumed x \<and>
    counter (w_barriers w' c) = counter (w_barriers w c) + 1 \<and>
    (\<not> in_threshold x \<le> in_missed x \<longrightarrow> state_of w' t = TASK_WAIT)"
proof -
  have rep: "rep (w_policy w) [t]" and ops: "w_ops w = \<lparr>pol_queue = queue, pol_nextTask = nextTask\<rparr>"
    using i by (simp_all add: run_inv_def)
  obtain p where p: "nextTask (w_policy w) = Inr (p, Some t)" using nextTask_step [OF rep] by auto
  let ?w = "w\<lparr>w_policy := p\<rparr>"
  have i1: "inv ?w [] {t}" using take_inv [OF i, of p "Some t"] p ops by simp
  have o1: "one_input ?w t i" using o by (simp add: one_input_def plain_inputs_def)
  let ?v = "consume_in [i] (barrier_increase 1 c ?w)"
  note v = counting_world [OF o1 refl, of c]
  have iv: "inv (set_state t s ?v) [] {}" if "s \<noteq> TASK_RUN" for s
    using taken_out [of ?v "[]" "{t}" t s] i1 that by (simp add: inv_data)
  have d: "w_inputs (set_state t s ?v) i = consumed x" "w_running (set_state t s ?v)"
    "counter (w_barriers (set_state t s ?v) c) = counter (w_barriers w c) + 1"
    "w_clock (set_state t s ?v) = w_clock w" "w_now (set_state t s ?v) = w_now w" for s
    using v assms(3) by (simp_all add: upd_task_def x_def)
  note ex = execute_counting [OF o1, of c]
  show ?thesis
  proof (cases "in_threshold x \<le> in_missed x")
    case False
    then have "execute (counting c) t ?w = Inr (set_state t TASK_WAIT ?v)" using ex by (simp add: x_def Let_def)
    moreover have "state_of (set_state t TASK_WAIT ?v) t = TASK_WAIT" by (simp add: upd_task_def)
    ultimately show ?thesis
      using p iv [of TASK_WAIT] one_input_next [OF o1, of TASK_WAIT c] d [of TASK_WAIT] False by auto
  next
    case True
    let ?u = "set_state t TASK_RESET ?v"
    have "state_of ?u t \<noteq> TASK_RUN" by (simp add: upd_task_def)
    from perform_inv [OF iv [of TASK_RESET] this] obtain w' ts' where w': "perform t (set_state t TASK_RUN ?u) = Inr w'"
      "inv w' ts' {}" "same_net ?u w'" "ts' = place (w_policy ?u) t []" using d(2) [of TASK_RESET] by auto
    have "mset ts' = {#t#}" using mset_place [of "w_policy ?u" t "[]"] w'(4) by simp
    then have ts: "ts' = [t]" by simp
    have "execute (counting c) t ?w = Inr w'" using ex True w'(1) by (simp add: x_def Let_def)
    then show ?thesis
      using p w'(2) ts True one_input_net [OF w'(3) one_input_next [OF o1]] d [of TASK_RESET]
        same_net_fields [OF w'(3)] by auto
  qed
qed

lemma task_loop_counts:
  "inv w [t] {} \<Longrightarrow> one_input w t i \<Longrightarrow> w_running w \<Longrightarrow> unat (in_missed (w_inputs w i)) = k \<Longrightarrow>
   \<exists>w'. task_loop (counting c) w = Some (Inr w') \<and> inv w' [] {} \<and> state_of w' t = TASK_WAIT \<and> w_clock w' = w_clock w \<and>
     counter (w_barriers w' c) = counter (w_barriers w c) + 1 + in_missed (w_inputs w i) div in_threshold (w_inputs w i) \<and>
     in_notifications (w_inputs w' i) = in_missed (w_inputs w i) mod in_threshold (w_inputs w i) \<and>
     in_missed (w_inputs w' i) = 0"
proof (induction k arbitrary: w rule: less_induct)
  case (less k)
  let ?x = "w_inputs w i"
  obtain p w1 where p: "nextTask (w_policy w) = Inr (p, Some t)"
    and e: "execute (counting c) t (w\<lparr>w_policy := p\<rparr>) = Inr w1"
    and w1: "inv w1 (if in_threshold ?x \<le> in_missed ?x then [t] else []) {}" "one_input w1 t i" "w_running w1"
      "w_clock w1 = w_clock w" "w_inputs w1 i = consumed ?x" "counter (w_barriers w1 c) = counter (w_barriers w c) + 1"
      "\<not> in_threshold ?x \<le> in_missed ?x \<longrightarrow> state_of w1 t = TASK_WAIT"
    using task_loop_step [OF less.prems(1-3), of c] by auto
  have ops: "w_ops w = \<lparr>pol_queue = queue, pol_nextTask = nextTask\<rparr>" using less.prems(1) by (simp add: run_inv_def)
  have loop: "task_loop (counting c) w = task_loop (counting c) w1"
    by (subst task_loop.simps) (simp add: ops p e)
  have x: "in_synchron ?x" "0 < in_threshold ?x" using less.prems(2) by (auto simp: one_input_def)
  show ?case
  proof (cases "in_threshold ?x \<le> in_missed ?x")
    case True
    have "unat (in_missed (w_inputs w1 i)) < k"
      using True x less.prems(4) by (simp add: w1(5) consumed_one unat_sub word_le_nat_alt word_less_nat_alt)
    moreover have "inv w1 [t] {}" using w1(1) True by simp
    ultimately show ?thesis
      using less.IH [OF _ _ w1(2,3) refl] True x w1(4,6) word_div_step [OF True x(2)]
      by (auto simp: loop w1(5) consumed_one algebra_simps)
  next
    case False
    then have i1: "inv w1 [] {}" using w1(1) by simp
    then obtain p' where p': "nextTask (w_policy w1) = Inr (p', None)" "rep p' []"
      using nextTask_step [of "w_policy w1" "[]"] by (auto simp: run_inv_def)
    have "w_ops w1 = \<lparr>pol_queue = queue, pol_nextTask = nextTask\<rparr>" using i1 by (simp add: run_inv_def)
    then have "task_loop (counting c) w1 = Some (Inr (w1\<lparr>w_policy := p'\<rparr>))"
      by (subst task_loop.simps) (simp add: p')
    moreover have "inv (w1\<lparr>w_policy := p'\<rparr>) [] {}" using i1 p'(2) by (simp add: run_inv_def)
    ultimately show ?thesis
      using False x w1 word_div_less [of "in_missed ?x" "in_threshold ?x"]
      by (auto simp: loop consumed_one not_le)
  qed
qed

end

section \<open>No activation is lost\<close>

lemma schedule_no_events:
  assumes "queueHead (w_clock w) = None" and "task_loop app (step_time span w) = Some (Inr w')"
    and "w_clock w' = w_clock w"
  shows "schedule app span w = Inr w'"
proof -
  have "handleEvents (step_time span w) = Inr (step_time span w)"
    by (rule no_event_handle) (simp add: step_time_def assms(1))
  moreover have "\<not> isPending (w_now w') (w_clock w')" by (simp add: isPending_def assms(1,3))
  ultimately have "schedule_loop app (step_time span w) = Some (Inr w')"
    using assms(2) by (subst schedule_loop.simps) simp
  then show ?thesis by (simp add: schedule_def)
qed

text \<open>C13: Take a unit test scheduler without events, in which exactly one task waits in the run queue, and let that task have one
  synchronized, non-final input on a plain channel with a threshold above 0, no alternative condition and no group, and an
  \<^verbatim>\<open>execute\<close> that does nothing but count its calls. Then, for every policy that meets the contract of a run queue and accepts
  every task that does not wait, \<^verbatim>\<open>schedule\<close> returns; it has executed the task once for the notifications that queued it, and
  once more for every further full bunch of notifications (as many as the threshold) that the input has counted meanwhile, modulo the
  width of the counter; the run queue is empty, the task waits, and the rest of the notifications is kept.\<close>
theorem schedule_executes_all:
  assumes "open_policy q nt rep place adm" and "run_inv q nt rep w [t] {}" and "w_running w"
    and "queueHead (w_clock w) = None" and "one_input w t i"
  shows "\<exists>w'. schedule (\<lambda>t w. Inr (barrier_increase 1 c w)) span w = Inr w' \<and>
    run_inv q nt rep w' [] {} \<and> state_of w' t = TASK_WAIT \<and>
    counter (w_barriers w' c) = counter (w_barriers w c) + 1 + in_missed (w_inputs w i) div in_threshold (w_inputs w i) \<and>
    in_notifications (w_inputs w' i) = in_missed (w_inputs w i) mod in_threshold (w_inputs w i) \<and>
    in_missed (w_inputs w' i) = 0"
proof -
  let ?w = "step_time span w"
  have "run_inv q nt rep ?w [t] {}" "one_input ?w t i" "w_running ?w"
    using assms(2-) by (simp_all add: step_time_def run_inv_def one_input_def plain_inputs_def)
  from open_policy.task_loop_counts [OF assms(1) this refl, of c] show ?thesis
    using schedule_no_events [OF assms(4)] by (auto simp: step_time_def)
qed

theorem schedule_executes_all_witness:
  "\<exists>w'. schedule (\<lambda>t w. Inr (barrier_increase 1 3 w)) 0
     (upd_input 2 (\<lambda>x. x\<lparr>in_missed := 5, in_threshold := 2\<rparr>)
       (set_state 5 TASK_RUN ((demo_world fifo_ops fifo_init)\<lparr>w_policy := fifo_init\<lparr>fifo_head := Some 5, fifo_tail := Some 5\<rparr>\<rparr>))) =
     Inr w' \<and> counter (w_barriers w' 3) = 3"
proof -
  let ?p = "fifo_init\<lparr>fifo_head := Some 5, fifo_tail := Some 5\<rparr>"
  let ?w = "upd_input 2 (\<lambda>x. x\<lparr>in_missed := 5, in_threshold := 2\<rparr>)
       (set_state 5 TASK_RUN ((demo_world fifo_ops fifo_init)\<lparr>w_policy := ?p\<rparr>))"
  have "fifo_rep ?p [5]" by (simp add: fifo_rep_def fifo_init_def)
  then have "run_inv fifo_queue fifo_nextTask fifo_rep ?w [5] {}"
    by (simp add: run_inv_def demo_eval fifo_ops_def)
  moreover have "one_input ?w 5 2" "w_running ?w" "queueHead (w_clock ?w) = None" "counter (w_barriers ?w 3) = 0"
    "in_missed (w_inputs ?w 2) = 5" "in_threshold (w_inputs ?w 2) = 2"
    by (simp_all add: one_input_def demo_eval plain_inputs_def clock_init_def)
  ultimately show ?thesis using schedule_executes_all [OF fifo_open.open_policy_axioms, of ?w 5 2 3 0] by auto
qed

end
