(* ===== verification/Statistics.thy ===== *)
theory Statistics
  imports Prelude
begin

text \<open>
  The statistics of \<^verbatim>\<open>src/taskStatistics.cpp\<close> and \<^verbatim>\<open>include/taskStatistics.h\<close>: counters of
  32 bits with the largest values seen since they were last read.
\<close>

section \<open>Operations\<close>

record statistic =
  lostActivations :: uint
  lostEvents :: uint
  maxRunQueueLength :: uint
  maxEvents :: uint
  maxQueingTime :: time

record statistics =
  stat_states :: statistic
  currentRunQueueLength :: uint
  currentEventNumber :: uint

definition upd_stat :: "(statistic \<Rightarrow> statistic) \<Rightarrow> statistics \<Rightarrow> statistics" where
  "upd_stat f s = s\<lparr>stat_states := f (stat_states s)\<rparr>"

definition stat_clear :: "statistics \<Rightarrow> statistics" where
  "stat_clear s = upd_stat (\<lambda>x. x\<lparr>lostEvents := lostEvents x - lostEvents x,
     lostActivations := lostActivations x - lostActivations x,
     maxRunQueueLength := currentRunQueueLength s, maxEvents := currentEventNumber s\<rparr>) s"

text \<open>The constructor does not initialize \<open>states\<close>; its argument is what the memory held.\<close>

definition stat_init :: "statistic \<Rightarrow> statistics" where
  "stat_init memory = stat_clear \<lparr>stat_states = memory, currentRunQueueLength = 0, currentEventNumber = 0\<rparr>"

definition stat_read :: "statistics \<Rightarrow> statistics \<times> statistic" where
  "stat_read s = (stat_clear s, stat_states s)"

definition reportActivation :: "statistics \<Rightarrow> statistics" where
  "reportActivation s =
     (let s1 = s\<lparr>currentRunQueueLength := currentRunQueueLength s + 1\<rparr>
      in if currentRunQueueLength s1 > maxRunQueueLength (stat_states s1)
         then upd_stat (\<lambda>x. x\<lparr>maxRunQueueLength := currentRunQueueLength s1\<rparr>) s1 else s1)"

definition reportLostActivation :: "statistics \<Rightarrow> statistics" where
  "reportLostActivation = upd_stat (\<lambda>x. x\<lparr>lostActivations := lostActivations x + 1\<rparr>)"

definition reportTermination :: "statistics \<Rightarrow> statistics" where
  "reportTermination s = s\<lparr>currentRunQueueLength := currentRunQueueLength s - 1\<rparr>"

definition reportIdle :: "statistics \<Rightarrow> statistics" where
  "reportIdle s = s"

definition reportAddEvent :: "statistics \<Rightarrow> statistics" where
  "reportAddEvent s =
     (let s1 = s\<lparr>currentEventNumber := currentEventNumber s + 1\<rparr>
      in if currentEventNumber s1 > maxEvents (stat_states s1)
         then upd_stat (\<lambda>x. x\<lparr>maxEvents := currentEventNumber s1\<rparr>) s1 else s1)"

definition reportFireEvent :: "statistics \<Rightarrow> statistics" where
  "reportFireEvent s = s\<lparr>currentEventNumber := currentEventNumber s - 1\<rparr>"

definition reportLostEvent :: "statistics \<Rightarrow> statistics" where
  "reportLostEvent = upd_stat (\<lambda>x. x\<lparr>lostEvents := lostEvents x + 1\<rparr>)"

definition reportQueuingTime :: "time \<Rightarrow> statistics \<Rightarrow> statistics" where
  "reportQueuingTime queueingTime s =
     (if queueingTime > maxQueingTime (stat_states s)
      then upd_stat (\<lambda>x. x\<lparr>maxQueingTime := queueingTime\<rparr>) s else s)"

section \<open>What the maxima mean\<close>

text \<open>The reports about the run queue, and its length after each of them.\<close>

datatype queue_report = Activation | Termination

fun report_queue :: "queue_report list \<Rightarrow> statistics \<Rightarrow> statistics" where
  "report_queue [] s = s"
| "report_queue (Activation # rs) s = report_queue rs (reportActivation s)"
| "report_queue (Termination # rs) s = report_queue rs (reportTermination s)"

fun queue_lengths :: "nat \<Rightarrow> queue_report list \<Rightarrow> nat list" where
  "queue_lengths n [] = [n]"
| "queue_lengths n (Activation # rs) = n # queue_lengths (n + 1) rs"
| "queue_lengths n (Termination # rs) = n # queue_lengths (n - 1) rs"

text \<open>No task terminates that was not activated, and the length stays within the counter.\<close>

fun reports_ok :: "nat \<Rightarrow> queue_report list \<Rightarrow> bool" where
  "reports_ok n [] \<longleftrightarrow> True"
| "reports_ok n (Activation # rs) \<longleftrightarrow> n + 1 < 2 ^ 32 \<and> reports_ok (n + 1) rs"
| "reports_ok n (Termination # rs) \<longleftrightarrow> 0 < n \<and> reports_ok (n - 1) rs"

lemma uint_less_of_nat: "n < 2 ^ 32 \<Longrightarrow> m < 2 ^ 32 \<Longrightarrow> (of_nat n < (of_nat m :: uint)) = (n < m)"
  by (simp add: word_less_nat_alt unat_of_nat)

lemma first_length: "n \<in> set (queue_lengths n rs)"
proof (cases rs)
  case (Cons r rs')
  then show ?thesis by (cases r) simp_all
qed simp

lemma lengths_Max: "Max (insert n (set (queue_lengths k rs))) = max n (Max (set (queue_lengths k rs)))"
  using first_length [of k rs] by (intro Max_insert) auto

lemma report_queue_max:
  "reports_ok n rs \<Longrightarrow> n < 2 ^ 32 \<Longrightarrow> m < 2 ^ 32 \<Longrightarrow> n \<le> m \<Longrightarrow> currentRunQueueLength s = of_nat n \<Longrightarrow>
    maxRunQueueLength (stat_states s) = of_nat m \<Longrightarrow>
    maxRunQueueLength (stat_states (report_queue rs s)) = of_nat (max m (Max (set (queue_lengths n rs))))"
proof (induction n rs arbitrary: m s rule: reports_ok.induct)
  case (1 n)
  then show ?case by (simp add: max_absorb1)
next
  case (2 n rs)
  define s' where "s' = reportActivation s"
  have c: "currentRunQueueLength s' = of_nat (n + 1)"
    using 2 by (simp add: s'_def reportActivation_def upd_stat_def Let_def add.commute)
  have "(of_nat m < (of_nat (n + 1) :: uint)) = (m < n + 1)" using 2 by (intro uint_less_of_nat) auto
  then have m: "maxRunQueueLength (stat_states s') = of_nat (max m (n + 1))"
    using 2 by (auto simp: s'_def reportActivation_def upd_stat_def Let_def add.commute max_def)
  have r: "maxRunQueueLength (stat_states (report_queue rs s')) =
      of_nat (max (max m (n + 1)) (Max (set (queue_lengths (n + 1) rs))))"
    using 2 c m by (intro "2.IH") auto
  have "n + 1 \<le> Max (set (queue_lengths (n + 1) rs))"
    by (intro Max_ge first_length) simp
  then have "max (max m (n + 1)) (Max (set (queue_lengths (n + 1) rs))) =
      max m (Max (set (queue_lengths n (Activation # rs))))" "report_queue (Activation # rs) s = report_queue rs s'"
    by (simp_all add: lengths_Max s'_def max_def)
  with r show ?case by simp
next
  case (3 n rs)
  define s' where "s' = reportTermination s"
  have "of_nat n - 1 = (of_nat (n - 1) :: uint)" using 3 by (simp add: of_nat_diff)
  then have c: "currentRunQueueLength s' = of_nat (n - 1)"
    using 3 by (simp add: s'_def reportTermination_def)
  have m: "maxRunQueueLength (stat_states s') = of_nat m"
    using 3 by (simp add: s'_def reportTermination_def)
  have "maxRunQueueLength (stat_states (report_queue rs s')) = of_nat (max m (Max (set (queue_lengths (n - 1) rs))))"
    using 3 c m by (intro "3.IH") auto
  moreover have "max m (Max (set (queue_lengths (n - 1) rs))) = max m (Max (set (queue_lengths n (Termination # rs))))"
    using 3 by (simp add: lengths_Max max_def)
  ultimately show ?case by (simp add: s'_def)
qed

text \<open>After a statistics object was cleared, the maximum it reports for the run queue is the largest length
  the queue had since then.\<close>
theorem statistics_maximum:
  assumes "reports_ok n rs" and "n < 2 ^ 32" and "currentRunQueueLength s = of_nat n"
  shows "maxRunQueueLength (snd (stat_read (report_queue rs (stat_clear s)))) = of_nat (Max (set (queue_lengths n rs)))"
proof -
  have "n \<le> Max (set (queue_lengths n rs))"
    by (intro Max_ge first_length) simp
  then show ?thesis
    using report_queue_max [of n rs n "stat_clear s"] assms
    by (simp add: stat_read_def stat_clear_def upd_stat_def max_absorb2)
qed

theorem statistics_maximum_witness:
  "maxRunQueueLength (snd (stat_read (report_queue [Activation, Activation, Termination]
     (stat_clear (stat_init \<lparr>lostActivations = 3, lostEvents = 3, maxRunQueueLength = 3, maxEvents = 3, maxQueingTime = 3\<rparr>))))) = 2"
  using statistics_maximum [of 0 "[Activation, Activation, Termination]"
      "stat_init \<lparr>lostActivations = 3, lostEvents = 3, maxRunQueueLength = 3, maxEvents = 3, maxQueingTime = 3\<rparr>"]
  by (simp add: stat_init_def stat_clear_def upd_stat_def)

lemma queuing_time_kept: "maxQueingTime (stat_states (stat_clear s)) = maxQueingTime (stat_states s)"
  by (simp add: stat_clear_def upd_stat_def)

end
