(* ===== verification/ClockLinux.thy ===== *)
theory ClockLinux
  imports Clock "HOL-Library.Signed_Division"
begin

text \<open>
  The clock of the Linux execution model (\<^verbatim>\<open>arch/linux/clockExecutionModel.cpp\<close>): the
  conversion between the POSIX real time clock and the time of the framework, and the decision
  of the clock thread how long to sleep. The fields of a \<^verbatim>\<open>timespec\<close> are signed 64-bit
  integers; what \<^verbatim>\<open>clock_gettime\<close> answers is an argument.
\<close>

section \<open>Time specifications\<close>

record timespec =
  tv_sec :: int
  tv_nsec :: int

text \<open>A signed result out of range is a fault; arithmetic with an operand of type \<^verbatim>\<open>Time\<close> is unsigned.\<close>

definition signed64 :: "int \<Rightarrow> int res" where
  "signed64 x = (if - (2 ^ 63) \<le> x \<and> x < 2 ^ 63 then Inr x else Inl SignedOverflow)"

definition sub_time :: "int \<Rightarrow> time \<Rightarrow> int" where
  "sub_time x t = sint (word_of_int x - t)"

definition add_time :: "int \<Rightarrow> time \<Rightarrow> int" where
  "add_time x t = sint (word_of_int x + t)"

definition linux_getTime :: "timespec \<Rightarrow> timespec \<Rightarrow> time res" where
  "linux_getTime now zeroTime =
     bindR (signed64 (tv_sec now - tv_sec zeroTime)) (\<lambda>ds.
     bindR (signed64 (ds * 1000)) (\<lambda>ms.
     bindR (signed64 (tv_nsec now - tv_nsec zeroTime)) (\<lambda>dn.
     bindR (signed64 (ms + dn sdiv 1000000)) (\<lambda>t. Inr (word_of_int t)))))"

definition linux_setZeroTime :: "timespec \<Rightarrow> time \<Rightarrow> timespec res" where
  "linux_setZeroTime now offset =
     (let sec = sub_time (tv_sec now) (offset div 1000);
          nsec = sub_time (tv_nsec now) (offset * 1000000)
      in if nsec < 0
         then bindR (signed64 (nsec + 1000000000)) (\<lambda>nsec'. bindR (signed64 (sec - 1)) (\<lambda>sec'.
                Inr \<lparr>tv_sec = sec', tv_nsec = nsec'\<rparr>))
         else Inr \<lparr>tv_sec = sec, tv_nsec = nsec\<rparr>)"

definition computeAbsoluteWakeUpTime :: "timespec \<Rightarrow> time \<Rightarrow> timespec res" where
  "computeAbsoluteWakeUpTime now timeSpan =
     (let sec = add_time (tv_sec now) (timeSpan div 1000);
          nsec = add_time (tv_nsec now) (timeSpan mod 1000 * 1000000)
      in if nsec > 1000000000
         then bindR (signed64 (sec + 1)) (\<lambda>sec'. Inr \<lparr>tv_sec = sec', tv_nsec = nsec - 1000000000\<rparr>)
         else Inr \<lparr>tv_sec = sec, tv_nsec = nsec\<rparr>)"

section \<open>The clock thread\<close>

text \<open>
  One iteration of the loop of \<^verbatim>\<open>clockThread\<close> up to the wait: \<open>t1\<close> is the time at which
  the queue is searched, \<open>t2\<close> the time after it and \<open>now\<close> that of the real time clock.
\<close>

datatype clock_wait = WaitForSignal | WaitUntil timespec | NoWait

definition clock_thread_wait :: "time \<Rightarrow> time \<Rightarrow> timespec \<Rightarrow> clock \<Rightarrow> (clock \<times> clock_wait) res" where
  "clock_thread_wait t1 t2 now c =
     bindR (getNextStartTime t1 c) (\<lambda>(c1, nextStartTime).
       if nextStartTime = 0 then Inr (c1, WaitForSignal)
       else if nextStartTime > t2
       then bindR (computeAbsoluteWakeUpTime now (nextStartTime - t2)) (\<lambda>ts. Inr (c1, WaitUntil ts))
       else Inr (c1, NoWait))"

text \<open>After the wait, at time \<open>t3\<close>: whether the scheduler is signalled.\<close>

definition clock_thread_signals :: "time \<Rightarrow> clock \<Rightarrow> bool" where
  "clock_thread_signals t3 c \<longleftrightarrow> isPending t3 c"

definition linux_startTimer :: "timespec \<Rightarrow> time \<Rightarrow> timespec res" where
  "linux_startTimer now timeSpan = computeAbsoluteWakeUpTime now timeSpan"

section \<open>Arithmetic\<close>

lemma sint_range: "- (2 ^ 63) \<le> x \<Longrightarrow> x < 2 ^ 63 \<Longrightarrow> sint (word_of_int x :: 64 word) = x"
  by (simp add: sint_sbintrunc' signed_take_bit_int_eq_self)

lemma add_time_range:
  "- (2 ^ 63) \<le> x + uint t \<Longrightarrow> x + uint t < 2 ^ 63 \<Longrightarrow> add_time x t = x + uint t"
  using sint_range [of "x + uint t"] by (simp add: add_time_def)

lemma sub_time_range:
  "- (2 ^ 63) \<le> x - uint t \<Longrightarrow> x - uint t < 2 ^ 63 \<Longrightarrow> sub_time x t = x - uint t"
  using sint_range [of "x - uint t"] by (simp add: sub_time_def)

definition nanoseconds :: "timespec \<Rightarrow> int" where
  "nanoseconds ts = tv_sec ts * 1000000000 + tv_nsec ts"

lemma second_range:
  fixes s t q r :: int
  assumes "0 \<le> s" "s < 2 ^ 40" "t < 2 ^ 62" "0 \<le> q" "0 \<le> r" "t = q * 1000 + r"
  shows "- (2 ^ 63) \<le> s + q" "s + q < 2 ^ 63" "signed64 (s + q + 1) = Inr (s + q + 1)"
  using assms by (simp_all add: signed64_def)

lemma nanosecond_range:
  fixes n r :: int
  assumes "0 \<le> n" "n < 1000000000" "0 \<le> r" "r < 1000"
  shows "- (2 ^ 63) \<le> n + r * 1000000" "n + r * 1000000 < 2 ^ 63"
  using assms by simp_all

lemma split_millis:
  fixes t :: int
  shows "t div 1000 * 1000000000 + t mod 1000 * 1000000 = t * 1000000" "t mod 1000 * 1000000 \<le> 999000000"
proof -
  have "t * 1000000 = (t div 1000 * 1000 + t mod 1000) * 1000000" by simp
  also have "\<dots> = t div 1000 * 1000000000 + t mod 1000 * 1000000" by (simp only: ring_distribs mult.assoc)
  finally show "t div 1000 * 1000000000 + t mod 1000 * 1000000 = t * 1000000" ..
  have "t mod 1000 \<le> 999" using pos_mod_bound [of 1000 t] by linarith
  then show "t mod 1000 * 1000000 \<le> 999000000" by linarith
qed

text \<open>A time of the system clock before the year 36812.\<close>

definition clock_time :: "timespec \<Rightarrow> bool" where
  "clock_time ts \<longleftrightarrow> 0 \<le> tv_sec ts \<and> tv_sec ts < 2 ^ 40 \<and> 0 \<le> tv_nsec ts \<and> tv_nsec ts < 1000000000"

text \<open>C30: The absolute wake-up time of a timer is exactly the given number of milliseconds after the time of the
  system clock; its nanoseconds stay below or at one second.\<close>
theorem wake_up_time_exact:
  assumes "clock_time now" and "timeSpan < 2 ^ 62"
  shows "\<exists>ts. computeAbsoluteWakeUpTime now timeSpan = Inr ts \<and>
    nanoseconds ts = nanoseconds now + uint timeSpan * 1000000 \<and> 0 \<le> tv_nsec ts \<and> tv_nsec ts \<le> 1000000000"
proof -
  let ?t = "uint timeSpan"
  let ?s = "tv_sec now + ?t div 1000" and ?n = "tv_nsec now + ?t mod 1000 * 1000000"
  have t: "0 \<le> ?t" "?t < 2 ^ 62" using assms(2) by (simp_all add: word_less_def)
  have q: "0 \<le> ?t div 1000" "0 \<le> ?t mod 1000" "?t mod 1000 < 1000" "?t = ?t div 1000 * 1000 + ?t mod 1000"
    using t by (simp_all add: pos_imp_zdiv_nonneg_iff)
  have n: "0 \<le> tv_sec now" "tv_sec now < 2 ^ 40" "0 \<le> tv_nsec now" "tv_nsec now < 1000000000"
    using assms(1) by (auto simp: clock_time_def)
  have d: "uint (timeSpan div 1000) = ?t div 1000" by (simp add: uint_div_distrib)
  have m: "uint (timeSpan mod 1000 * 1000000) = ?t mod 1000 * 1000000"
    using q by (simp add: uint_word_ariths uint_mod_distrib)
  have sec: "add_time (tv_sec now) (timeSpan div 1000) = ?s"
  proof -
    have "- (2 ^ 63) \<le> ?s" "?s < 2 ^ 63" by (rule second_range [OF n(1,2) t(2) q(1,2,4)])+
    then show ?thesis using add_time_range [of "tv_sec now" "timeSpan div 1000"] by (simp only: d)
  qed
  have nsec: "add_time (tv_nsec now) (timeSpan mod 1000 * 1000000) = ?n"
  proof -
    have "- (2 ^ 63) \<le> ?n" "?n < 2 ^ 63" by (rule nanosecond_range [OF n(3,4) q(2,3)])+
    then show ?thesis using add_time_range [of "tv_nsec now" "timeSpan mod 1000 * 1000000"] by (simp only: m)
  qed
  note s1 = second_range(3) [OF n(1,2) t(2) q(1,2,4)]
  show ?thesis
    using n q s1 split_millis [of ?t] by (cases "?n > 1000000000")
      (simp_all add: computeAbsoluteWakeUpTime_def sec nsec nanoseconds_def Let_def)
qed

theorem wake_up_time_exact_witness:
  "\<exists>ts. computeAbsoluteWakeUpTime \<lparr>tv_sec = 5, tv_nsec = 999999999\<rparr> 2500 = Inr ts \<and> nanoseconds ts = 8499999999"
  using wake_up_time_exact [of "\<lparr>tv_sec = 5, tv_nsec = 999999999\<rparr>" 2500]
  by (auto simp: clock_time_def nanoseconds_def)

text \<open>A wake-up time of exactly one second in the nanoseconds is not a valid time for a timed wait.\<close>

theorem wake_up_time_invalid:
  "computeAbsoluteWakeUpTime \<lparr>tv_sec = 5, tv_nsec = 500000000\<rparr> 500 = Inr \<lparr>tv_sec = 5, tv_nsec = 1000000000\<rparr>"
  by code_simp

lemma sdiv_exact: "0 < l \<Longrightarrow> (k * l) sdiv l = (k :: int)"
  by (simp add: signed_divide_int_eq_divide_int)

lemma div_1000_le: "0 \<le> (t :: int) \<Longrightarrow> 0 \<le> t div 1000 \<and> t div 1000 \<le> t"
  by (cases "t = 0") (auto simp: pos_imp_zdiv_nonneg_iff intro: less_imp_le int_div_less_self)

lemma getTime_value:
  assumes "tv_sec now - tv_sec z = ds" and "tv_nsec now - tv_nsec z = dn" and "dn sdiv 1000000 = k"
    and "0 \<le> ds" "ds < 2 ^ 42" "- (2 ^ 62) < dn" "dn < 2 ^ 62" "- 1000 \<le> k" "k < 2 ^ 42"
  shows "linux_getTime now z = Inr (word_of_int (ds * 1000 + k))"
  using assms by (simp add: linux_getTime_def signed64_def)

text \<open>After the zero time was set with an offset, the time of the framework is the offset only when that is less
  than a second: whole seconds of the offset are subtracted twice, once as seconds and once as
  nanoseconds.\<close>
theorem zero_time_counts_seconds_twice:
  assumes "clock_time now" and "offset < 2 ^ 40"
  shows "bindR (linux_setZeroTime now offset) (linux_getTime now) = Inr (offset + offset div 1000 * 1000)"
proof -
  let ?o = "uint offset"
  have o: "0 \<le> ?o" "?o < 2 ^ 40" using assms(2) by (simp_all add: word_less_def)
  have q: "0 \<le> ?o div 1000" "?o div 1000 \<le> ?o" using div_1000_le [OF o(1)] by auto
  have n: "0 \<le> tv_sec now" "tv_sec now < 2 ^ 40" "0 \<le> tv_nsec now" "tv_nsec now < 1000000000"
    using assms(1) by (auto simp: clock_time_def)
  have d: "uint (offset div 1000) = ?o div 1000" by (simp add: uint_div_distrib)
  have m: "uint (offset * 1000000) = ?o * 1000000" using o by (simp add: uint_word_ariths)
  have sec: "sub_time (tv_sec now) (offset div 1000) = tv_sec now - ?o div 1000"
    using sub_time_range [of "tv_sec now" "offset div 1000"] n q o by (simp add: d)
  have nsec: "sub_time (tv_nsec now) (offset * 1000000) = tv_nsec now - ?o * 1000000"
    using sub_time_range [of "tv_nsec now" "offset * 1000000"] n o by (simp add: m)
  have dv: "(?o * 1000000) sdiv 1000000 = ?o" "(?o * 1000000 - 1000000000) sdiv 1000000 = ?o - 1000"
    using sdiv_exact [of 1000000 ?o] sdiv_exact [of 1000000 "?o - 1000"] by (simp_all add: algebra_simps)
  have w: "word_of_int (?o div 1000 * 1000 + ?o) = offset + offset div 1000 * 1000"
    by (simp flip: d)
  show ?thesis
  proof (cases "tv_nsec now - ?o * 1000000 < 0")
    case True
    then have "linux_setZeroTime now offset =
        Inr \<lparr>tv_sec = tv_sec now - ?o div 1000 - 1, tv_nsec = tv_nsec now - ?o * 1000000 + 1000000000\<rparr>"
      using n q o by (simp add: linux_setZeroTime_def sec nsec signed64_def)
    moreover have "linux_getTime now \<lparr>tv_sec = tv_sec now - ?o div 1000 - 1, tv_nsec = tv_nsec now - ?o * 1000000 + 1000000000\<rparr> =
        Inr (word_of_int ((?o div 1000 + 1) * 1000 + (?o - 1000)))"
      by (rule getTime_value [where dn = "?o * 1000000 - 1000000000"]) (use q o dv(2) in simp_all)
    moreover have "(?o div 1000 + 1) * 1000 + (?o - 1000) = ?o div 1000 * 1000 + ?o" by simp
    ultimately show ?thesis by (simp only: bindR_Inr w)
  next
    case False
    then have "linux_setZeroTime now offset =
        Inr \<lparr>tv_sec = tv_sec now - ?o div 1000, tv_nsec = tv_nsec now - ?o * 1000000\<rparr>"
      using n q o by (simp add: linux_setZeroTime_def sec nsec)
    moreover have "linux_getTime now \<lparr>tv_sec = tv_sec now - ?o div 1000, tv_nsec = tv_nsec now - ?o * 1000000\<rparr> =
        Inr (word_of_int (?o div 1000 * 1000 + ?o))"
      by (rule getTime_value [where dn = "?o * 1000000"]) (use q o dv(1) in simp_all)
    ultimately show ?thesis by (simp only: bindR_Inr w)
  qed
qed

theorem zero_time_counts_seconds_twice_witness:
  "bindR (linux_setZeroTime \<lparr>tv_sec = 1000000, tv_nsec = 5\<rparr> 1500) (linux_getTime \<lparr>tv_sec = 1000000, tv_nsec = 5\<rparr>) = Inr 2500"
  using zero_time_counts_seconds_twice [of "\<lparr>tv_sec = 1000000, tv_nsec = 5\<rparr>" 1500] by (simp add: clock_time_def)

end
