(* ===== verification/LinuxExecutors.thy ===== *)
theory LinuxExecutors
  imports Prelude
begin

text \<open>
  The executors of the Linux execution model (\<^verbatim>\<open>arch/linux/schedulerExecutionModel.cpp\<close> and
  \<^verbatim>\<open>signaler.cpp\<close>): threads that sleep on a signaler, the list of free executors, the method
  \<^verbatim>\<open>signal\<close> of the scheduler and the wait until all executors are free. A step is one
  critical section of a thread, so that every interleaving of the critical sections is a sequence
  of steps. The run queue is the list of waiting tasks, as the policies deliver them; the events an
  executor handles and the flag that ends its thread are left out. A thread in
  \<^verbatim>\<open>pthread_cond_wait\<close> may wake up without a signal, so that the condition of a wait is its flag
  \<^verbatim>\<open>wakeUp\<close> alone: a state that has no step here has none in the program either.
\<close>

section \<open>State\<close>

text \<open>
  Where an executor stands in the loop of \<^verbatim>\<open>executorThread\<close>: in the wait of its signaler;
  before a call of \<^verbatim>\<open>nextTask\<close>; executing a task; after a call of \<^verbatim>\<open>nextTask\<close> that
  answered a null pointer; inside the critical section of its signaler, before and after it has
  put itself on the list of free executors.
\<close>

datatype exec_pc = Waiting | Working | Executing task_id | Finishing | Locked | Inserted

text \<open>
  The thread in \<^verbatim>\<open>waitUntilEmpty\<close>: not there, in the wait with the number of executors it
  still waits for, or returned.
\<close>

datatype waiter = Absent | AwaitFree nat | Returned

text \<open>
  \<open>x_calls\<close> counts the calls of \<^verbatim>\<open>signal\<close> that have still to read the list of free executors,
  \<open>x_signals\<close> are the executors that were taken from the list by a call and are not yet signalled.
\<close>

record exec_state =
  x_pc :: "nat \<Rightarrow> exec_pc"
  x_wakeUp :: "nat \<Rightarrow> bool"
  nextFree :: "nat \<Rightarrow> nat option"
  freeExecutors :: "nat option"
  x_queue :: "task_id list"
  x_calls :: nat
  x_signals :: "nat list"
  empty_wakeUp :: bool
  x_waiter :: waiter

definition set_pc :: "nat \<Rightarrow> exec_pc \<Rightarrow> exec_state \<Rightarrow> exec_state" where
  "set_pc e p s = s\<lparr>x_pc := (x_pc s)(e := p)\<rparr>"

definition put_free :: "nat \<Rightarrow> exec_state \<Rightarrow> exec_state" where
  "put_free e s = s\<lparr>nextFree := (nextFree s)(e := freeExecutors s), freeExecutors := Some e\<rparr>"

text \<open>\<^verbatim>\<open>startExecutors\<close>: every thread is in its wait before it is put on the list.\<close>

definition start_executors :: "nat \<Rightarrow> exec_state" where
  "start_executors n = fold put_free [0..<n]
     \<lparr>x_pc = (\<lambda>_. Waiting), x_wakeUp = (\<lambda>_. False), nextFree = (\<lambda>_. None), freeExecutors = None, x_queue = [],
      x_calls = 0, x_signals = [], empty_wakeUp = False, x_waiter = Absent\<rparr>"

section \<open>Critical sections\<close>

text \<open>The condition of an executor's signaler: its mutex is free outside \<open>Locked\<close> and \<open>Inserted\<close>.\<close>

definition signaler_free :: "exec_state \<Rightarrow> nat \<Rightarrow> bool" where
  "signaler_free s e \<longleftrightarrow> x_pc s e \<noteq> Locked \<and> x_pc s e \<noteq> Inserted"

definition signal_read :: "exec_state \<Rightarrow> exec_state" where
  "signal_read s =
     (case freeExecutors s of
        None \<Rightarrow> s\<lparr>x_calls := x_calls s - 1\<rparr>
      | Some e \<Rightarrow> s\<lparr>x_calls := x_calls s - 1, freeExecutors := nextFree s e, x_signals := e # x_signals s\<rparr>)"

definition signaler_signal :: "nat \<Rightarrow> exec_state \<Rightarrow> exec_state" where
  "signaler_signal e s = s\<lparr>x_wakeUp := (x_wakeUp s)(e := True)\<rparr>"

text \<open>The loop of \<^verbatim>\<open>Signaler::wait\<close> ends when \<^verbatim>\<open>wakeUp\<close> is set, and clears it.\<close>

definition signaler_wake :: "nat \<Rightarrow> exec_state \<Rightarrow> exec_state" where
  "signaler_wake e s = set_pc e Working (s\<lparr>x_wakeUp := (x_wakeUp s)(e := False)\<rparr>)"

definition insert_free :: "nat \<Rightarrow> exec_state \<Rightarrow> exec_state" where
  "insert_free e s = set_pc e Inserted ((put_free e s)\<lparr>empty_wakeUp := True\<rparr>)"

text \<open>The loop of \<^verbatim>\<open>waitUntilEmpty\<close> that takes the free executors off the number of all \<open>n\<close>.\<close>

definition occupied :: "nat \<Rightarrow> exec_state \<Rightarrow> (nat option \<times> nat) res" where
  "occupied n s = for_ptr (\<lambda>_ _. True) (\<lambda>_ e. nextFree s e) (\<lambda>e k. Inr (k - 1)) (freeExecutors s) n"

definition await :: "nat \<Rightarrow> exec_state \<Rightarrow> exec_state" where
  "await k s = s\<lparr>x_waiter := (if k > 0 then AwaitFree k else Returned)\<rparr>"

text \<open>
  The label of a step says who makes it: a caller of \<^verbatim>\<open>perform\<close> that queues a task, one of the
  threads that work for the scheduler, or the thread in \<^verbatim>\<open>waitUntilEmpty\<close>.
\<close>

datatype actor = Caller task_id | Thread | Terminator

inductive exec_step :: "nat \<Rightarrow> exec_state \<Rightarrow> actor \<Rightarrow> exec_state \<Rightarrow> bool" for n where
  x_perform: "exec_step n s (Caller t) (s\<lparr>x_queue := x_queue s @ [t], x_calls := x_calls s + 1\<rparr>)"
| x_signal_read: "x_calls s > 0 \<Longrightarrow> exec_step n s Thread (signal_read s)"
| x_signal: "e \<in> set (x_signals s) \<Longrightarrow> signaler_free s e \<Longrightarrow>
    exec_step n s Thread (signaler_signal e (s\<lparr>x_signals := remove1 e (x_signals s)\<rparr>))"
| x_wake: "e < n \<Longrightarrow> x_pc s e = Waiting \<Longrightarrow> x_wakeUp s e \<Longrightarrow> exec_step n s Thread (signaler_wake e s)"
| x_take: "e < n \<Longrightarrow> x_pc s e = Working \<Longrightarrow> x_queue s = t # ts \<Longrightarrow>
    exec_step n s Thread (set_pc e (Executing t) (s\<lparr>x_queue := ts\<rparr>))"
| x_done: "e < n \<Longrightarrow> x_pc s e = Executing t \<Longrightarrow> exec_step n s Thread (set_pc e Working s)"
| x_empty: "e < n \<Longrightarrow> x_pc s e = Working \<Longrightarrow> x_queue s = [] \<Longrightarrow> exec_step n s Thread (set_pc e Finishing s)"
| x_lock: "e < n \<Longrightarrow> x_pc s e = Finishing \<Longrightarrow> exec_step n s Thread (set_pc e Locked s)"
| x_insert: "e < n \<Longrightarrow> x_pc s e = Locked \<Longrightarrow> exec_step n s Thread (insert_free e s)"
| x_wait: "e < n \<Longrightarrow> x_pc s e = Inserted \<Longrightarrow> exec_step n s Thread (set_pc e Waiting s)"
| x_await: "x_waiter s = Absent \<Longrightarrow> occupied n s = Inr (None, k) \<Longrightarrow> exec_step n s Terminator (await k s)"
| x_await_wake: "x_waiter s = AwaitFree k \<Longrightarrow> empty_wakeUp s \<Longrightarrow>
    exec_step n s Terminator (await (k - 1) (s\<lparr>empty_wakeUp := False\<rparr>))"

definition exec_steps :: "nat \<Rightarrow> exec_state \<Rightarrow> exec_state \<Rightarrow> bool" where
  "exec_steps n = (\<lambda>s s'. \<exists>l. exec_step n s l s')\<^sup>*\<^sup>*"

section \<open>No executor is lost\<close>

definition idle :: "exec_state \<Rightarrow> nat \<Rightarrow> bool" where
  "idle s e \<longleftrightarrow> x_pc s e = Waiting \<or> x_pc s e = Inserted"

definition exec_inv :: "nat \<Rightarrow> exec_state \<Rightarrow> nat list \<Rightarrow> bool" where
  "exec_inv n s fs \<longleftrightarrow>
     chain (nextFree s) (freeExecutors s) fs \<and> distinct (fs @ x_signals s) \<and>
     (\<forall>e\<in>set fs \<union> set (x_signals s). e < n \<and> idle s e \<and> \<not> x_wakeUp s e) \<and>
     (\<forall>e. e < n \<and> idle s e \<longrightarrow> e \<in> set fs \<union> set (x_signals s) \<or> x_wakeUp s e) \<and>
     (\<forall>e. x_wakeUp s e \<longrightarrow> idle s e)"

lemma set_pc_simps [simp]:
  "x_pc (set_pc e p s) = (x_pc s)(e := p)" "x_wakeUp (set_pc e p s) = x_wakeUp s" "nextFree (set_pc e p s) = nextFree s"
  "freeExecutors (set_pc e p s) = freeExecutors s" "x_signals (set_pc e p s) = x_signals s"
  "x_queue (set_pc e p s) = x_queue s" "x_calls (set_pc e p s) = x_calls s"
  by (simp_all add: set_pc_def)

lemma put_free_simps:
  "nextFree (put_free e s) = (nextFree s)(e := freeExecutors s)" "freeExecutors (put_free e s) = Some e"
  "x_pc (put_free e s) = x_pc s" "x_wakeUp (put_free e s) = x_wakeUp s" "x_signals (put_free e s) = x_signals s"
  by (simp_all add: put_free_def)

lemma start_inv: "exec_inv n (start_executors n) (rev [0..<n])"
proof -
  define s0 where "s0 = \<lparr>x_pc = (\<lambda>_. Waiting), x_wakeUp = (\<lambda>_. False), nextFree = (\<lambda>_. None), freeExecutors = None,
      x_queue = [], x_calls = 0, x_signals = [], empty_wakeUp = False, x_waiter = Absent\<rparr>"
  have "chain (nextFree (fold put_free [0..<n] s0)) (freeExecutors (fold put_free [0..<n] s0)) (rev [0..<n]) \<and>
      x_pc (fold put_free [0..<n] s0) = x_pc s0 \<and> x_wakeUp (fold put_free [0..<n] s0) = x_wakeUp s0 \<and>
      x_signals (fold put_free [0..<n] s0) = x_signals s0"
  proof (induction n)
    case (Suc n)
    define s1 where "s1 = fold put_free [0..<n] s0"
    have "chain ((nextFree s1)(n := freeExecutors s1)) (Some n) (n # rev [0..<n])"
      using Suc by (intro chain_push) (simp_all add: s1_def)
    moreover have "fold put_free [0..<Suc n] s0 = put_free n s1" "rev [0..<Suc n] = n # rev [0..<n]"
      by (simp_all add: s1_def)
    ultimately show ?case using Suc by (simp only: put_free_simps) (simp only: s1_def [symmetric])
  qed (simp add: s0_def)
  then show ?thesis by (auto simp: exec_inv_def idle_def start_executors_def s0_def)
qed

lemma busy_not_listed:
  "exec_inv n s fs \<Longrightarrow> \<not> idle s e \<Longrightarrow> e \<notin> set fs \<and> e \<notin> set (x_signals s) \<and> \<not> x_wakeUp s e"
  unfolding exec_inv_def by blast

lemma busy_stays_busy:
  assumes "exec_inv n s fs" and "\<not> idle s e" and "p \<noteq> Waiting" "p \<noteq> Inserted"
  shows "exec_inv n (set_pc e p s) fs"
  using assms(1,3,4) busy_not_listed [OF assms(1,2)] by (auto simp: exec_inv_def idle_def)

lemma exec_inv_queue [simp]: "exec_inv n (s\<lparr>x_queue := q\<rparr>) fs = exec_inv n s fs"
  by (simp add: exec_inv_def idle_def)

lemma exec_inv_await [simp]: "exec_inv n (await k s) fs = exec_inv n s fs"
  "exec_inv n (s\<lparr>empty_wakeUp := b\<rparr>) fs = exec_inv n s fs"
  by (simp_all add: exec_inv_def idle_def await_def)

lemma step_exec_inv: "exec_step n s l s' \<Longrightarrow> exec_inv n s fs \<Longrightarrow> \<exists>fs'. exec_inv n s' fs'"
proof (induction rule: exec_step.induct)
  case (x_perform s t)
  then show ?case by (auto simp: exec_inv_def idle_def)
next
  case (x_signal_read s)
  show ?case
  proof (cases fs)
    case Nil
    then show ?thesis using x_signal_read.prems by (intro exI [of _ "[]"]) (simp add: exec_inv_def idle_def signal_read_def)
  next
    case (Cons e es)
    then show ?thesis using x_signal_read.prems
      by (intro exI [of _ es]) (auto simp: exec_inv_def idle_def signal_read_def)
  qed
next
  case (x_signal e s)
  then show ?case by (intro exI [of _ fs]) (auto simp: exec_inv_def idle_def signaler_signal_def signaler_free_def)
next
  case (x_wake e s)
  then show ?case by (intro exI [of _ fs]) (auto simp: exec_inv_def idle_def signaler_wake_def)
next
  case (x_insert e s)
  then have "e \<notin> set fs" "e \<notin> set (x_signals s)" "\<not> x_wakeUp s e"
    using busy_not_listed [of n s fs e] by (auto simp: idle_def)
  then show ?case using x_insert
    by (intro exI [of _ "e # fs"]) (auto simp: exec_inv_def idle_def insert_free_def put_free_def)
next
  case (x_take e s t ts)
  then show ?case using busy_stays_busy [of n "s\<lparr>x_queue := ts\<rparr>" fs e "Executing t"] by (auto simp: idle_def)
next
  case (x_done e s t)
  then show ?case using busy_stays_busy [of n s fs e Working] by (auto simp: idle_def)
next
  case (x_empty e s)
  then show ?case using busy_stays_busy [of n s fs e Finishing] by (auto simp: idle_def)
next
  case (x_lock e s)
  then show ?case using busy_stays_busy [of n s fs e Locked] by (auto simp: idle_def)
next
  case (x_wait e s)
  then have "exec_inv n (set_pc e Waiting s) fs" by (auto simp: exec_inv_def idle_def)
  then show ?case ..
qed auto

lemma steps_exec_inv: "exec_steps n s s' \<Longrightarrow> exec_inv n s fs \<Longrightarrow> \<exists>fs'. exec_inv n s' fs'"
  unfolding exec_steps_def
proof (induction arbitrary: fs rule: converse_rtranclp_induct)
  case (step s s1)
  then show ?case using step_exec_inv by blast
qed blast

text \<open>C8: However the executors and the callers of \<^verbatim>\<open>signal\<close> interleave, the list of free executors is a proper
  list without repetition of sleeping executors, and every sleeping executor is on it, or is about to
  be signalled, or has been signalled: none sleeps out of reach of the scheduler.\<close>
theorem no_executor_lost:
  assumes "exec_steps n (start_executors n) s"
  shows "\<exists>fs. chain (nextFree s) (freeExecutors s) fs \<and> distinct fs \<and>
    (\<forall>e\<in>set fs. e < n \<and> idle s e \<and> \<not> x_wakeUp s e \<and> e \<notin> set (x_signals s)) \<and>
    (\<forall>e. e < n \<and> x_pc s e = Waiting \<longrightarrow> e \<in> set fs \<or> e \<in> set (x_signals s) \<or> x_wakeUp s e)"
proof -
  obtain fs where i: "exec_inv n s fs" using steps_exec_inv [OF assms start_inv] by blast
  then have "e \<notin> set (x_signals s)" if "e \<in> set fs" for e using that by (auto simp: exec_inv_def)
  with i show ?thesis unfolding exec_inv_def by (intro exI [of _ fs]) (auto simp: idle_def)
qed

section \<open>Runs\<close>

text \<open>Steps as moves that are made when their condition holds, to compute runs.\<close>

datatype move = Perform task_id | SignalRead | Signal nat | Wake nat | Take nat | Finish nat | Find_empty nat
  | Lock nat | Insert nat | Sleep nat | Await | Await_wake

fun make :: "nat \<Rightarrow> move \<Rightarrow> exec_state \<Rightarrow> exec_state option" where
  "make n (Perform t) s = Some (s\<lparr>x_queue := x_queue s @ [t], x_calls := x_calls s + 1\<rparr>)"
| "make n SignalRead s = (if x_calls s > 0 then Some (signal_read s) else None)"
| "make n (Signal e) s = (if e \<in> set (x_signals s) \<and> signaler_free s e
     then Some (signaler_signal e (s\<lparr>x_signals := remove1 e (x_signals s)\<rparr>)) else None)"
| "make n (Wake e) s = (if e < n \<and> x_pc s e = Waiting \<and> x_wakeUp s e then Some (signaler_wake e s) else None)"
| "make n (Take e) s = (case x_queue s of [] \<Rightarrow> None | t # ts \<Rightarrow>
     if e < n \<and> x_pc s e = Working then Some (set_pc e (Executing t) (s\<lparr>x_queue := ts\<rparr>)) else None)"
| "make n (Finish e) s = (case x_pc s e of Executing t \<Rightarrow> if e < n then Some (set_pc e Working s) else None | _ \<Rightarrow> None)"
| "make n (Find_empty e) s = (if e < n \<and> x_pc s e = Working \<and> x_queue s = [] then Some (set_pc e Finishing s) else None)"
| "make n (Lock e) s = (if e < n \<and> x_pc s e = Finishing then Some (set_pc e Locked s) else None)"
| "make n (Insert e) s = (if e < n \<and> x_pc s e = Locked then Some (insert_free e s) else None)"
| "make n (Sleep e) s = (if e < n \<and> x_pc s e = Inserted then Some (set_pc e Waiting s) else None)"
| "make n Await s = (case occupied n s of Inr (None, k) \<Rightarrow> if x_waiter s = Absent then Some (await k s) else None | _ \<Rightarrow> None)"
| "make n Await_wake s = (case x_waiter s of
     AwaitFree k \<Rightarrow> if empty_wakeUp s then Some (await (k - 1) (s\<lparr>empty_wakeUp := False\<rparr>)) else None | _ \<Rightarrow> None)"

lemma make_step: "make n m s = Some s' \<Longrightarrow> \<exists>l. exec_step n s l s'"
proof (cases m)
  case (Perform t)
  then show "make n m s = Some s' \<Longrightarrow> \<exists>l. exec_step n s l s'" using x_perform [of n s t] by auto
next
  case Await
  then show "make n m s = Some s' \<Longrightarrow> \<exists>l. exec_step n s l s'"
    using x_await by (auto split: sum.splits option.splits prod.splits if_splits)
next
  case Await_wake
  then show "make n m s = Some s' \<Longrightarrow> \<exists>l. exec_step n s l s'"
    using x_await_wake [of s _ n] by (auto split: waiter.splits if_splits)
qed (auto intro: exec_step.intros split: if_splits list.splits exec_pc.splits)

fun make_all :: "nat \<Rightarrow> move list \<Rightarrow> exec_state \<Rightarrow> exec_state option" where
  "make_all n [] s = Some s"
| "make_all n (m # ms) s = (case make n m s of None \<Rightarrow> None | Some s1 \<Rightarrow> make_all n ms s1)"

lemma make_all_steps: "make_all n ms s = Some s' \<Longrightarrow> exec_steps n s s'"
proof (induction ms arbitrary: s)
  case Nil
  then show ?case by (simp add: exec_steps_def)
next
  case (Cons m ms)
  then obtain s1 where s1: "make n m s = Some s1" "make_all n ms s1 = Some s'" by (auto split: option.splits)
  then show ?case using make_step [OF s1(1)] Cons.IH [OF s1(2)] unfolding exec_steps_def
    by (metis (mono_tags, lifting) converse_rtranclp_into_rtranclp)
qed

theorem no_executor_lost_witness:
  "\<exists>s fs. make_all 2 [Perform 5, SignalRead, Signal 1, Wake 1, Take 1] (start_executors 2) = Some s \<and>
    x_pc s 1 = Executing 5 \<and> chain (nextFree s) (freeExecutors s) fs \<and> 0 \<in> set fs"
proof -
  have "map_option (\<lambda>s. (x_pc s 0, x_pc s 1, x_signals s, x_wakeUp s 0))
      (make_all 2 [Perform 5, SignalRead, Signal 1, Wake 1, Take 1] (start_executors 2)) =
    Some (Waiting, Executing 5, [], False)" by code_simp
  then obtain s where s: "make_all 2 [Perform 5, SignalRead, Signal 1, Wake 1, Take 1] (start_executors 2) = Some s"
    "x_pc s 0 = Waiting" "x_pc s 1 = Executing 5" "x_signals s = []" "\<not> x_wakeUp s 0" by auto
  from no_executor_lost [OF make_all_steps [OF s(1)]] s show ?thesis by fastforce
qed

section \<open>Lost signals\<close>

text \<open>A state in which the threads of the scheduler have nothing to do.\<close>

definition asleep :: "nat \<Rightarrow> exec_state \<Rightarrow> bool" where
  "asleep n s \<longleftrightarrow> x_calls s = 0 \<and> x_signals s = [] \<and> list_all (\<lambda>e. x_pc s e = Waiting \<and> \<not> x_wakeUp s e) [0..<n]"

lemma asleep_stuck: "asleep n s \<Longrightarrow> \<not> exec_step n s Thread s'"
  by (auto simp: asleep_def list_all_iff elim!: exec_step.cases)

text \<open>C35: A task can be queued between the moment at which the last busy executor finds the run queue empty and
  the one at which it is back on the list of free executors: then no executor is signalled, all
  sleep, and the task stays in the run queue until something else calls \<^verbatim>\<open>signal\<close>.\<close>
theorem queued_task_sleeps:
  "\<exists>s. exec_steps 1 (start_executors 1) s \<and> x_queue s = [6] \<and> (\<forall>s'. \<not> exec_step 1 s Thread s')"
proof -
  let ?ms = "[Perform 5, SignalRead, Signal 0, Wake 0, Take 0, Finish 0, Find_empty 0,
      Perform 6, SignalRead, Lock 0, Insert 0, Sleep 0]"
  have "map_option (\<lambda>s. (x_queue s, asleep 1 s)) (make_all 1 ?ms (start_executors 1)) = Some ([6], True)"
    by code_simp
  then obtain s where "make_all 1 ?ms (start_executors 1) = Some s" "x_queue s = [6]" "asleep 1 s" by auto
  then show ?thesis using make_all_steps asleep_stuck by blast
qed


end
