(* ===== verification/LockDiscipline.thy ===== *)
theory LockDiscipline
  imports Prelude
begin

text \<open>
  Programs reduced to the mutexes they enter and leave, and why entering the mutexes in one order
  excludes deadlocks: a routine is a command of such actions, calls of routines, branches and loops
  whose conditions are left open; any number of threads runs sequences of routines, and each
  entering chooses any mutex object of its class. The locale \<open>ordered_locks\<close> has the check that
  one computes for a program and the theorems about its threads.
\<close>

section \<open>Commands\<close>

datatype ('m, 'r) cmd =
    Enter 'm | Leave 'm | Wait 'm | Call 'r | Block "('m, 'r) cmd list" | Either "('m, 'r) cmd" "('m, 'r) cmd" | Loop "('m, 'r) cmd"

abbreviation Skip :: "('m, 'r) cmd" where
  "Skip \<equiv> Block []"

abbreviation Maybe :: "('m, 'r) cmd \<Rightarrow> ('m, 'r) cmd" where
  "Maybe c \<equiv> Either c Skip"

definition critical :: "'m \<Rightarrow> ('m, 'r) cmd list \<Rightarrow> ('m, 'r) cmd" where
  "critical m cs = Block (Enter m # cs @ [Leave m])"

text \<open>The wait of a signaler sleeps until its flag is set, however often it is woken before.\<close>

definition wait_on :: "'m \<Rightarrow> ('m, 'r) cmd" where
  "wait_on m = Block [Wait m, Loop (Wait m)]"

section \<open>Threads\<close>

text \<open>
  A thread holds mutex objects, may be waiting for one and has commands left; a mutex is an
  object of its class. A wait for a condition gives the mutex of its signaler back and puts the thread
  to sleep; when it is woken, it waits for that mutex again.
\<close>

record ('m, 'r) thread =
  t_held :: "('m \<times> nat) list"
  t_request :: "('m \<times> nat) option"
  t_asleep :: bool
  t_code :: "('m, 'r) cmd list"

text \<open>\<open>thread_step body busy\<close>: a step of a thread when the mutexes in \<open>busy\<close> are held by some thread.\<close>

inductive thread_step ::
  "('r \<Rightarrow> ('m, 'r) cmd) \<Rightarrow> ('m \<times> nat) set \<Rightarrow> ('m, 'r) thread \<Rightarrow> ('m, 'r) thread \<Rightarrow> bool" for body busy where
  t_enter: "t_request t = None \<Longrightarrow> t_code t = Enter m # k \<Longrightarrow>
    thread_step body busy t (t\<lparr>t_request := Some (m, ob), t_code := k\<rparr>)"
| t_acquire: "t_request t = Some l \<Longrightarrow> \<not> t_asleep t \<Longrightarrow> l \<notin> busy \<Longrightarrow>
    thread_step body busy t (t\<lparr>t_held := l # t_held t, t_request := None\<rparr>)"
| t_leave: "t_request t = None \<Longrightarrow> t_code t = Leave m # k \<Longrightarrow> (m, ob) \<in> set (t_held t) \<Longrightarrow>
    thread_step body busy t (t\<lparr>t_held := remove1 (m, ob) (t_held t), t_code := k\<rparr>)"
| t_wait: "t_request t = None \<Longrightarrow> t_code t = Wait m # k \<Longrightarrow> (m, ob) \<in> set (t_held t) \<Longrightarrow>
    thread_step body busy t (t\<lparr>t_held := remove1 (m, ob) (t_held t), t_request := Some (m, ob), t_asleep := True, t_code := k\<rparr>)"
| t_call: "t_request t = None \<Longrightarrow> t_code t = Call p # k \<Longrightarrow> thread_step body busy t (t\<lparr>t_code := body p # k\<rparr>)"
| t_block: "t_request t = None \<Longrightarrow> t_code t = Block cs # k \<Longrightarrow> thread_step body busy t (t\<lparr>t_code := cs @ k\<rparr>)"
| t_left: "t_request t = None \<Longrightarrow> t_code t = Either a b # k \<Longrightarrow> thread_step body busy t (t\<lparr>t_code := a # k\<rparr>)"
| t_right: "t_request t = None \<Longrightarrow> t_code t = Either a b # k \<Longrightarrow> thread_step body busy t (t\<lparr>t_code := b # k\<rparr>)"
| t_again: "t_request t = None \<Longrightarrow> t_code t = Loop a # k \<Longrightarrow> thread_step body busy t (t\<lparr>t_code := a # Loop a # k\<rparr>)"
| t_exit: "t_request t = None \<Longrightarrow> t_code t = Loop a # k \<Longrightarrow> thread_step body busy t (t\<lparr>t_code := k\<rparr>)"

definition held_by :: "nat \<Rightarrow> (nat \<Rightarrow> ('m, 'r) thread) \<Rightarrow> ('m \<times> nat) set" where
  "held_by n s = (\<Union>i<n. set (t_held (s i)))"

text \<open>A step of all threads is one of a thread, or a sleeping thread is woken, for whatever reason.\<close>

definition wake_up :: "('m, 'r) thread \<Rightarrow> ('m, 'r) thread" where
  "wake_up t = t\<lparr>t_asleep := False\<rparr>"

inductive threads_step ::
  "('r \<Rightarrow> ('m, 'r) cmd) \<Rightarrow> nat \<Rightarrow> (nat \<Rightarrow> ('m, 'r) thread) \<Rightarrow> (nat \<Rightarrow> ('m, 'r) thread) \<Rightarrow> bool" for body n where
  ts_wake: "i < n \<Longrightarrow> t_asleep (s i) \<Longrightarrow> threads_step body n s (s(i := wake_up (s i)))"
| ts_move: "i < n \<Longrightarrow> thread_step body (held_by n s) (s i) t \<Longrightarrow> threads_step body n s (s(i := t))"

text \<open>Thread \<open>i\<close> runs the routines \<open>ps i\<close>.\<close>

definition start_threads :: "(nat \<Rightarrow> 'r list) \<Rightarrow> nat \<Rightarrow> ('m, 'r) thread" where
  "start_threads ps i = \<lparr>t_held = [], t_request = None, t_asleep = False, t_code = map Call (ps i)\<rparr>"

definition finished :: "('m, 'r) thread \<Rightarrow> bool" where
  "finished t \<longleftrightarrow> t_request t = None \<and> t_code t = []"

section \<open>The order of the mutexes\<close>

text \<open>
  A thread may wait for a condition only when it holds no mutex but that of the signaler.
  \<open>check rank low c h\<close>: when the mutexes of the classes \<open>h\<close> are held, the last one first, every path through
  \<open>c\<close> enters only mutexes above those held, leaves them in the reverse order and ends with the result.
\<close>

fun check :: "('m \<Rightarrow> nat) \<Rightarrow> ('r \<Rightarrow> nat) \<Rightarrow> ('m, 'r) cmd \<Rightarrow> 'm list \<Rightarrow> 'm list option"
  and checks :: "('m \<Rightarrow> nat) \<Rightarrow> ('r \<Rightarrow> nat) \<Rightarrow> ('m, 'r) cmd list \<Rightarrow> 'm list \<Rightarrow> 'm list option" where
  "check rank low (Enter m) h = (if \<forall>x\<in>set h. rank x < rank m then Some (m # h) else None)"
| "check rank low (Leave m) h = (case h of [] \<Rightarrow> None | x # h' \<Rightarrow> if x = m then Some h' else None)"
| "check rank low (Wait m) h = (if h = [m] then Some h else None)"
| "check rank low (Call p) h = (if \<forall>x\<in>set h. rank x < low p then Some h else None)"
| "check rank low (Block cs) h = checks rank low cs h"
| "check rank low (Either a b) h = (if check rank low a h = check rank low b h then check rank low a h else None)"
| "check rank low (Loop a) h = (if check rank low a h = Some h then Some h else None)"
| "checks rank low [] h = Some h"
| "checks rank low (c # cs) h = (case check rank low c h of None \<Rightarrow> None | Some h' \<Rightarrow> checks rank low cs h')"

fun above :: "('m \<Rightarrow> nat) \<Rightarrow> ('r \<Rightarrow> nat) \<Rightarrow> nat \<Rightarrow> ('m, 'r) cmd \<Rightarrow> bool"
  and aboves :: "('m \<Rightarrow> nat) \<Rightarrow> ('r \<Rightarrow> nat) \<Rightarrow> nat \<Rightarrow> ('m, 'r) cmd list \<Rightarrow> bool" where
  "above rank low r (Enter m) \<longleftrightarrow> r \<le> rank m"
| "above rank low r (Leave m) \<longleftrightarrow> True"
| "above rank low r (Wait m) \<longleftrightarrow> r = 0"
| "above rank low r (Call p) \<longleftrightarrow> r \<le> low p"
| "above rank low r (Block cs) \<longleftrightarrow> aboves rank low r cs"
| "above rank low r (Either a b) \<longleftrightarrow> above rank low r a \<and> above rank low r b"
| "above rank low r (Loop a) \<longleftrightarrow> above rank low r a"
| "aboves rank low r [] \<longleftrightarrow> True"
| "aboves rank low r (c # cs) \<longleftrightarrow> above rank low r c \<and> aboves rank low r cs"

lemma check_frame:
  "check rank low c g = Some g' \<Longrightarrow> above rank low r c \<Longrightarrow> \<forall>x\<in>set h. rank x < r \<Longrightarrow> check rank low c (g @ h) = Some (g' @ h)"
  "checks rank low cs g = Some g' \<Longrightarrow> aboves rank low r cs \<Longrightarrow> \<forall>x\<in>set h. rank x < r \<Longrightarrow> checks rank low cs (g @ h) = Some (g' @ h)"
proof (induction rank low c g and rank low cs g arbitrary: g' and g' rule: check_checks.induct)
  case (1 rank low m g)
  then show ?case by (fastforce split: if_splits)
next
  case (2 rank low m g)
  then show ?case by (cases g) (auto split: if_splits)
next
  case (3 rank low m g)
  then show ?case by (cases h) (auto split: if_splits)
next
  case (4 rank low p g)
  then show ?case by (fastforce split: if_splits)
next
  case (6 rank low a b g)
  then have "check rank low a g = Some g'" "check rank low b g = Some g'" by (auto split: if_splits)
  with 6 show ?case by simp
next
  case (7 rank low a g)
  then show ?case by (auto split: if_splits)
next
  case (9 rank low c cs g)
  then show ?case by (auto split: option.splits)
qed auto

lemma checks_append: "checks rank low (cs @ k) h = (case checks rank low cs h of None \<Rightarrow> None | Some h' \<Rightarrow> checks rank low k h')"
  by (induction cs arbitrary: h) (auto split: option.splits)

section \<open>No deadlock\<close>

definition thread_ok :: "('m \<Rightarrow> nat) \<Rightarrow> ('r \<Rightarrow> nat) \<Rightarrow> ('m, 'r) thread \<Rightarrow> bool" where
  "thread_ok rank low t \<longleftrightarrow> (t_asleep t \<longrightarrow> t_held t = [] \<and> t_request t \<noteq> None) \<and> sorted_wrt (\<lambda>a b. rank (fst b) < rank (fst a)) (t_held t) \<and>
     (case t_request t of
        None \<Rightarrow> checks rank low (t_code t) (map fst (t_held t)) = Some []
      | Some (m, ob) \<Rightarrow> (\<forall>x\<in>set (t_held t). rank (fst x) < rank m) \<and>
          checks rank low (t_code t) (m # map fst (t_held t)) = Some [])"

locale ordered_locks =
  fixes body :: "'r \<Rightarrow> ('m, 'r) cmd" and rank :: "'m \<Rightarrow> nat" and low :: "'r \<Rightarrow> nat"
  assumes checked: "check rank low (body p) [] = Some []"
    and bounded: "above rank low (low p) (body p)"
begin

lemma thread_step_ok: "thread_step body busy t t' \<Longrightarrow> thread_ok rank low t \<Longrightarrow> thread_ok rank low t'"
proof (induction rule: thread_step.induct)
  case (t_enter t m k ob)
  then show ?case by (auto simp: thread_ok_def split: if_splits)
next
  case (t_acquire t l)
  then show ?case by (cases l) (auto simp: thread_ok_def)
next
  case (t_leave t m k ob)
  then obtain l ls where h: "t_held t = l # ls" "fst l = m" "checks rank low k (map fst ls) = Some []"
    "\<forall>x\<in>set ls. rank (fst x) < rank m" by (cases "t_held t") (auto simp: thread_ok_def split: if_splits)
  then have "l = (m, ob)" using t_leave.hyps(3) by auto
  then show ?case using h t_leave by (simp add: thread_ok_def)
next
  case (t_wait t m k ob)
  then obtain l where h: "t_held t = [l]" "fst l = m" "checks rank low k [m] = Some []"
    by (auto simp: thread_ok_def split: if_splits)
  then have "l = (m, ob)" using t_wait.hyps(3) by auto
  then show ?case using h t_wait by (simp add: thread_ok_def)
next
  case (t_call t p k)
  have "check rank low (body p) ([] @ map fst (t_held t)) = Some ([] @ map fst (t_held t))"
    using checked [of p] bounded [of p] t_call by (intro check_frame(1)) (auto simp: thread_ok_def split: if_splits)
  then show ?case using t_call by (auto simp: thread_ok_def split: if_splits)
next
  case (t_block t cs k)
  then show ?case by (auto simp: thread_ok_def checks_append)
next
  case (t_left t a b k)
  then show ?case by (auto simp: thread_ok_def split: if_splits)
next
  case (t_right t a b k)
  then show ?case by (auto simp: thread_ok_def split: if_splits)
next
  case (t_again t a k)
  then show ?case by (auto simp: thread_ok_def split: if_splits)
next
  case (t_exit t a k)
  then show ?case by (auto simp: thread_ok_def split: if_splits)
qed

lemma start_ok: "thread_ok rank low (start_threads ps i)"
proof -
  have "checks rank low (map Call ms) [] = Some []" for ms by (induction ms) auto
  then show ?thesis by (simp add: thread_ok_def start_threads_def)
qed

lemma threads_ok: "(threads_step body n)\<^sup>*\<^sup>* s s' \<Longrightarrow> \<forall>i. thread_ok rank low (s i) \<Longrightarrow> \<forall>i. thread_ok rank low (s' i)"
proof (induction rule: rtranclp_induct)
  case (step s1 s2)
  from step.hyps(2) show ?case
    using step.IH step.prems by cases (auto simp: wake_up_def thread_ok_def dest: thread_step_ok)
qed

text \<open>A thread that is neither finished nor asleep can go on, or waits for a mutex that is held.\<close>

lemma thread_progress:
  assumes "thread_ok rank low t" and "\<not> finished t" and "\<not> t_asleep t" and "\<nexists>t'. thread_step body busy t t'"
  shows "\<exists>m ob. t_request t = Some (m, ob) \<and> (m, ob) \<in> busy \<and> (\<forall>x\<in>set (t_held t). rank (fst x) < rank m)"
proof (cases "t_request t")
  case None
  then obtain c k where c: "t_code t = c # k" using assms(2) by (cases "t_code t") (auto simp: finished_def)
  have "\<exists>t'. thread_step body busy t t'"
  proof (cases c)
    case (Leave m)
    then obtain l ls where "t_held t = l # ls" "fst l = m"
      using assms(1) c None by (cases "t_held t") (auto simp: thread_ok_def split: if_splits)
    then have "(m, snd l) \<in> set (t_held t)" by auto
    then show ?thesis using t_leave [OF None c [unfolded Leave]] by blast
  next
    case (Wait m)
    then obtain l where "t_held t = [l]" "fst l = m"
      using assms(1) c None by (auto simp: thread_ok_def split: if_splits)
    then have "(m, snd l) \<in> set (t_held t)" by auto
    then show ?thesis using t_wait [OF None c [unfolded Wait]] by blast
  qed (use None c in \<open>auto intro: thread_step.intros\<close>)
  with assms(4) show ?thesis by blast
next
  case (Some l)
  then show ?thesis using assms(1,3,4) t_acquire [OF Some] by (cases l) (auto simp: thread_ok_def)
qed

theorem threads_progress:
  assumes "(threads_step body n)\<^sup>*\<^sup>* (start_threads ps) s"
  shows "(\<forall>i l. t_request (s i) = Some l \<longrightarrow> l \<notin> set (t_held (s i))) \<and>
    (\<forall>i. finished (s i) \<or> t_asleep (s i) \<longrightarrow> t_held (s i) = []) \<and>
    ((\<exists>i<n. \<not> finished (s i) \<and> \<not> t_asleep (s i)) \<longrightarrow> (\<exists>i<n. \<exists>t. thread_step body (held_by n s) (s i) t))"
proof (intro conjI allI impI)
  have ok: "thread_ok rank low (s i)" for i using threads_ok [OF assms] start_ok by blast
  show "l \<notin> set (t_held (s i))" if "t_request (s i) = Some l" for i l
    using ok [of i] that by (cases l) (auto simp: thread_ok_def)
  show released: "t_held (s i) = []" if "finished (s i) \<or> t_asleep (s i)" for i
    using ok [of i] that by (auto simp: thread_ok_def finished_def)
  show "\<exists>i<n. \<exists>t. thread_step body (held_by n s) (s i) t" if "\<exists>i<n. \<not> finished (s i) \<and> \<not> t_asleep (s i)"
  proof (rule ccontr)
    assume stuck: "\<not> ?thesis"
    let ?A = "{i. i < n \<and> \<not> finished (s i) \<and> \<not> t_asleep (s i)}"
    let ?r = "\<lambda>i. case t_request (s i) of None \<Rightarrow> 0 | Some l \<Rightarrow> rank (fst l)"
    have "Max (?r ` ?A) \<in> ?r ` ?A" using that by (intro Max_in) auto
    then obtain i where i: "i < n" "\<not> finished (s i)" "\<not> t_asleep (s i)" "?r i = Max (?r ` ?A)" by auto
    have wait: "\<exists>m ob. t_request (s j) = Some (m, ob) \<and> (m, ob) \<in> held_by n s \<and> (\<forall>x\<in>set (t_held (s j)). rank (fst x) < rank m)"
      if "j < n" "\<not> finished (s j)" "\<not> t_asleep (s j)" for j
      using thread_progress [OF ok that(2,3)] stuck that(1) by blast
    obtain m ob where m: "t_request (s i) = Some (m, ob)" "(m, ob) \<in> held_by n s" using wait i by blast
    then obtain j where j: "j < n" "(m, ob) \<in> set (t_held (s j))" by (auto simp: held_by_def)
    then have nj: "\<not> finished (s j)" "\<not> t_asleep (s j)" using released [of j] by auto
    then have "rank m < ?r j" using wait [OF j(1) nj] j(2) by fastforce
    moreover have "?r j \<le> Max (?r ` ?A)" using j(1) nj by (intro Max_ge) auto
    ultimately show False using i(4) m(1) by simp
  qed
qed

end

end
