(* ===== verification/LockOrder.thy ===== *)
theory LockOrder
  imports LockDiscipline
begin

text \<open>
  The mutexes of the framework and its channel library, method by method, and those of the
  execution model for Linux. What the methods do under the mutexes is the matter of the other
  theories.
\<close>

section \<open>Mutexes and methods\<close>

datatype mutex = Synchronization | Event_mutex | Barrier_protection | Fifo_mutex | Link_mutex | Reader_mutex
  | Generic_mutex | Input_mutex | Task_mutex | Clock_mutex | Time_queue | Run_queue | Executor_signaler | Empty_signal

datatype routine =
    Queue | Next_task | Signal_scheduler | Perform | Activate | Is_executed | Finalize_execution | Task_reset
  | Group_finalize | All_executed | Group_reset | Notify_input | Input_reset | Channel_push | Channel_reset
  | Barrier_increase | Barrier_push | Barrier_reset
  | Start_at | Start_in | Start_timer | Dequeue | Dequeue_all | Is_pending | Is_empty | Read_first_pending
  | Set_periodic_timing | Set_periodic_schedule | Set_relative_timing | Trigger | Is_triggered | Stop | Stop_locked
  | Event_reset | Handle
  | Handle_events | Execute | Start_scheduler | Terminate | Application
  | Generic_allocate | Generic_release | Release_element | Generic_push | Generic_pop | Associate_reader
  | Release_reader | Generic_synchronize | Reader_pop | Reader_release | Reader_release_all
  | Fifo_allocate | Fifo_release | Fifo_push | Fifo_synchronize
  | Executor_thread | Stop_executor | Start_executor | Wait_until_empty | Clock_thread

type_synonym lock_cmd = "(mutex, routine) cmd"

section \<open>Run queue and scheduler\<close>

definition lk_queue :: lock_cmd where
  "lk_queue = critical Run_queue []"

definition lk_nextTask :: lock_cmd where
  "lk_nextTask = critical Run_queue []"

definition lk_perform :: lock_cmd where
  "lk_perform = Maybe (Block [Call Queue, Call Signal_scheduler])"

definition lk_handleEvents :: lock_cmd where
  "lk_handleEvents = Block [Call Read_first_pending, Loop (Block [Call Handle, Call Read_first_pending])]"

definition lk_execute :: lock_cmd where
  "lk_execute = Block [critical Synchronization [Loop (Maybe (Call Fifo_synchronize))], Call Application,
     critical Synchronization [Call Finalize_execution]]"

definition lk_start :: lock_cmd where
  "lk_start = Either (Loop (Call Task_reset)) (Loop (Maybe (Call Perform)))"

definition lk_terminate :: lock_cmd where
  "lk_terminate = Block [Call Dequeue_all, Loop (Call Next_task), Call Wait_until_empty]"

section \<open>Tasks, groups, inputs and channels\<close>

definition lk_activate :: lock_cmd where
  "lk_activate = critical Task_mutex [Maybe (Either Skip (Maybe (Maybe (Call Perform))))]"

definition lk_isExecuted :: lock_cmd where
  "lk_isExecuted = critical Task_mutex []"

definition lk_finalizeExecution :: lock_cmd where
  "lk_finalizeExecution = Either (Call Task_reset) (Block [critical Task_mutex [], Call Group_finalize])"

definition lk_task_reset :: lock_cmd where
  "lk_task_reset = Block [critical Task_mutex [], Loop (Call Input_reset), critical Task_mutex [Maybe (Call Perform)]]"

definition lk_group_finalize :: lock_cmd where
  "lk_group_finalize = Block [Call All_executed, Maybe (Call Group_reset)]"

definition lk_areAllExecuted :: lock_cmd where
  "lk_areAllExecuted = Loop (Call Is_executed)"

definition lk_group_reset :: lock_cmd where
  "lk_group_reset = Loop (Call Task_reset)"

definition lk_notifyInput :: lock_cmd where
  "lk_notifyInput = Either
     (Block [Enter Input_mutex, Either (Leave Input_mutex) (Block [Leave Input_mutex, Maybe (Call Activate)])])
     (Maybe (Call Activate))"

definition lk_input_reset :: lock_cmd where
  "lk_input_reset = Block [Maybe (Call Channel_reset),
     Maybe (Block [Enter Input_mutex, Either (Block [Leave Input_mutex, Call Activate]) (Leave Input_mutex)])]"

definition lk_channel_push :: lock_cmd where
  "lk_channel_push = Loop (Call Notify_input)"

text \<open>The virtual \<^verbatim>\<open>reset\<close> of a plain channel, a barrier or an event.\<close>

definition lk_channel_reset :: lock_cmd where
  "lk_channel_reset = Either Skip (Either (Call Barrier_reset) (Call Event_reset))"

definition lk_barrier_increase :: lock_cmd where
  "lk_barrier_increase = critical Barrier_protection []"

definition lk_barrier_push :: lock_cmd where
  "lk_barrier_push = critical Barrier_protection [Maybe (Maybe (Call Channel_push))]"

definition lk_barrier_reset :: lock_cmd where
  "lk_barrier_reset = critical Barrier_protection []"

section \<open>Clock and events\<close>

definition lk_startAt :: lock_cmd where
  "lk_startAt = Block [critical Time_queue [], Maybe (Call Signal_scheduler), Maybe (Call Start_timer)]"

definition lk_startIn :: lock_cmd where
  "lk_startIn = Either (Call Start_at) (Block [critical Time_queue [], Maybe (Call Signal_scheduler)])"

definition lk_time_queue :: lock_cmd where
  "lk_time_queue = critical Time_queue []"

definition lk_setPeriodicTiming :: lock_cmd where
  "lk_setPeriodicTiming = critical Event_mutex [Maybe (Call Dequeue), Call Start_at]"

text \<open>
  \<^verbatim>\<open>setPeriodicSchedule\<close> sets \<^verbatim>\<open>mutexLock\<close>, so that its call of \<^verbatim>\<open>stop\<close> enters no mutex. That
  \<^verbatim>\<open>mutexLock\<close> does not change during a call of \<^verbatim>\<open>stop\<close> from elsewhere is an assumption of the
  model: \<^verbatim>\<open>stop\<close> reads it twice without holding the mutex.
\<close>

definition lk_setPeriodicSchedule :: lock_cmd where
  "lk_setPeriodicSchedule = critical Event_mutex [Maybe (Call Dequeue), Maybe (Either (Call Start_at) (Call Stop_locked))]"

definition lk_setRelativeTiming :: lock_cmd where
  "lk_setRelativeTiming = critical Event_mutex [Maybe (Call Dequeue)]"

definition lk_trigger :: lock_cmd where
  "lk_trigger = Maybe (critical Event_mutex [Maybe (Call Dequeue), Either (Maybe (Call Channel_push)) (Call Start_in)])"

definition lk_isTriggered :: lock_cmd where
  "lk_isTriggered = critical Event_mutex []"

definition lk_stop :: lock_cmd where
  "lk_stop = critical Event_mutex [Call Dequeue]"

definition lk_stop_locked :: lock_cmd where
  "lk_stop_locked = Call Dequeue"

definition lk_event_reset :: lock_cmd where
  "lk_event_reset = critical Event_mutex [Maybe (Block [Maybe (Call Dequeue), Call Start_in])]"

definition lk_handle :: lock_cmd where
  "lk_handle = Block [critical Event_mutex [Maybe (Either (Call Start_at) (Block [Loop (Call Channel_push), Call Start_at]))],
     Maybe (Call Channel_push)]"

section \<open>FIFO channels\<close>

definition lk_generic_allocate :: lock_cmd where
  "lk_generic_allocate = critical Generic_mutex []"

definition lk_generic_release :: lock_cmd where
  "lk_generic_release = Maybe (critical Generic_mutex [])"

definition lk_releaseElement :: lock_cmd where
  "lk_releaseElement = Maybe (critical Generic_mutex [])"

definition lk_generic_push :: lock_cmd where
  "lk_generic_push = Block [Maybe (critical Generic_mutex []), Maybe (critical Generic_mutex [])]"

definition lk_generic_pop :: lock_cmd where
  "lk_generic_pop = critical Generic_mutex []"

definition lk_associateReader :: lock_cmd where
  "lk_associateReader = Block [Enter Reader_mutex,
     Either (Leave Reader_mutex) (Block [Leave Reader_mutex, critical Generic_mutex []])]"

definition lk_releaseReader :: lock_cmd where
  "lk_releaseReader = Block [Call Reader_release_all, critical Link_mutex [Loop (Call Release_element)], critical Reader_mutex []]"

definition lk_generic_synchronize :: lock_cmd where
  "lk_generic_synchronize = Maybe (critical Generic_mutex [])"

definition lk_reader_pop :: lock_cmd where
  "lk_reader_pop = Maybe (critical Link_mutex [])"

definition lk_reader_release :: lock_cmd where
  "lk_reader_release = Maybe (Either (Block [Call Release_element, critical Link_mutex []])
     (Maybe (Block [Call Release_element, critical Link_mutex []])))"

definition lk_reader_releaseAll :: lock_cmd where
  "lk_reader_releaseAll = critical Link_mutex [Loop (Call Release_element)]"

definition lk_fifo_allocate :: lock_cmd where
  "lk_fifo_allocate = critical Fifo_mutex [Call Generic_allocate]"

definition lk_fifo_release :: lock_cmd where
  "lk_fifo_release = critical Fifo_mutex [Call Generic_release]"

definition lk_fifo_push :: lock_cmd where
  "lk_fifo_push = critical Fifo_mutex [Call Generic_push, Maybe (Call Channel_push)]"

definition lk_fifo_synchronize :: lock_cmd where
  "lk_fifo_synchronize = critical Fifo_mutex [Call Generic_synchronize]"

section \<open>The Linux execution model\<close>

definition lk_signal :: lock_cmd where
  "lk_signal = Block [Enter Empty_signal,
     Either (Block [Leave Empty_signal, critical Executor_signaler []]) (Leave Empty_signal)]"

definition lk_startTimer :: lock_cmd where
  "lk_startTimer = critical Clock_mutex []"

definition lk_executorThread :: lock_cmd where
  "lk_executorThread = critical Executor_signaler
     [Loop (Block [wait_on Executor_signaler, Leave Executor_signaler,
        Call Is_pending, Maybe (Call Handle_events),
        Call Next_task, Loop (Block [Call Execute, Call Is_pending, Maybe (Call Handle_events), Call Next_task]),
        Enter Executor_signaler, critical Empty_signal []])]"

definition lk_stop_executor :: lock_cmd where
  "lk_stop_executor = critical Executor_signaler []"

definition lk_startExecutor :: lock_cmd where
  "lk_startExecutor = critical Executor_signaler [Loop (Block [Leave Executor_signaler, Enter Executor_signaler])]"

definition lk_waitUntilEmpty :: lock_cmd where
  "lk_waitUntilEmpty = critical Empty_signal [Loop (wait_on Empty_signal)]"

definition lk_clockThread :: lock_cmd where
  "lk_clockThread = critical Clock_mutex
     [Loop (Block [critical Time_queue [], Either (Wait Clock_mutex) (Maybe (Wait Clock_mutex)),
        Call Is_pending, Maybe (Call Signal_scheduler)])]"

section \<open>The program\<close>

text \<open>
  What an application may call from its tasks. Its own methods, which the framework calls
  (\<^verbatim>\<open>shallFire\<close>, \<^verbatim>\<open>onFire\<close>), are taken not to enter a mutex of the framework.
\<close>

definition application_calls :: "routine list" where
  "application_calls = [Channel_push, Barrier_push, Barrier_increase, Set_periodic_timing, Set_periodic_schedule,
     Set_relative_timing, Trigger, Is_triggered, Stop, Fifo_allocate, Fifo_release, Fifo_push, Generic_pop,
     Associate_reader, Release_reader, Reader_pop, Reader_release, Reader_release_all, Is_empty, Is_pending,
     Start_scheduler]"

definition lk_application :: lock_cmd where
  "lk_application = Loop (Block (map (\<lambda>p. Maybe (Call p)) application_calls))"

text \<open>The methods of the framework over those of an execution model.\<close>

fun framework :: "(routine \<Rightarrow> lock_cmd) \<Rightarrow> routine \<Rightarrow> lock_cmd" where
  "framework arch Queue = lk_queue" | "framework arch Next_task = lk_nextTask"
| "framework arch Perform = lk_perform" | "framework arch Activate = lk_activate" | "framework arch Is_executed = lk_isExecuted"
| "framework arch Finalize_execution = lk_finalizeExecution" | "framework arch Task_reset = lk_task_reset"
| "framework arch Group_finalize = lk_group_finalize" | "framework arch All_executed = lk_areAllExecuted" | "framework arch Group_reset = lk_group_reset"
| "framework arch Notify_input = lk_notifyInput" | "framework arch Input_reset = lk_input_reset" | "framework arch Channel_push = lk_channel_push"
| "framework arch Channel_reset = lk_channel_reset" | "framework arch Barrier_increase = lk_barrier_increase"
| "framework arch Barrier_push = lk_barrier_push" | "framework arch Barrier_reset = lk_barrier_reset"
| "framework arch Start_at = lk_startAt" | "framework arch Start_in = lk_startIn"
| "framework arch Dequeue = lk_time_queue" | "framework arch Dequeue_all = lk_time_queue" | "framework arch Is_pending = lk_time_queue"
| "framework arch Is_empty = lk_time_queue" | "framework arch Read_first_pending = lk_time_queue"
| "framework arch Set_periodic_timing = lk_setPeriodicTiming" | "framework arch Set_periodic_schedule = lk_setPeriodicSchedule"
| "framework arch Set_relative_timing = lk_setRelativeTiming" | "framework arch Trigger = lk_trigger" | "framework arch Is_triggered = lk_isTriggered"
| "framework arch Stop = lk_stop" | "framework arch Stop_locked = lk_stop_locked" | "framework arch Event_reset = lk_event_reset"
| "framework arch Handle = lk_handle" | "framework arch Handle_events = lk_handleEvents" | "framework arch Execute = lk_execute"
| "framework arch Start_scheduler = lk_start" | "framework arch Terminate = lk_terminate" | "framework arch Application = lk_application"
| "framework arch Generic_allocate = lk_generic_allocate" | "framework arch Generic_release = lk_generic_release"
| "framework arch Release_element = lk_releaseElement" | "framework arch Generic_push = lk_generic_push" | "framework arch Generic_pop = lk_generic_pop"
| "framework arch Associate_reader = lk_associateReader" | "framework arch Release_reader = lk_releaseReader"
| "framework arch Generic_synchronize = lk_generic_synchronize" | "framework arch Reader_pop = lk_reader_pop"
| "framework arch Reader_release = lk_reader_release" | "framework arch Reader_release_all = lk_reader_releaseAll"
| "framework arch Fifo_allocate = lk_fifo_allocate" | "framework arch Fifo_release = lk_fifo_release" | "framework arch Fifo_push = lk_fifo_push"
| "framework arch Fifo_synchronize = lk_fifo_synchronize"
| "framework arch p = arch p"

text \<open>The execution model for Linux.\<close>

fun linux_arch :: "routine \<Rightarrow> lock_cmd" where
  "linux_arch Signal_scheduler = lk_signal" | "linux_arch Start_timer = lk_startTimer"
| "linux_arch Wait_until_empty = lk_waitUntilEmpty" | "linux_arch Executor_thread = lk_executorThread"
| "linux_arch Stop_executor = lk_stop_executor" | "linux_arch Start_executor = lk_startExecutor"
| "linux_arch Clock_thread = lk_clockThread" | "linux_arch p = Skip"

section \<open>The order of the mutexes\<close>

fun rank :: "mutex \<Rightarrow> nat" where
  "rank Synchronization = 0" | "rank Event_mutex = 1" | "rank Barrier_protection = 1" | "rank Fifo_mutex = 1"
| "rank Link_mutex = 2" | "rank Reader_mutex = 2" | "rank Generic_mutex = 3" | "rank Input_mutex = 4"
| "rank Task_mutex = 5" | "rank Clock_mutex = 6" | "rank Time_queue = 7" | "rank Run_queue = 7"
| "rank Executor_signaler = 8" | "rank Empty_signal = 9"

text \<open>The least rank of a mutex that a method or a method it calls enters.\<close>

fun low :: "routine \<Rightarrow> nat" where
  "low Queue = 7" | "low Next_task = 7" | "low Signal_scheduler = 8" | "low Perform = 7" | "low Activate = 5"
| "low Is_executed = 5" | "low Finalize_execution = 1" | "low Task_reset = 1" | "low Group_finalize = 1"
| "low All_executed = 5" | "low Group_reset = 1" | "low Notify_input = 4" | "low Input_reset = 1" | "low Channel_push = 4"
| "low Channel_reset = 1" | "low Barrier_increase = 1" | "low Barrier_push = 1" | "low Barrier_reset = 1"
| "low Start_at = 6" | "low Start_in = 6" | "low Start_timer = 6" | "low Dequeue = 7" | "low Dequeue_all = 7"
| "low Is_pending = 7" | "low Is_empty = 7" | "low Read_first_pending = 7" | "low Event_reset = 1" | "low Stop_locked = 7"
| "low Generic_allocate = 3" | "low Generic_release = 3" | "low Release_element = 3" | "low Generic_push = 3"
| "low Generic_pop = 3" | "low Generic_synchronize = 3" | "low Fifo_synchronize = 1" | "low p = 0"

lemmas lock_defs = critical_def wait_on_def application_calls_def
  lk_queue_def lk_nextTask_def lk_signal_def lk_perform_def lk_handleEvents_def
  lk_execute_def lk_start_def lk_terminate_def lk_activate_def lk_isExecuted_def
  lk_finalizeExecution_def lk_task_reset_def lk_group_finalize_def lk_areAllExecuted_def lk_group_reset_def
  lk_notifyInput_def lk_input_reset_def lk_channel_push_def lk_channel_reset_def lk_barrier_increase_def
  lk_barrier_push_def lk_barrier_reset_def lk_startAt_def lk_startIn_def lk_startTimer_def
  lk_time_queue_def lk_setPeriodicTiming_def lk_setPeriodicSchedule_def lk_setRelativeTiming_def lk_trigger_def
  lk_isTriggered_def lk_stop_def lk_stop_locked_def lk_event_reset_def lk_handle_def
  lk_generic_allocate_def lk_generic_release_def lk_releaseElement_def lk_generic_push_def lk_generic_pop_def
  lk_associateReader_def lk_releaseReader_def lk_generic_synchronize_def lk_reader_pop_def lk_reader_release_def
  lk_reader_releaseAll_def lk_fifo_allocate_def lk_fifo_release_def lk_fifo_push_def lk_fifo_synchronize_def
  lk_executorThread_def lk_stop_executor_def lk_startExecutor_def lk_waitUntilEmpty_def lk_clockThread_def
  lk_application_def

lemma framework_checked:
  assumes "\<And>p. check rank low (arch p) [] = Some [] \<and> above rank low (low p) (arch p)"
  shows "check rank low (framework arch p) [] = Some [] \<and> above rank low (low p) (framework arch p)"
  using assms [of p] by (cases p) (simp_all add: lock_defs)

section \<open>No deadlock on Linux\<close>

interpretation linux_locks: ordered_locks "framework linux_arch" rank low
proof -
  have "check rank low (linux_arch p) [] = Some [] \<and> above rank low (low p) (linux_arch p)" for p
    by (cases p) (simp_all add: lock_defs)
  then show "ordered_locks (framework linux_arch) rank low"
    using framework_checked by unfold_locales blast+
qed

text \<open>C7: However the methods of the framework, called by any number of threads in any order, interleave with
  the threads of the Linux execution model, with waits that end when the thread is woken or not at all: a
  thread never waits for a mutex it holds itself; a thread that is done, or asleep in a wait for a condition,
  holds no mutex; and as long as some thread is neither done nor asleep, some thread can go on - no threads wait
  for mutexes in a circle. That a sleeping thread is woken is not claimed. The flag \<^verbatim>\<open>mutexLock\<close> of an
  event is taken not to change while \<^verbatim>\<open>stop\<close> runs, and the methods that the application overrides to enter no
  mutex of the framework.\<close>
theorem no_deadlock:
  assumes "(threads_step (framework linux_arch) n)\<^sup>*\<^sup>* (start_threads ps) s"
  shows "(\<forall>i l. t_request (s i) = Some l \<longrightarrow> l \<notin> set (t_held (s i))) \<and>
    (\<forall>i. finished (s i) \<or> t_asleep (s i) \<longrightarrow> t_held (s i) = []) \<and>
    ((\<exists>i<n. \<not> finished (s i) \<and> \<not> t_asleep (s i)) \<longrightarrow>
      (\<exists>i<n. \<exists>t. thread_step (framework linux_arch) (held_by n s) (s i) t))"
  by (rule linux_locks.threads_progress [OF assms])

text \<open>Of two threads, one enters the mutex of its signaler and goes to sleep; the other one can go on.\<close>

theorem no_deadlock_witness:
  "\<exists>s. (threads_step (framework linux_arch) 2)\<^sup>*\<^sup>* (start_threads (\<lambda>_. [Wait_until_empty])) s \<and>
    t_asleep (s 0) \<and> t_held (s 0) = [] \<and> (\<exists>i<2. \<exists>t. thread_step (framework linux_arch) (held_by 2 s) (s i) t)"
proof -
  let ?b = "framework linux_arch" and ?l = "(Empty_signal, 0::nat)"
  define s0 :: "nat \<Rightarrow> (mutex, routine) thread" where "s0 = start_threads (\<lambda>_. [Wait_until_empty])"
  define st where "st = (\<lambda>h r a cs. s0(0 := \<lparr>t_held = h, t_request = r, t_asleep = a, t_code = cs\<rparr>))"
  let ?rest = "[Loop (wait_on Empty_signal), Leave Empty_signal]"
  let ?more = "Loop (Wait Empty_signal) # ?rest"
  have free: "held_by 2 (st [] r a cs) = {}" for r a cs by (auto simp: held_by_def s0_def start_threads_def st_def)
  have move: "thread_step ?b (held_by 2 (st h r a cs)) (st h r a cs 0) t \<Longrightarrow> threads_step ?b 2 (st h r a cs) ((st h r a cs)(0 := t))" for h r a cs t
    by (rule ts_move) simp
  have 1: "threads_step ?b 2 (st [] None False [Call Wait_until_empty]) (st [] None False [lk_waitUntilEmpty])"
    using move [OF t_call, of _ _ _ _ Wait_until_empty] by (fastforce simp: st_def)
  have 2: "threads_step ?b 2 (st [] None False [lk_waitUntilEmpty]) (st [] None False (Enter Empty_signal # ?rest))"
    using move [OF t_block, of _ _ _ _ "Enter Empty_signal # ?rest"] by (fastforce simp: st_def lk_waitUntilEmpty_def critical_def)
  have 3: "threads_step ?b 2 (st [] None False (Enter Empty_signal # ?rest)) (st [] (Some ?l) False ?rest)"
    using move [OF t_enter, of _ _ _ _ Empty_signal ?rest 0] by (fastforce simp: st_def)
  have 4: "threads_step ?b 2 (st [] (Some ?l) False ?rest) (st [?l] None False ?rest)"
    using move [OF t_acquire, of "[]" "Some ?l" False ?rest ?l] by (simp add: st_def free [unfolded st_def])
  have 5: "threads_step ?b 2 (st [?l] None False ?rest) (st [?l] None False (wait_on Empty_signal # ?rest))"
    using move [OF t_again, of _ _ _ _ "wait_on Empty_signal"] by (fastforce simp: st_def)
  have 6: "threads_step ?b 2 (st [?l] None False (wait_on Empty_signal # ?rest)) (st [?l] None False (Wait Empty_signal # ?more))"
    using move [OF t_block, of _ _ _ _ "[Wait Empty_signal, Loop (Wait Empty_signal)]" ?rest] by (fastforce simp: st_def wait_on_def)
  have 7: "threads_step ?b 2 (st [?l] None False (Wait Empty_signal # ?more)) (st [] (Some ?l) True ?more)"
    using move [OF t_wait, of "[?l]" None False "Wait Empty_signal # ?more" Empty_signal ?more 0] by (simp add: st_def)
  have s0: "start_threads (\<lambda>_. [Wait_until_empty]) = st [] None False [Call Wait_until_empty]"
    by (auto simp: s0_def start_threads_def st_def fun_eq_iff)
  let ?s = "st [] (Some ?l) True ?more"
  have r: "(threads_step ?b 2)\<^sup>*\<^sup>* (start_threads (\<lambda>_. [Wait_until_empty])) ?s" unfolding s0
    by (rule converse_rtranclp_into_rtranclp, rule 1 2 3 4 5 6 7)+ (rule rtranclp.rtrancl_refl)
  have "\<not> finished (?s 1)" "\<not> t_asleep (?s 1)" by (simp_all add: finished_def s0_def start_threads_def st_def)
  moreover have "(1::nat) < 2" by simp
  ultimately have "\<exists>i<2. \<exists>t. thread_step ?b (held_by 2 ?s) (?s i) t" using no_deadlock [OF r] by blast
  moreover have "t_asleep (?s 0)" by (simp add: st_def)
  ultimately show ?thesis using r no_deadlock [OF r] by blast
qed

end
