(* ===== verification/ArchNone.thy ===== *)
theory ArchNone
  imports LockOrder
begin

text \<open>
  The execution model without an operating system (\<^verbatim>\<open>arch/none\<close>): one thread, a mutex that
  asserts that it is not entered twice, a signaler that only asserts that it is entered, a clock
  that stands at 0 and a scheduler that is never signalled.
\<close>

section \<open>Mutex and signaler\<close>

record none_mutex =
  occupied :: bool

definition none_mutex_init :: none_mutex where
  "none_mutex_init = \<lparr>occupied = False\<rparr>"

definition none_enter :: "none_mutex \<Rightarrow> none_mutex res" where
  "none_enter m = (if occupied m then Inl AssertFailed else Inr (m\<lparr>occupied := True\<rparr>))"

definition none_leave :: "none_mutex \<Rightarrow> none_mutex res" where
  "none_leave m = (if occupied m then Inr (m\<lparr>occupied := False\<rparr>) else Inl AssertFailed)"

definition none_wait :: "none_mutex \<Rightarrow> none_mutex res" where
  "none_wait m = (if occupied m then Inr m else Inl AssertFailed)"

definition none_signal :: "none_mutex \<Rightarrow> none_mutex res" where
  "none_signal m = (if occupied m then Inr m else Inl AssertFailed)"

section \<open>Clock\<close>

definition none_getTime :: time where
  "none_getTime = 0"

section \<open>The mutexes of a thread\<close>

text \<open>
  The execution model adds no mutexes of its own. A store of mutex objects along the steps of the only thread: it changes by \<^verbatim>\<open>enter\<close> when a
  mutex is acquired and by \<^verbatim>\<open>leave\<close> when one is given back.
\<close>

definition none_arch :: "routine \<Rightarrow> lock_cmd" where
  "none_arch p = Skip"

interpretation none_locks: ordered_locks "framework none_arch" rank low
  by unfold_locales (simp_all add: framework_checked none_arch_def)

type_synonym mutex_store = "mutex \<times> nat \<Rightarrow> none_mutex"

type_synonym none_state = "(mutex, routine) thread \<times> mutex_store"

inductive none_step :: "none_state \<Rightarrow> none_state \<Rightarrow> bool" where
  n_enter: "t_request t = None \<Longrightarrow> t_code t = Enter m # k \<Longrightarrow> none_enter (st (m, ob)) = Inr x \<Longrightarrow>
    none_step (t, st) (t\<lparr>t_held := (m, ob) # t_held t, t_code := k\<rparr>, st((m, ob) := x))"
| n_leave: "t_request t = None \<Longrightarrow> t_code t = Leave m # k \<Longrightarrow> (m, ob) \<in> set (t_held t) \<Longrightarrow> none_leave (st (m, ob)) = Inr x \<Longrightarrow>
    none_step (t, st) (t\<lparr>t_held := remove1 (m, ob) (t_held t), t_code := k\<rparr>, st((m, ob) := x))"
| n_wait: "t_request t = None \<Longrightarrow> t_code t = Wait m # k \<Longrightarrow> (m, ob) \<in> set (t_held t) \<Longrightarrow> none_wait (st (m, ob)) = Inr x \<Longrightarrow>
    none_step (t, st) (t\<lparr>t_code := k\<rparr>, st((m, ob) := x))"
| n_other: "t_request t = None \<Longrightarrow> t_code t = c # k \<Longrightarrow> (\<And>m. c \<noteq> Enter m \<and> c \<noteq> Leave m \<and> c \<noteq> Wait m) \<Longrightarrow> thread_step (framework none_arch) {} t t' \<Longrightarrow>
    none_step (t, st) (t', st)"

definition none_start :: "routine list \<Rightarrow> none_state" where
  "none_start ps = (start_threads (\<lambda>_. ps) 0, \<lambda>_. none_mutex_init)"

definition none_ok :: "none_state \<Rightarrow> bool" where
  "none_ok s \<longleftrightarrow> thread_ok rank low (fst s) \<and> t_request (fst s) = None \<and> distinct (t_held (fst s)) \<and>
     (\<forall>l. occupied (snd s l) \<longleftrightarrow> l \<in> set (t_held (fst s)))"

lemma none_step_ok: "none_step s s' \<Longrightarrow> none_ok s \<Longrightarrow> none_ok s'"
proof (induction rule: none_step.induct)
  case (n_enter t m k st ob x)
  have "thread_step (framework none_arch) {} t (t\<lparr>t_request := Some (m, ob), t_code := k\<rparr>)" by (rule t_enter) (use n_enter in auto)
  then have "thread_ok rank low (t\<lparr>t_request := Some (m, ob), t_code := k\<rparr>)"
    using none_locks.thread_step_ok n_enter by (auto simp: none_ok_def)
  then show ?case using n_enter by (auto simp: none_ok_def none_enter_def thread_ok_def split: if_splits)
next
  case (n_leave t m k ob st x)
  have "thread_step (framework none_arch) {} t (t\<lparr>t_held := remove1 (m, ob) (t_held t), t_code := k\<rparr>)"
    by (rule t_leave) (use n_leave in auto)
  then have "thread_ok rank low (t\<lparr>t_held := remove1 (m, ob) (t_held t), t_code := k\<rparr>)"
    using none_locks.thread_step_ok n_leave by (auto simp: none_ok_def)
  then show ?case using n_leave by (auto simp: none_ok_def none_leave_def split: if_splits)
next
  case (n_wait t m k ob st x)
  then show ?case by (auto simp: none_ok_def none_wait_def thread_ok_def split: if_splits)
next
  case (n_other t c k t' st)
  have "thread_ok rank low t'" using none_locks.thread_step_ok n_other by (auto simp: none_ok_def)
  moreover from n_other.hyps(4,1,2,3) have "t_request t' = None \<and> t_held t' = t_held t" by cases auto
  ultimately show ?case using n_other by (auto simp: none_ok_def)
qed

lemma none_steps_ok: "none_step\<^sup>*\<^sup>* (none_start ps) s \<Longrightarrow> none_ok s"
proof (induction rule: rtranclp_induct)
  case base
  show ?case using none_locks.start_ok [of "\<lambda>_. ps" 0] by (simp add: none_ok_def none_start_def none_mutex_init_def start_threads_def)
qed (rule none_step_ok)

text \<open>C32: Whatever methods the only thread of this execution model calls, it never enters a mutex that it has
  entered already and leaves only mutexes it has entered: no assertion of a mutex fails; and when
  it is done all mutexes are free.\<close>
theorem none_assertions_hold:
  assumes "none_step\<^sup>*\<^sup>* (none_start ps) (t, st)"
  shows "(\<forall>m k ob. t_code t = Enter m # k \<longrightarrow> (\<exists>x. none_enter (st (m, ob)) = Inr x)) \<and>
    (\<forall>m k. t_code t = Leave m # k \<longrightarrow> (\<exists>ob x. (m, ob) \<in> set (t_held t) \<and> none_leave (st (m, ob)) = Inr x)) \<and>
    (t_code t = [] \<longrightarrow> (\<forall>l. \<not> occupied (st l)))"
proof -
  have ok: "thread_ok rank low t" "t_request t = None" "\<And>l. occupied (st l) \<longleftrightarrow> l \<in> set (t_held t)"
    using none_steps_ok [OF assms] by (auto simp: none_ok_def)
  have "(m, ob) \<notin> set (t_held t)" if "t_code t = Enter m # k" for m k ob
    using ok that by (auto simp: thread_ok_def split: if_splits)
  moreover have "\<exists>ob. (m, ob) \<in> set (t_held t)" if "t_code t = Leave m # k" for m k
    using ok that by (cases "t_held t") (auto simp: thread_ok_def split: if_splits)
  moreover have "t_held t = []" if "t_code t = []" using ok that by (simp add: thread_ok_def)
  ultimately show ?thesis using ok(3) by (auto simp: none_enter_def none_leave_def)
qed

theorem none_assertions_hold_witness:
  "\<exists>t st. none_step\<^sup>*\<^sup>* (none_start [Is_triggered]) (t, st) \<and> t_code t = [Enter Event_mutex, Leave Event_mutex] \<and>
    (\<exists>x. none_enter (st (Event_mutex, 3)) = Inr x)"
proof -
  define t1 where "t1 = (start_threads (\<lambda>_. [Is_triggered]) 0)\<lparr>t_code := [lk_isTriggered]\<rparr>"
  define t2 where "t2 = t1\<lparr>t_code := [Enter Event_mutex, Leave Event_mutex]\<rparr>"
  have "none_step (none_start [Is_triggered]) (t1, \<lambda>_. none_mutex_init)"
    unfolding none_start_def t1_def
    by (rule n_other [where c = "Call Is_triggered"])
      (use t_call [of "start_threads (\<lambda>_. [Is_triggered]) 0" Is_triggered "[]" "framework none_arch" "{}"] in \<open>auto simp: start_threads_def\<close>)
  moreover have "none_step (t1, \<lambda>_. none_mutex_init) (t2, \<lambda>_. none_mutex_init)"
    by (rule n_other [where c = lk_isTriggered])
      (use t_block [of t1 "[Enter Event_mutex, Leave Event_mutex]" "[]" "framework none_arch" "{}"] in
        \<open>auto simp: t1_def t2_def lk_isTriggered_def critical_def start_threads_def\<close>)
  ultimately have r: "none_step\<^sup>*\<^sup>* (none_start [Is_triggered]) (t2, \<lambda>_. none_mutex_init)"
    by (meson r_into_rtranclp rtranclp_trans)
  have c: "t_code t2 = [Enter Event_mutex, Leave Event_mutex]" by (simp add: t2_def)
  show ?thesis using none_assertions_hold [OF r] r c
    by (intro exI [of _ t2] exI [of _ "\<lambda>_. none_mutex_init"]) simp
qed

end
