(* ===== verification/OutpostSignaler.thy ===== *)
theory OutpostSignaler
  imports Prelude
begin

text \<open>
  The signaler of the execution model for OUTPOST (\<^verbatim>\<open>arch/outpost/signaler.cpp\<close>): a monitor built
  from a mutex, a binary semaphore, a number of waiting threads and a flag. The mutex and the
  semaphore are those of the OUTPOST library, taken by their documented behaviour: an acquire needs a
  released one, and a release of a released semaphore has no effect. A step is one access of a
  thread to the mutex or the semaphore, with the code it guards.
\<close>

section \<open>State\<close>

text \<open>
  Where a thread stands: outside of the monitor; inside; in \<^verbatim>\<open>wait\<close> before it acquires the
  semaphore; in \<^verbatim>\<open>wait\<close> after that and before it acquires the mutex.
\<close>

datatype monitor_pc = Outside | Inside | Sleeping | Woken

record monitor =
  m_owner :: "nat option"
  m_block :: bool
  pendingWakeUps :: nat
  m_wakeUp :: bool
  m_pc :: "nat \<Rightarrow> monitor_pc"

text \<open>The constructor; \<^verbatim>\<open>m_block\<close> says that the semaphore is released.\<close>

definition signaler_init :: monitor where
  "signaler_init = \<lparr>m_owner = None, m_block = False, pendingWakeUps = 0, m_wakeUp = False, m_pc = (\<lambda>_. Outside)\<rparr>"

section \<open>Operations\<close>

definition monitor_enter :: "nat \<Rightarrow> monitor \<Rightarrow> monitor" where
  "monitor_enter t s = s\<lparr>m_owner := Some t, m_pc := (m_pc s)(t := Inside)\<rparr>"

definition monitor_leave :: "nat \<Rightarrow> monitor \<Rightarrow> monitor" where
  "monitor_leave t s = s\<lparr>m_owner := None, m_pc := (m_pc s)(t := Outside)\<rparr>"

text \<open>\<^verbatim>\<open>wait\<close> releases the mutex and goes to sleep, acquires the semaphore, and then the mutex.\<close>

definition release_mutex :: "nat \<Rightarrow> monitor \<Rightarrow> monitor" where
  "release_mutex t s = s\<lparr>m_owner := None, m_pc := (m_pc s)(t := Sleeping)\<rparr>"

definition wait_begin :: "nat \<Rightarrow> monitor \<Rightarrow> monitor" where
  "wait_begin t s = release_mutex t (s\<lparr>pendingWakeUps := pendingWakeUps s + 1\<rparr>)"

definition acquire_block :: "nat \<Rightarrow> monitor \<Rightarrow> monitor" where
  "acquire_block t s = s\<lparr>m_block := False, m_pc := (m_pc s)(t := Woken)\<rparr>"

definition wait_test :: "nat \<Rightarrow> monitor \<Rightarrow> monitor" where
  "wait_test t s =
     (let s1 = monitor_enter t s in
      if m_wakeUp s1 then s1\<lparr>m_wakeUp := False, pendingWakeUps := pendingWakeUps s1 - 1\<rparr> else release_mutex t s1)"

definition monitor_signal :: "monitor \<Rightarrow> monitor" where
  "monitor_signal s = (if pendingWakeUps s > 0 then s\<lparr>m_wakeUp := True, m_block := True\<rparr> else s)"

inductive monitor_step :: "monitor \<Rightarrow> monitor \<Rightarrow> bool" where
  m_enter: "m_pc s t = Outside \<Longrightarrow> m_owner s = None \<Longrightarrow> monitor_step s (monitor_enter t s)"
| m_leave: "m_pc s t = Inside \<Longrightarrow> monitor_step s (monitor_leave t s)"
| m_wait: "m_pc s t = Inside \<Longrightarrow> monitor_step s (wait_begin t s)"
| m_acquire: "m_pc s t = Sleeping \<Longrightarrow> m_block s \<Longrightarrow> monitor_step s (acquire_block t s)"
| m_test: "m_pc s t = Woken \<Longrightarrow> m_owner s = None \<Longrightarrow> monitor_step s (wait_test t s)"
| m_signal: "m_pc s t = Inside \<Longrightarrow> monitor_step s (monitor_signal s)"

section \<open>Invariant\<close>

definition waiting :: "(nat \<Rightarrow> monitor_pc) \<Rightarrow> nat set" where
  "waiting pc = {t. pc t = Sleeping \<or> pc t = Woken}"

definition some_woken :: "(nat \<Rightarrow> monitor_pc) \<Rightarrow> bool" where
  "some_woken pc \<longleftrightarrow> (\<exists>t. pc t = Woken)"

definition monitor_inv :: "monitor \<Rightarrow> bool" where
  "monitor_inv s \<longleftrightarrow>
     (\<forall>t. m_pc s t = Inside \<longleftrightarrow> m_owner s = Some t) \<and>
     finite (waiting (m_pc s)) \<and> pendingWakeUps s = card (waiting (m_pc s)) \<and>
     (m_wakeUp s \<longrightarrow> waiting (m_pc s) \<noteq> {} \<and> (m_block s \<or> some_woken (m_pc s)))"

lemma waiting_update [simp]:
  "waiting (pc(t := p)) = (if p = Sleeping \<or> p = Woken then insert t (waiting pc) else waiting pc - {t})"
  by (auto simp: waiting_def)

lemma waiting_iff: "t \<in> waiting pc \<longleftrightarrow> pc t = Sleeping \<or> pc t = Woken"
  by (simp add: waiting_def)

lemma some_woken_update [simp]:
  "some_woken (pc(t := Woken))" "pc t \<noteq> Woken \<Longrightarrow> some_woken (pc(t := p)) \<longleftrightarrow> p = Woken \<or> some_woken pc"
  by (auto simp: some_woken_def)

lemma init_inv: "monitor_inv signaler_init"
  by (simp add: monitor_inv_def signaler_init_def waiting_def)

lemma step_monitor_inv: "monitor_step s s' \<Longrightarrow> monitor_inv s \<Longrightarrow> monitor_inv s'"
proof (induction rule: monitor_step.induct)
  case (m_enter s t)
  then show ?case by (simp add: monitor_inv_def monitor_enter_def waiting_iff)
next
  case (m_leave s t)
  then have "t \<notin> waiting (m_pc s)" "some_woken ((m_pc s)(t := Outside)) = some_woken (m_pc s)" by (simp_all add: waiting_iff)
  then show ?case using m_leave
    by (auto simp: monitor_inv_def monitor_leave_def simp del: some_woken_update)
next
  case (m_wait s t)
  then have "t \<notin> waiting (m_pc s)" "some_woken ((m_pc s)(t := Sleeping)) = some_woken (m_pc s)" by (simp_all add: waiting_iff)
  then show ?case using m_wait
    by (auto simp: monitor_inv_def wait_begin_def release_mutex_def simp del: some_woken_update)
next
  case (m_acquire s t)
  then have "t \<in> waiting (m_pc s)" by (simp add: waiting_iff)
  moreover have "m_owner s \<noteq> Some t" using m_acquire unfolding monitor_inv_def by (metis monitor_pc.distinct(7))
  ultimately show ?case using m_acquire by (auto simp: monitor_inv_def acquire_block_def insert_absorb)
next
  case (m_test s t)
  then have "t \<in> waiting (m_pc s)" by (simp add: waiting_iff)
  then show ?case using m_test
    by (auto simp: monitor_inv_def wait_test_def monitor_enter_def release_mutex_def insert_absorb Let_def)
next
  case (m_signal s t)
  then show ?case by (auto simp: monitor_inv_def monitor_signal_def)
qed

lemma steps_monitor_inv: "monitor_step\<^sup>*\<^sup>* s s' \<Longrightarrow> monitor_inv s \<Longrightarrow> monitor_inv s'"
  by (induction rule: rtranclp_induct) (auto intro: step_monitor_inv)

text \<open>The flag is cleared by a thread that leaves \<^verbatim>\<open>wait\<close>, and by nothing else.\<close>

lemma wake_up_kept:
  "monitor_step s s' \<Longrightarrow> m_wakeUp s \<Longrightarrow>
    m_wakeUp s' \<or> (\<exists>t. t \<in> waiting (m_pc s) \<and> s' = wait_test t s \<and> m_pc s' t = Inside)"
proof (induction rule: monitor_step.induct)
  case (m_test s t)
  then show ?case by (intro disjI2 exI [of _ t]) (auto simp: waiting_iff wait_test_def monitor_enter_def)
qed (simp_all add: monitor_enter_def monitor_leave_def wait_begin_def release_mutex_def acquire_block_def monitor_signal_def)

text \<open>C19: A signal that is sent while a thread is in \<^verbatim>\<open>wait\<close> gets a thread out of it, however the threads at the
  signaler of the OUTPOST execution model interleave: at most one thread is inside, and the counter is the number of threads in
  \<^verbatim>\<open>wait\<close>; a signal leaves the flag set exactly when some thread is in \<^verbatim>\<open>wait\<close>; the flag
  stays set until a thread leaves \<^verbatim>\<open>wait\<close>; and once it is set, then as soon as the monitor is free, a
  thread in \<^verbatim>\<open>wait\<close> can run, and in at most two steps leaves \<^verbatim>\<open>wait\<close> and clears the flag. A signal
  without a thread in \<^verbatim>\<open>wait\<close> is forgotten, and several signals before a thread leaves count once.\<close>
theorem outpost_signal_not_lost:
  assumes "monitor_step\<^sup>*\<^sup>* signaler_init s"
  shows "(\<forall>t u. m_pc s t = Inside \<and> m_pc s u = Inside \<longrightarrow> t = u) \<and> pendingWakeUps s = card (waiting (m_pc s)) \<and>
    (m_wakeUp (monitor_signal s) \<longleftrightarrow> waiting (m_pc s) \<noteq> {}) \<and>
    (m_wakeUp s \<longrightarrow> waiting (m_pc s) \<noteq> {} \<and>
      (\<forall>s'. monitor_step s s' \<longrightarrow> m_wakeUp s' \<or> (\<exists>t. t \<in> waiting (m_pc s) \<and> s' = wait_test t s \<and> m_pc s' t = Inside))) \<and>
    (m_wakeUp s \<and> m_owner s = None \<longrightarrow>
      (\<exists>t s1 s2. t \<in> waiting (m_pc s) \<and> s1 \<in> {s, acquire_block t s} \<and> monitor_step\<^sup>*\<^sup>* s s1 \<and> s2 = wait_test t s1 \<and>
         monitor_step s1 s2 \<and> m_pc s2 t = Inside \<and> \<not> m_wakeUp s2))"
proof -
  have i: "monitor_inv s" by (rule steps_monitor_inv [OF assms init_inv])
  have "\<exists>t s1 s2. t \<in> waiting (m_pc s) \<and> s1 \<in> {s, acquire_block t s} \<and> monitor_step\<^sup>*\<^sup>* s s1 \<and> s2 = wait_test t s1 \<and>
      monitor_step s1 s2 \<and> m_pc s2 t = Inside \<and> \<not> m_wakeUp s2"
    if w: "m_wakeUp s" and o: "m_owner s = None"
  proof (cases "\<exists>t. m_pc s t = Woken")
    case True
    then obtain t where t: "m_pc s t = Woken" by blast
    then have "monitor_step s (wait_test t s)" using o by (rule m_test)
    then show ?thesis using t w by (intro exI [of _ t]) (auto simp: waiting_iff wait_test_def monitor_enter_def)
  next
    case False
    then obtain t where t: "m_pc s t = Sleeping" and b: "m_block s"
      using i w unfolding monitor_inv_def waiting_def some_woken_def by blast
    have "monitor_step s (acquire_block t s)" by (rule m_acquire [OF t b])
    moreover have "monitor_step (acquire_block t s) (wait_test t (acquire_block t s))"
      by (rule m_test) (simp_all add: acquire_block_def o)
    ultimately show ?thesis using t w
      by (intro exI [of _ t]) (auto simp: waiting_iff wait_test_def monitor_enter_def acquire_block_def)
  qed
  moreover have "m_wakeUp (monitor_signal s) \<longleftrightarrow> waiting (m_pc s) \<noteq> {}"
    using i by (auto simp: monitor_inv_def monitor_signal_def card_gt_0_iff)
  moreover have "\<forall>t u. m_pc s t = Inside \<and> m_pc s u = Inside \<longrightarrow> t = u" using i by (auto simp: monitor_inv_def)
  moreover have "pendingWakeUps s = card (waiting (m_pc s))" "m_wakeUp s \<longrightarrow> waiting (m_pc s) \<noteq> {}"
    using i by (simp_all add: monitor_inv_def)
  ultimately show ?thesis using wake_up_kept by blast
qed

theorem outpost_signal_not_lost_witness:
  "\<exists>s t. monitor_step\<^sup>*\<^sup>* signaler_init s \<and> m_wakeUp s \<and> m_pc s t = Sleeping \<and> pendingWakeUps s = 1 \<and>
    (\<exists>s1 s2. monitor_step\<^sup>*\<^sup>* s s1 \<and> monitor_step s1 s2 \<and> \<not> m_wakeUp s2)"
proof -
  define s1 where "s1 = wait_begin 0 (monitor_enter 0 signaler_init)"
  define s2 where "s2 = monitor_leave 1 (monitor_signal (monitor_enter 1 s1))"
  note defs = s2_def s1_def wait_begin_def release_mutex_def monitor_enter_def monitor_signal_def monitor_leave_def
    signaler_init_def
  have 1: "monitor_step signaler_init (monitor_enter 0 signaler_init)" by (rule m_enter) (simp_all add: defs)
  have 2: "monitor_step (monitor_enter 0 signaler_init) s1" unfolding s1_def by (rule m_wait) (simp add: defs)
  have 3: "monitor_step s1 (monitor_enter 1 s1)" by (rule m_enter) (simp_all add: defs)
  have 4: "monitor_step (monitor_enter 1 s1) (monitor_signal (monitor_enter 1 s1))"
    by (rule m_signal [of _ 1]) (simp add: defs)
  have 5: "monitor_step (monitor_signal (monitor_enter 1 s1)) s2"
    unfolding s2_def by (rule m_leave) (simp add: defs)
  note more = converse_rtranclp_into_rtranclp [of monitor_step]
  have r: "monitor_step\<^sup>*\<^sup>* signaler_init s2"
    by (rule more [OF 1 more [OF 2 more [OF 3 more [OF 4 r_into_rtranclp [of monitor_step, OF 5]]]]])
  have s2: "m_wakeUp s2" "m_owner s2 = None" "m_pc s2 0 = Sleeping" "pendingWakeUps s2 = 1"
    by (simp_all add: defs)
  from outpost_signal_not_lost [OF r] s2 r show ?thesis by blast
qed

text \<open>Two signals before a thread wakes up count once.\<close>

lemma second_signal: "monitor_signal (monitor_signal s) = monitor_signal s"
  by (simp add: monitor_signal_def)

end
