(* ===== verification/ArchOutpost.thy ===== *)
theory ArchOutpost
  imports LockOrder ClockQueue
begin

text \<open>
  The execution model over the OUTPOST library (\<^verbatim>\<open>arch/outpost\<close>). Threads, semaphores, timers
  and times of that library are not part of the repository: the operations on times are arguments,
  a timer is the time span it is started with, and a wait on a signaler is that of the lock
  discipline. Modelled are the clock and the mutexes of the executors.
\<close>

section \<open>Clock\<close>

text \<open>\<open>diff\<close> is the difference of two times of the board clock, \<open>milliseconds\<close> the length of a duration.\<close>

definition outpost_getTime :: "('t \<Rightarrow> 't \<Rightarrow> 'd) \<Rightarrow> ('d \<Rightarrow> time) \<Rightarrow> 't \<Rightarrow> 't \<Rightarrow> time" where
  "outpost_getTime diff milliseconds now zeroTime = milliseconds (diff now zeroTime)"

text \<open>\<open>back\<close> takes a duration off a time, \<open>duration\<close> is the constructor \<^verbatim>\<open>Milliseconds\<close>.\<close>

definition outpost_setZeroTime :: "('t \<Rightarrow> 'd \<Rightarrow> 't) \<Rightarrow> (time \<Rightarrow> 'd) \<Rightarrow> 't \<Rightarrow> time \<Rightarrow> 't" where
  "outpost_setZeroTime back duration now offset = back now (duration offset)"

definition outpost_startTimer :: "(time \<Rightarrow> 'd) \<Rightarrow> time \<Rightarrow> 'd" where
  "outpost_startTimer duration timeSpan = duration timeSpan"

text \<open>
  \<^verbatim>\<open>clockTick\<close>: \<open>t1\<close> is the time at which the queue is searched, \<open>t2\<close> that of \<^verbatim>\<open>currentTime\<close> and
  \<open>t3\<close> that of \<^verbatim>\<open>isPending\<close>. The result is the time span with which the timer is started again, if
  it is, and whether the scheduler is signalled.
\<close>

definition clockTick :: "time \<Rightarrow> time \<Rightarrow> time \<Rightarrow> clock \<Rightarrow> (clock \<times> time option \<times> bool) res" where
  "clockTick t1 t2 t3 c =
     bindR (getNextStartTime t1 c) (\<lambda>(c1, nextStartTime).
       Inr (c1, (if nextStartTime \<noteq> 0 \<and> nextStartTime > t2 then Some (nextStartTime - t2) else None), isPending t3 c1))"

lemma getNextStartTime_hint: "getNextStartTime now c = Inr (c', t) \<Longrightarrow> \<exists>p. c' = c\<lparr>nonePendingHead := p\<rparr>"
  by (auto simp: getNextStartTime_def bindR_eq_Inr)

lemma next_start_covers:
  assumes r: "clock_rep t1 c xs" and n: "nph_ok t1 c xs" and x: "x \<in> set xs" and t: "t1 \<le> t3"
  shows "\<exists>c' s. getNextStartTime t1 c = Inr (c', s) \<and> (isPending t3 c' \<or> t3 < s \<and> s \<le> tm c x)"
proof -
  obtain c' where c': "getNextStartTime t1 c = Inr (c', case first_future t1 (tm c) xs of None \<Rightarrow> 0 | Some x \<Rightarrow> tm c x)"
    using getNextStartTime_spec [OF r n] by blast
  then obtain p where p: "c' = c\<lparr>nonePendingHead := p\<rparr>" using getNextStartTime_hint by blast
  obtain h ys where xs: "xs = h # ys" using x by (cases xs) auto
  have srt: "future_sorted t1 (tm c) xs" and head: "queueHead c = Some h"
    using r xs by (auto simp: clock_rep_def clock_shape_def)
  show ?thesis
  proof (cases "tm c h \<le> t3")
    case True
    then have "isPending t3 c'" using head p by (simp add: isPending_def)
    then show ?thesis using c' by blast
  next
    case False
    then have h: "t1 < tm c h" using t by auto
    then have "first_future t1 (tm c) xs = Some h" by (simp add: first_future_def xs)
    moreover have "tm c h \<le> tm c x" using srt h x by (auto simp: xs future_sorted_Cons)
    ultimately show ?thesis using c' False by auto
  qed
qed

text \<open>C27: As long as the hint \<^verbatim>\<open>nonePendingHead\<close> is true when the tick begins, a tick of the clock loses no event:
  for every event in the queue, either the scheduler is signalled to handle a pending event or the timer is started again and
  expires no later than the event is due. This holds although time passes between the search of the queue and the
  two reads of the clock; the time of the timer is taken to run from the first of these reads.\<close>
theorem tick_loses_no_event:
  assumes "clock_run t1 c xs" and "nph_ok t1 c xs" and "t1 \<le> t2" and "t2 \<le> t3"
  shows "\<exists>c' timer sig. clockTick t1 t2 t3 c = Inr (c', timer, sig) \<and>
    (\<forall>x\<in>set xs. sig \<or> (\<exists>d. timer = Some d \<and> 0 < d \<and> t2 + d \<le> tm c x))"
proof -
  have r: "clock_rep t1 c xs" by (rule clock_run_rep [OF assms(1)])
  obtain c' s where c': "getNextStartTime t1 c = Inr (c', s)" using getNextStartTime_spec [OF r assms(2)] by blast
  have all: "isPending t3 c' \<or> (\<exists>d. (if s \<noteq> 0 \<and> s > t2 then Some (s - t2) else None) = Some d \<and> 0 < d \<and> t2 + d \<le> tm c x)"
    if "x \<in> set xs" for x
  proof (cases "isPending t3 c'")
    case True
    then show ?thesis by simp
  next
    case False
    then have s: "t3 < s" "s \<le> tm c x" using next_start_covers [OF r assms(2) that, of t3] c' assms(3,4) by auto
    then have "t2 < s" using assms(4) by simp
    then have "s \<noteq> 0" "0 < s - t2" by (auto simp: word_gt_0)
    then show ?thesis using s(2) \<open>t2 < s\<close> by auto
  qed
  have "clockTick t1 t2 t3 c = Inr (c', if s \<noteq> 0 \<and> s > t2 then Some (s - t2) else None, isPending t3 c')"
    by (simp add: clockTick_def c')
  then show ?thesis using all by blast
qed

theorem tick_loses_no_event_witness:
  "\<exists>c c' timer. clock_run 0 c [2, 3] \<and> clockTick 0 5 7 c = Inr (c', timer, False) \<and> (\<exists>d. timer = Some d \<and> 5 + d \<le> 10)"
proof -
  obtain c where c: "clock_run 0 c [2, 3]" "tm c 2 = 10" "nph_ok 0 c [2, 3]" using clock_example by auto
  obtain c' timer sig where r: "clockTick 0 5 7 c = Inr (c', timer, sig)"
    "\<forall>x\<in>set [2, 3]. sig \<or> (\<exists>d. timer = Some d \<and> 0 < d \<and> 5 + d \<le> tm c x)"
    using tick_loses_no_event [OF c(1,3), of 5 7] by auto
  have "queueHead c = Some 2" using clock_run_rep [OF c(1)] by (auto simp: clock_rep_def clock_shape_def)
  then have "\<not> sig" using r(1) c(2) getNextStartTime_hint
    by (fastforce simp: clockTick_def bindR_eq_Inr isPending_def)
  then show ?thesis using r c by auto
qed

text \<open>After the zero time was set with an offset, the time is the offset, by two laws of the times of OUTPOST.\<close>

theorem outpost_zero_time:
  assumes "\<And>t d. diff t (back t d) = d" and "\<And>x. milliseconds (duration x) = x"
  shows "outpost_getTime diff milliseconds now (outpost_setZeroTime back duration now offset) = offset"
  using assms by (simp add: outpost_getTime_def outpost_setZeroTime_def)

section \<open>Mutexes\<close>

definition lk_outpost_run :: lock_cmd where
  "lk_outpost_run = Block [Enter Executor_signaler, critical Empty_signal [],
     Loop (Block [wait_on Executor_signaler, Leave Executor_signaler,
        Call Is_pending, Maybe (Call Handle_events),
        Call Next_task, Loop (Block [Call Is_pending, Maybe (Call Handle_events), Call Execute, Call Next_task]),
        Enter Executor_signaler, critical Empty_signal []]),
     Leave Executor_signaler]"

definition lk_outpost_startExecutors :: lock_cmd where
  "lk_outpost_startExecutors = critical Empty_signal [Loop (Maybe (wait_on Empty_signal))]"

definition lk_outpost_signal :: lock_cmd where
  "lk_outpost_signal = Block [Enter Empty_signal,
     Either (Block [Leave Empty_signal, critical Executor_signaler []]) (Leave Empty_signal)]"

definition lk_outpost_waitUntilEmpty :: lock_cmd where
  "lk_outpost_waitUntilEmpty = critical Empty_signal [Loop (wait_on Empty_signal)]"

definition lk_clockTick :: lock_cmd where
  "lk_clockTick = Block [critical Time_queue [], Call Is_pending, Maybe (Call Signal_scheduler)]"

fun outpost_arch :: "routine \<Rightarrow> lock_cmd" where
  "outpost_arch Signal_scheduler = lk_outpost_signal" | "outpost_arch Wait_until_empty = lk_outpost_waitUntilEmpty"
| "outpost_arch Executor_thread = lk_outpost_run" | "outpost_arch Start_executor = lk_outpost_startExecutors"
| "outpost_arch Clock_thread = lk_clockTick" | "outpost_arch p = Skip"

interpretation outpost_locks: ordered_locks "framework outpost_arch" rank low
proof -
  have "check rank low (outpost_arch p) [] = Some [] \<and> above rank low (low p) (outpost_arch p)" for p
    by (cases p) (simp_all add: critical_def wait_on_def lk_outpost_run_def lk_outpost_startExecutors_def
      lk_outpost_signal_def lk_outpost_waitUntilEmpty_def lk_clockTick_def)
  then show "ordered_locks (framework outpost_arch) rank low"
    using framework_checked by unfold_locales blast+
qed

text \<open>No threads wait for mutexes in a circle.\<close>

theorem outpost_no_deadlock:
  assumes "(threads_step (framework outpost_arch) n)\<^sup>*\<^sup>* (start_threads ps) s" and "\<exists>i<n. \<not> finished (s i) \<and> \<not> t_asleep (s i)"
  shows "\<exists>i<n. \<exists>t. thread_step (framework outpost_arch) (held_by n s) (s i) t"
  using outpost_locks.threads_progress [OF assms(1)] assms(2) by blast

end
