(* ===== verification/OutpostExecutors.thy ===== *)
theory OutpostExecutors
  imports LinuxExecutors
begin

text \<open>
  The executors of the execution model for OUTPOST (\<^verbatim>\<open>arch/outpost/schedulerExecutionModel.cpp\<close>): the state,
  the list of free executors and the critical sections are those of the Linux model, but the
  signalers differ. A signal to a signaler on which nobody waits has no effect (\<^verbatim>\<open>pendingWakeUps\<close>),
  a started executor is put on the list before it is in its wait, and the threads never end. The
  signaler itself is modelled in \<^verbatim>\<open>OutpostSignaler\<close>; here a wait is the position of the thread.
\<close>

section \<open>Critical sections\<close>

text \<open>
  \<^verbatim>\<open>startExecutors\<close> waits until the thread has entered the critical section in which it signals that it
  runs: it holds its own signaler then, and goes from there into its wait.
\<close>

definition outpost_startExecutors :: "nat \<Rightarrow> exec_state" where
  "outpost_startExecutors n = (start_executors n)\<lparr>x_pc := (\<lambda>_. Inserted)\<rparr>"

text \<open>\<^verbatim>\<open>Signaler::signal\<close> of an executor, and of the signaler of the thread in \<^verbatim>\<open>waitUntilEmpty\<close>.\<close>

definition outpost_signal :: "nat \<Rightarrow> exec_state \<Rightarrow> exec_state" where
  "outpost_signal e s = (if x_pc s e = Waiting then signaler_signal e s else s)"

definition outpost_emptySignal :: "exec_state \<Rightarrow> exec_state" where
  "outpost_emptySignal s = (case x_waiter s of AwaitFree k \<Rightarrow> s\<lparr>empty_wakeUp := True\<rparr> | _ \<Rightarrow> s)"

definition outpost_insert :: "nat \<Rightarrow> exec_state \<Rightarrow> exec_state" where
  "outpost_insert e s = set_pc e Inserted (outpost_emptySignal (put_free e s))"

text \<open>A move of a thread, made when its condition holds.\<close>

fun outpost_make :: "nat \<Rightarrow> move \<Rightarrow> exec_state \<Rightarrow> exec_state option" where
  "outpost_make n (Signal e) s = (if e \<in> set (x_signals s) \<and> signaler_free s e
     then Some (outpost_signal e (s\<lparr>x_signals := remove1 e (x_signals s)\<rparr>)) else None)"
| "outpost_make n (Insert e) s = (if e < n \<and> x_pc s e = Locked then Some (outpost_insert e s) else None)"
| "outpost_make n m s = make n m s"

fun outpost_make_all :: "nat \<Rightarrow> move list \<Rightarrow> exec_state \<Rightarrow> exec_state option" where
  "outpost_make_all n [] s = Some s"
| "outpost_make_all n (m # ms) s = (case outpost_make n m s of None \<Rightarrow> None | Some s1 \<Rightarrow> outpost_make_all n ms s1)"

section \<open>No executor is lost\<close>

lemma outpost_insert_eq: "\<exists>b. outpost_insert e s = (insert_free e s)\<lparr>empty_wakeUp := b\<rparr>"
  by (cases s) (auto simp: outpost_insert_def outpost_emptySignal_def insert_free_def put_free_def set_pc_def split: waiter.splits)

text \<open>A signal of the scheduler finds the executor in its wait: the signal counts.\<close>

lemma outpost_signal_counts:
  assumes "exec_inv n s fs" and "e \<in> set (x_signals s)" and "signaler_free s e"
  shows "outpost_signal e (s\<lparr>x_signals := xs\<rparr>) = signaler_signal e (s\<lparr>x_signals := xs\<rparr>)"
  using assms by (auto simp: exec_inv_def outpost_signal_def idle_def signaler_free_def)

lemma make_inv: "make n m s = Some s' \<Longrightarrow> exec_inv n s fs \<Longrightarrow> \<exists>fs'. exec_inv n s' fs'"
  using make_step step_exec_inv by blast

lemma outpost_make_other: "(\<And>e. m \<noteq> Signal e \<and> m \<noteq> Insert e) \<Longrightarrow> outpost_make n m s = make n m s"
  by (cases m) auto

lemma outpost_make_inv:
  assumes m: "outpost_make n m s = Some s'" and i: "exec_inv n s fs"
  shows "\<exists>fs'. exec_inv n s' fs'"
proof -
  consider (send) e where "m = Signal e" | (put) e where "m = Insert e" | (other) "\<And>e. m \<noteq> Signal e \<and> m \<noteq> Insert e" by blast
  then show ?thesis
  proof cases
    case (send e)
    then show ?thesis using make_inv [OF _ i, of m] m by (auto simp: outpost_signal_counts [OF i] split: if_splits)
  next
    case (put e)
    obtain fs' where f: "exec_inv n (insert_free e s) fs'"
      using make_inv [OF _ i, of m "insert_free e s"] m put by (auto split: if_splits)
    obtain b where "outpost_insert e s = (insert_free e s)\<lparr>empty_wakeUp := b\<rparr>" using outpost_insert_eq by blast
    then have "exec_inv n (outpost_insert e s) fs'" using f by simp
    then show ?thesis using m put by (auto split: if_splits)
  next
    case other
    then show ?thesis using make_inv [OF _ i, of m s'] m outpost_make_other [of m n s] by simp
  qed
qed

lemma outpost_make_all_inv:
  "outpost_make_all n ms s = Some s' \<Longrightarrow> exec_inv n s fs \<Longrightarrow> \<exists>fs'. exec_inv n s' fs'"
proof (induction ms arbitrary: s fs)
  case (Cons m ms)
  then show ?case using outpost_make_inv by (auto split: option.splits) blast
qed auto

lemma outpost_start_inv: "exec_inv n (outpost_startExecutors n) (rev [0..<n])"
  using start_inv [of n] by (simp add: exec_inv_def outpost_startExecutors_def idle_def)

text \<open>C20: With the signalers of OUTPOST, which forget a signal when nobody waits, no executor is lost either: in
  every run the list of free executors is a proper list of executors that sleep or are about to,
  every sleeping executor is on it, or about to be signalled, or signalled, and a signal that is sent
  to an executor counts.\<close>
theorem outpost_no_executor_lost:
  assumes "outpost_make_all n ms (outpost_startExecutors n) = Some s"
  shows "\<exists>fs. chain (nextFree s) (freeExecutors s) fs \<and> distinct fs \<and> (\<forall>e\<in>set fs. e < n \<and> idle s e) \<and>
    (\<forall>e. e < n \<and> x_pc s e = Waiting \<longrightarrow> e \<in> set fs \<or> e \<in> set (x_signals s) \<or> x_wakeUp s e) \<and>
    (\<forall>e s'. outpost_make n (Signal e) s = Some s' \<longrightarrow> x_wakeUp s' e)"
proof -
  obtain fs where i: "exec_inv n s fs" using outpost_make_all_inv [OF assms outpost_start_inv] by blast
  have "x_wakeUp s' e" if "outpost_make n (Signal e) s = Some s'" for e s'
    using that outpost_signal_counts [OF i, of e] by (auto simp: signaler_signal_def split: if_splits)
  with i show ?thesis unfolding exec_inv_def by (intro exI [of _ fs]) (auto simp: idle_def)
qed

theorem outpost_no_executor_lost_witness:
  "\<exists>s fs. outpost_make_all 2 [Sleep 1, Perform 5, SignalRead, Signal 1, Wake 1, Take 1] (outpost_startExecutors 2) = Some s \<and>
    x_pc s 0 = Inserted \<and> x_pc s 1 = Executing 5 \<and> chain (nextFree s) (freeExecutors s) fs \<and> distinct fs"
proof -
  let ?ms = "[Sleep 1, Perform 5, SignalRead, Signal 1, Wake 1, Take 1]"
  have "map_option (\<lambda>s. (x_pc s 0, x_pc s 1)) (outpost_make_all 2 ?ms (outpost_startExecutors 2)) =
    Some (Inserted, Executing 5)" by code_simp
  then obtain s where s: "outpost_make_all 2 ?ms (outpost_startExecutors 2) = Some s" "x_pc s 0 = Inserted" "x_pc s 1 = Executing 5"
    by auto
  from outpost_no_executor_lost [OF s(1)] s show ?thesis by blast
qed

section \<open>The wait until all executors are free\<close>

text \<open>The wait until all executors are free can hang with OUTPOST as it does on Linux: two executors become
  free before the waiting thread wakes up, the flag \<^verbatim>\<open>wakeUp\<close> is set once, all executors sleep
  with an empty run queue, and no thread has a move.\<close>
theorem outpost_wait_until_empty_hangs:
  "\<exists>ms s. outpost_make_all 2 ms (outpost_startExecutors 2) = Some s \<and> x_queue s = [] \<and> x_waiter s = AwaitFree 1 \<and>
    (\<forall>m. (\<forall>t. m \<noteq> Perform t) \<longrightarrow> outpost_make 2 m s = None)"
proof -
  let ?ms = "[Sleep 0, Sleep 1, Perform 5, SignalRead, Signal 1, Wake 1, Take 1, Perform 6, SignalRead, Signal 0, Wake 0, Take 0,
      Await, Finish 0, Find_empty 0, Finish 1, Find_empty 1, Lock 0, Insert 0, Lock 1, Insert 1, Await_wake,
      Sleep 0, Sleep 1]"
  have "map_option (\<lambda>s. (x_queue s, asleep 2 s, x_waiter s, empty_wakeUp s)) (outpost_make_all 2 ?ms (outpost_startExecutors 2)) =
      Some ([], True, AwaitFree 1, False)" by code_simp
  then obtain s where s: "outpost_make_all 2 ?ms (outpost_startExecutors 2) = Some s" "x_queue s = []" "asleep 2 s"
    "x_waiter s = AwaitFree 1" "\<not> empty_wakeUp s" by auto
  then have "x_calls s = 0" "x_signals s = []" "e < 2 \<Longrightarrow> x_pc s e = Waiting" "e < 2 \<Longrightarrow> \<not> x_wakeUp s e" for e
    by (auto simp: asleep_def list_all_iff)
  then have "(\<forall>t. m \<noteq> Perform t) \<longrightarrow> outpost_make 2 m s = None" for m
    using s by (cases m) (auto split: list.splits exec_pc.splits sum.splits prod.splits option.splits)
  then show ?thesis using s by blast
qed

end
