(* ===== verification/ExecutorLife.thy ===== *)
theory ExecutorLife
  imports Prelude
begin

text \<open>
  The life of one executor of the Linux execution model: \<^verbatim>\<open>startExecutor\<close> creates its thread and waits
  until it runs, and the destructor ends the loop of the thread and joins it. A step is one critical
  section of the executor's signaler, or a part of a thread between two of them; the mutex is held
  across steps by the thread alone. A wait of \<^verbatim>\<open>pthread_cond_wait\<close> ends when it is signalled; one that
  ends without a signal finds \<^verbatim>\<open>wakeUp\<close> unset and waits again.
\<close>

section \<open>State\<close>

text \<open>
  Where the thread stands in \<^verbatim>\<open>executorThread\<close>: not created; created, before it enters the signaler;
  inside, at the test of \<^verbatim>\<open>running\<close>; in the wait; working; after its work, before it enters the signaler
  again; at its end.
\<close>

datatype thread_pc = NotCreated | Created | At_test | In_wait | Working | Leaving | Exited

text \<open>Where the owner stands: before \<^verbatim>\<open>startExecutor\<close>, in its loop, after it, in the join, after that.\<close>

datatype owner_pc = Before | Spinning | Started | Joining | Joined

text \<open>\<open>l_cond\<close> says that the condition variable was signalled since the thread waits.\<close>

record life =
  l_thread :: thread_pc
  l_owner :: owner_pc
  l_running :: bool
  l_waitOnSignal :: bool
  l_wakeUp :: bool
  l_cond :: bool

definition executor_init :: life where
  "executor_init = \<lparr>l_thread = NotCreated, l_owner = Before, l_running = False, l_waitOnSignal = False, l_wakeUp = False, l_cond = False\<rparr>"

definition mutex_free :: "life \<Rightarrow> bool" where
  "mutex_free s \<longleftrightarrow> l_thread s \<noteq> At_test"

section \<open>Steps\<close>

text \<open>\<^verbatim>\<open>Signaler::signal\<close>.\<close>

definition life_signal :: "life \<Rightarrow> life" where
  "life_signal s = s\<lparr>l_wakeUp := True, l_cond := (l_thread s = In_wait)\<rparr>"

text \<open>The critical section of the destructor.\<close>

definition stop_thread :: "life \<Rightarrow> life" where
  "stop_thread s = (let s1 = s\<lparr>l_running := False\<rparr> in if l_waitOnSignal s1 then life_signal s1 else s1)"

inductive thread_moves :: "life \<Rightarrow> life \<Rightarrow> bool" where
  t_enter: "l_thread s = Created \<Longrightarrow> thread_moves s (s\<lparr>l_thread := At_test, l_running := True\<rparr>)"
| t_wait: "l_thread s = At_test \<Longrightarrow> l_running s \<Longrightarrow> thread_moves s (s\<lparr>l_thread := In_wait, l_waitOnSignal := True, l_cond := False\<rparr>)"
| t_wake: "l_thread s = In_wait \<Longrightarrow> l_cond s \<Longrightarrow> l_wakeUp s \<Longrightarrow>
    thread_moves s (s\<lparr>l_thread := Working, l_wakeUp := False, l_waitOnSignal := False, l_cond := False\<rparr>)"
| t_task: "l_thread s = Working \<Longrightarrow> l_running s \<Longrightarrow> thread_moves s s"
| t_done: "l_thread s = Working \<Longrightarrow> thread_moves s (s\<lparr>l_thread := Leaving\<rparr>)"
| t_again: "l_thread s = Leaving \<Longrightarrow> thread_moves s (s\<lparr>l_thread := At_test\<rparr>)"
| t_exit: "l_thread s = At_test \<Longrightarrow> \<not> l_running s \<Longrightarrow> thread_moves s (s\<lparr>l_thread := Exited\<rparr>)"

inductive other_moves :: "life \<Rightarrow> life \<Rightarrow> bool" where
  o_create: "l_owner s = Before \<Longrightarrow> other_moves s (s\<lparr>l_owner := Spinning, l_thread := Created\<rparr>)"
| o_check: "l_owner s = Spinning \<Longrightarrow> mutex_free s \<Longrightarrow>
    other_moves s (s\<lparr>l_owner := (if l_running s then Started else Spinning)\<rparr>)"
| o_signal: "l_owner s = Started \<Longrightarrow> mutex_free s \<Longrightarrow> other_moves s (life_signal s)"
| o_stop: "l_owner s = Started \<Longrightarrow> mutex_free s \<Longrightarrow> other_moves s (stop_thread s\<lparr>l_owner := Joining\<rparr>)"
| o_join: "l_owner s = Joining \<Longrightarrow> l_thread s = Exited \<Longrightarrow> other_moves s (s\<lparr>l_owner := Joined\<rparr>)"

inductive_cases thread_movesE: "thread_moves s s'"
inductive_cases other_movesE: "other_moves s s'"

definition life_step :: "life \<Rightarrow> life \<Rightarrow> bool" where
  "life_step s s' \<longleftrightarrow> thread_moves s s' \<or> other_moves s s'"

section \<open>Invariant\<close>

definition life_inv :: "life \<Rightarrow> bool" where
  "life_inv s \<longleftrightarrow>
     (l_thread s = NotCreated \<longleftrightarrow> l_owner s = Before) \<and>
     (l_waitOnSignal s \<longleftrightarrow> l_thread s = In_wait) \<and> (l_cond s \<longrightarrow> l_wakeUp s) \<and>
     (case l_owner s of
        Before \<Rightarrow> \<not> l_running s \<and> \<not> l_wakeUp s
      | Spinning \<Rightarrow> l_thread s \<in> {Created, At_test, In_wait} \<and> (l_running s \<longleftrightarrow> l_thread s \<noteq> Created) \<and> \<not> l_wakeUp s
      | Started \<Rightarrow> l_running s \<and> l_thread s \<notin> {Created, Exited}
      | Joining \<Rightarrow> \<not> l_running s \<and> l_thread s \<noteq> Created \<and> (l_thread s = In_wait \<longrightarrow> l_cond s)
      | Joined \<Rightarrow> \<not> l_running s \<and> l_thread s = Exited)"

lemma init_life_inv: "life_inv executor_init"
  by (simp add: life_inv_def executor_init_def)

lemma thread_life_inv: "thread_moves s s' \<Longrightarrow> life_inv s \<Longrightarrow> life_inv s'"
  by (erule thread_movesE) (auto simp: life_inv_def split: owner_pc.splits)

lemma other_life_inv: "other_moves s s' \<Longrightarrow> life_inv s \<Longrightarrow> life_inv s'"
  by (erule other_movesE)
     (auto simp: life_inv_def mutex_free_def life_signal_def stop_thread_def Let_def split: owner_pc.splits)

lemma life_steps_inv: "life_step\<^sup>*\<^sup>* executor_init s \<Longrightarrow> life_inv s"
  by (induction rule: rtranclp_induct) (auto simp: init_life_inv life_step_def intro: thread_life_inv other_life_inv)

text \<open>How far the thread is from its end.\<close>

fun distance :: "thread_pc \<Rightarrow> nat" where
  "distance In_wait = 4" | "distance Working = 3" | "distance Leaving = 2" | "distance At_test = 1" | "distance p = 0"

lemma stopped_thread_moves:
  assumes "life_inv s" and "l_owner s = Joining" and "l_thread s \<noteq> Exited"
  shows "(\<exists>s'. thread_moves s s') \<and> (\<forall>s'. thread_moves s s' \<longrightarrow> distance (l_thread s') < distance (l_thread s) \<and> l_owner s' = Joining)"
proof
  show "\<forall>s'. thread_moves s s' \<longrightarrow> distance (l_thread s') < distance (l_thread s) \<and> l_owner s' = Joining"
    using assms by (auto simp: life_inv_def elim!: thread_movesE)
  show "\<exists>s'. thread_moves s s'"
    using assms thread_moves.intros by (cases "l_thread s") (auto simp: life_inv_def, blast+)
qed

section \<open>Properties\<close>

text \<open>When \<^verbatim>\<open>startExecutor\<close> returns, the thread of the executor is in its wait, so that a signal reaches it.\<close>
theorem start_returns_waiting:
  assumes "life_step\<^sup>*\<^sup>* executor_init s" and "other_moves s s'" and "l_owner s = Spinning" and "l_owner s' = Started"
  shows "l_thread s' = In_wait \<and> l_waitOnSignal s' \<and> \<not> l_wakeUp s'"
  using life_steps_inv [OF assms(1)] assms(2-4)
  by (auto simp: life_inv_def mutex_free_def elim!: other_movesE split: if_splits)

text \<open>C9: The join in the destructor of an executor returns: once the destructor has left its critical section,
  the thread can move until it exits, every move brings it nearer to its end, and it does not wait
  again, wherever it stood when it was stopped.\<close>
theorem destructor_joins:
  assumes "life_step\<^sup>*\<^sup>* executor_init s" and "l_owner s = Joining"
  shows "(l_thread s \<noteq> Exited \<longrightarrow> (\<exists>s'. thread_moves s s')) \<and>
    (\<forall>s'. thread_moves s s' \<longrightarrow> distance (l_thread s') < distance (l_thread s)) \<and>
    (\<exists>s1 s2. thread_moves\<^sup>*\<^sup>* s s1 \<and> other_moves s1 s2 \<and> l_owner s2 = Joined)"
proof -
  have i: "life_inv s" by (rule life_steps_inv [OF assms(1)])
  have "\<exists>s1 s2. thread_moves\<^sup>*\<^sup>* s s1 \<and> other_moves s1 s2 \<and> l_owner s2 = Joined" using i assms(2)
  proof (induction "distance (l_thread s)" arbitrary: s rule: less_induct)
    case less
    show ?case
    proof (cases "l_thread s = Exited")
      case True
      then show ?thesis using o_join [OF less.prems(2)] by (intro exI [of _ s] exI [of _ "s\<lparr>l_owner := Joined\<rparr>"]) simp
    next
      case False
      then obtain s' where s': "thread_moves s s'" "distance (l_thread s') < distance (l_thread s)" "l_owner s' = Joining"
        using stopped_thread_moves [OF less.prems] by blast
      then show ?thesis using less.hyps [OF s'(2) thread_life_inv [OF s'(1) less.prems(1)] s'(3)]
        by (meson converse_rtranclp_into_rtranclp)
    qed
  qed
  moreover have "l_thread s = Exited \<Longrightarrow> \<not> thread_moves s s'" for s' by (auto elim: thread_movesE)
  ultimately show ?thesis using stopped_thread_moves [OF i assms(2)] by blast
qed

lemma waiting_example:
  "\<exists>s. life_step\<^sup>*\<^sup>* executor_init s \<and> s = \<lparr>l_thread = In_wait, l_owner = Spinning, l_running = True, l_waitOnSignal = True,
     l_wakeUp = False, l_cond = False\<rparr>"
proof -
  let ?s1 = "executor_init\<lparr>l_owner := Spinning, l_thread := Created\<rparr>"
  let ?s2 = "?s1\<lparr>l_thread := At_test, l_running := True\<rparr>"
  let ?s3 = "?s2\<lparr>l_thread := In_wait, l_waitOnSignal := True, l_cond := False\<rparr>"
  have 1: "life_step executor_init ?s1" using o_create [of executor_init] by (simp add: executor_init_def life_step_def)
  have 2: "life_step ?s1 ?s2" using t_enter [of ?s1] by (simp add: life_step_def)
  have 3: "life_step ?s2 ?s3" using t_wait [of ?s2] by (simp add: life_step_def)
  have "life_step\<^sup>*\<^sup>* executor_init ?s3" using 1 2 3 by (meson converse_rtranclp_into_rtranclp r_into_rtranclp)
  then show ?thesis by (simp add: executor_init_def)
qed

theorem start_returns_waiting_witness:
  "\<exists>s s'. life_step\<^sup>*\<^sup>* executor_init s \<and> other_moves s s' \<and> l_owner s' = Started \<and> l_thread s' = In_wait"
proof -
  obtain s where s: "life_step\<^sup>*\<^sup>* executor_init s" "l_owner s = Spinning" "l_thread s = In_wait" "l_running s"
    using waiting_example by auto
  have m: "other_moves s (s\<lparr>l_owner := Started\<rparr>)" using o_check [OF s(2)] s(3,4) by (simp add: mutex_free_def)
  from start_returns_waiting [OF s(1) m s(2)] s(1) m show ?thesis by fastforce
qed

theorem destructor_joins_witness:
  "\<exists>s s1 s2. life_step\<^sup>*\<^sup>* executor_init s \<and> l_owner s = Joining \<and> l_thread s = In_wait \<and>
    thread_moves\<^sup>*\<^sup>* s s1 \<and> other_moves s1 s2 \<and> l_owner s2 = Joined"
proof -
  obtain s where s: "life_step\<^sup>*\<^sup>* executor_init s" "l_owner s = Spinning" "l_thread s = In_wait" "l_running s" "l_waitOnSignal s"
    using waiting_example by auto
  have 1: "life_step s (s\<lparr>l_owner := Started\<rparr>)" using o_check [OF s(2)] s(3,4) by (simp add: mutex_free_def life_step_def)
  let ?s2 = "stop_thread (s\<lparr>l_owner := Started\<rparr>)\<lparr>l_owner := Joining\<rparr>"
  have 2: "life_step (s\<lparr>l_owner := Started\<rparr>) ?s2"
    using o_stop [of "s\<lparr>l_owner := Started\<rparr>"] s(3) by (simp add: mutex_free_def life_step_def)
  have r: "life_step\<^sup>*\<^sup>* executor_init ?s2" using s(1) 1 2 by (meson rtranclp.rtrancl_into_rtrancl)
  have "l_owner ?s2 = Joining" "l_thread ?s2 = In_wait" using s(3,5) by (simp_all add: stop_thread_def life_signal_def)
  with destructor_joins [OF r] r show ?thesis by blast
qed

end
