(* ===== verification/ClockThread.thy ===== *)
theory ClockThread
  imports ClockQueue ClockLinux
begin

text \<open>
  The clock thread of the Linux execution model among the threads that start and stop events: a
  step is one critical section of the thread or of another one. The thread holds its mutex except
  from the start of a wait until it has returned from it, so that \<^verbatim>\<open>startTimer\<close> runs only while the thread waits. The time may pass between
  any two steps, and a wait may end without a signal.
\<close>

section \<open>State\<close>

text \<open>
  Where the thread stands in the loop of \<^verbatim>\<open>clockThread\<close>: before it searches the queue; with the
  \<^verbatim>\<open>nextStartTime\<close> it found; with that and the \<^verbatim>\<open>currentTime\<close> it read before it decided to sleep; in the
  wait, with the time at which the wait ends by itself; woken and before it has its mutex again; after the wait.
\<close>

datatype clock_pc = Scan | Planned time | Measured time time | Asleep "time option" | Signalled | Check

text \<open>
  \<open>k_timers\<close> counts the calls of \<^verbatim>\<open>startTimer\<close> that are due, \<open>k_signals\<close> the signals to the scheduler.
  \<open>k_lag\<close> is not in the code: it is the time that passed between the last two reads of the clock, the one in
  \<^verbatim>\<open>getTime\<close> and the one in \<^verbatim>\<open>computeAbsoluteWakeUpTime\<close>.
\<close>

record clock_sys =
  k_clock :: clock
  k_now :: time
  k_pc :: clock_pc
  k_timers :: nat
  k_signals :: nat
  k_lag :: nat

definition in_queue :: "clock \<Rightarrow> event_id \<Rightarrow> bool" where
  "in_queue c e \<longleftrightarrow> (\<exists>xs. chain (nxt c) (queueHead c) xs \<and> e \<in> set xs)"

text \<open>The hint \<^verbatim>\<open>nonePendingHead\<close> is true: no event in the future stands before it.\<close>

definition hint_ok :: "time \<Rightarrow> clock \<Rightarrow> bool" where
  "hint_ok now c \<longleftrightarrow> (\<exists>xs. chain (nxt c) (queueHead c) xs \<and> nph_ok now c xs)"

definition timer_calls :: "clock_call list \<Rightarrow> nat" where
  "timer_calls calls = length (filter (\<lambda>k. k \<noteq> SignalScheduler) calls)"

text \<open>The decision after the search: whether to wait, without an end or for a while.\<close>

definition plan :: "time \<Rightarrow> time \<Rightarrow> clock_pc" where
  "plan currentTime nextStartTime =
     (if nextStartTime = 0 then Asleep None
      else if nextStartTime > currentTime then Measured nextStartTime currentTime else Check)"

text \<open>\<^verbatim>\<open>computeAbsoluteWakeUpTime(nextStartTime - currentTime)\<close> reads the clock again; then the wait begins.\<close>

definition begin_wait :: "time \<Rightarrow> time \<Rightarrow> clock_sys \<Rightarrow> clock_sys" where
  "begin_wait nextStartTime currentTime s =
     s\<lparr>k_pc := Asleep (Some (k_now s + (nextStartTime - currentTime))), k_lag := unat (k_now s - currentTime)\<rparr>"

definition clock_check :: "clock_sys \<Rightarrow> clock_sys" where
  "clock_check s = s\<lparr>k_pc := Scan, k_signals := k_signals s + (if clock_thread_signals (k_now s) (k_clock s) then 1 else 0)\<rparr>"

inductive clock_step :: "clock_sys \<Rightarrow> clock_sys \<Rightarrow> bool" where
  k_tick: "k_now s \<le> t \<Longrightarrow> clock_step s (s\<lparr>k_now := t\<rparr>)"
| k_start: "\<not> in_queue (k_clock s) e \<Longrightarrow> k_now s < 2 ^ 63 \<Longrightarrow> t < 2 ^ 63 \<Longrightarrow>
    startAt (k_now s) e t (k_clock s) = Inr (c, calls) \<Longrightarrow>
    clock_step s (s\<lparr>k_clock := c, k_timers := k_timers s + timer_calls calls\<rparr>)"
| k_cancel: "in_queue (k_clock s) e \<Longrightarrow> dequeue e (k_clock s) = Inr c \<Longrightarrow> clock_step s (s\<lparr>k_clock := c\<rparr>)"
| k_clear: "dequeueAll (k_clock s) = Inr c \<Longrightarrow> clock_step s (s\<lparr>k_clock := c\<rparr>)"
| k_fetch: "readFirstPending (k_now s) (k_clock s) = Inr (c, r) \<Longrightarrow> clock_step s (s\<lparr>k_clock := c\<rparr>)"
| k_scan: "k_pc s = Scan \<Longrightarrow> getNextStartTime (k_now s) (k_clock s) = Inr (c, n) \<Longrightarrow>
    clock_step s (s\<lparr>k_clock := c, k_pc := Planned n\<rparr>)"
| k_plan: "k_pc s = Planned n \<Longrightarrow> clock_step s (s\<lparr>k_pc := plan (k_now s) n\<rparr>)"
| k_sleep: "k_pc s = Measured n t \<Longrightarrow> clock_step s (begin_wait n t s)"
| k_timer: "k_pc s = Asleep w \<or> k_pc s = Signalled \<Longrightarrow> 0 < k_timers s \<Longrightarrow>
    clock_step s (s\<lparr>k_pc := Signalled, k_timers := k_timers s - 1\<rparr>)"
| k_wake: "k_pc s = Asleep w \<Longrightarrow> clock_step s (s\<lparr>k_pc := Signalled\<rparr>)"
| k_return: "k_pc s = Signalled \<Longrightarrow> clock_step s (s\<lparr>k_pc := Check\<rparr>)"
| k_check: "k_pc s = Check \<Longrightarrow> clock_step s (clock_check s)"

definition clock_sys_init :: clock_sys where
  "clock_sys_init = \<lparr>k_clock = clock_init, k_now = 0, k_pc = Scan, k_timers = 0, k_signals = 0, k_lag = 0\<rparr>"

text \<open>A step after which the hint is true.\<close>

definition hinted_step :: "clock_sys \<Rightarrow> clock_sys \<Rightarrow> bool" where
  "hinted_step s s' \<longleftrightarrow> clock_step s s' \<and> hint_ok (k_now s') (k_clock s')"

section \<open>Sleeping until the next event\<close>

text \<open>A wait until \<open>w\<close> ends at most \<open>d\<close> after the start time of every event in the future.\<close>

definition covered :: "time \<Rightarrow> clock \<Rightarrow> event_id list \<Rightarrow> time option \<times> nat \<Rightarrow> bool" where
  "covered now c xs wd \<longleftrightarrow> (\<forall>x\<in>set xs. now < tm c x \<longrightarrow> (\<exists>u. fst wd = Some u \<and> unat u \<le> unat (tm c x) + snd wd))"

text \<open>What a thread in this state has promised to be awake for.\<close>

definition promise :: "clock_pc \<Rightarrow> nat \<Rightarrow> (time option \<times> nat) option" where
  "promise p d = (case p of Planned n \<Rightarrow> Some (if n = 0 then None else Some n, 0) | Measured n t \<Rightarrow> Some (Some n, 0)
     | Asleep w \<Rightarrow> Some (w, d) | _ \<Rightarrow> None)"

definition clock_inv :: "clock_sys \<Rightarrow> event_id list \<Rightarrow> bool" where
  "clock_inv s xs \<longleftrightarrow>
     clock_rep (k_now s) (k_clock s) xs \<and> nph_ok (k_now s) (k_clock s) xs \<and>
     (\<forall>n t. k_pc s = Measured n t \<longrightarrow> t < n \<and> t \<le> k_now s) \<and>
     (case promise (k_pc s) (k_lag s) of None \<Rightarrow> True | Some w \<Rightarrow> 0 < k_timers s \<or> covered (k_now s) (k_clock s) xs w)"

lemma covered_later: "covered now c xs w \<Longrightarrow> now \<le> now' \<Longrightarrow> covered now' c xs w"
  by (auto simp: covered_def)

lemma covered_subset: "covered now c xs w \<Longrightarrow> set ys \<subseteq> set xs \<Longrightarrow> (\<And>x. tm c' x = tm c x) \<Longrightarrow> covered now c' ys w"
  by (auto simp: covered_def)

lemma covered_lag: "covered now c xs (w, 0) \<Longrightarrow> covered now c xs (w, d)"
  by (fastforce simp: covered_def)

lemma rep_chain: "clock_rep now c xs \<Longrightarrow> chain (nxt c) (queueHead c) xs"
  by (simp add: clock_rep_def clock_shape_def)

lemma in_queue_iff: "clock_rep now c xs \<Longrightarrow> in_queue c e \<longleftrightarrow> e \<in> set xs"
  unfolding in_queue_def using rep_chain chain_unique by metis

lemma hint_ok_iff: "clock_rep now c xs \<Longrightarrow> hint_ok now c \<longleftrightarrow> nph_ok now c xs"
  unfolding hint_ok_def using rep_chain chain_unique by metis

lemma nph_ok_remove:
  assumes n: "nph_ok now c xs" and r: "chain (nxt c) (queueHead c) xs" and t: "\<And>x. tm c' x = tm c x"
    and h: "nonePendingHead c' = nph_remove c e"
  shows "nph_ok now c' (remove1 e xs)"
  unfolding nph_ok_def
proof (intro allI impI)
  fix p assume p: "nonePendingHead c' = Some p"
  have d: "distinct xs" using r by (rule chain_distinct)
  show "\<exists>A B. remove1 e xs = A @ p # B \<and> (\<forall>x\<in>set A. tm c' x \<le> now)"
  proof (cases "nonePendingHead c = Some e")
    case True
    then obtain A B where xs: "xs = A @ e # B" "\<forall>x\<in>set A. tm c x \<le> now" using n by (auto simp: nph_ok_def)
    have "nxt c e = Some p" using p h True by (simp add: nph_remove_def)
    moreover have "chain (nxt c) (nxt c e) B" using r by (simp add: xs chain_append_iff)
    ultimately obtain B' where "B = p # B'" by (cases B) auto
    then show ?thesis using xs d t by (intro exI [of _ A] exI [of _ B']) (simp add: remove1_append)
  next
    case False
    then have "nonePendingHead c = Some p" "p \<noteq> e" using p h by (auto simp: nph_remove_def)
    then obtain A B where xs: "xs = A @ p # B" "\<forall>x\<in>set A. tm c x \<le> now" using n by (auto simp: nph_ok_def)
    show ?thesis
    proof (cases "e \<in> set A")
      case True
      then show ?thesis using xs t by (intro exI [of _ "remove1 e A"] exI [of _ B]) (auto simp: remove1_append dest: notin_set_remove1)
    next
      case False
      then show ?thesis using xs t \<open>p \<noteq> e\<close>
        by (intro exI [of _ A] exI [of _ "remove1 e B"]) (simp add: remove1_append_notin)
    qed
  qed
qed

lemma start_covered:
  assumes c: "covered now c xs w" and f: "now < tm c' e \<Longrightarrow> \<not> first_start now (tm c') e xs" and t: "tm c' = (tm c)(e := t)" and e: "e \<notin> set xs"
  shows "covered now c' (place_event now (tm c') e xs) w"
proof -
  have old: "tm c' x = tm c x" if "x \<in> set xs" for x using fun_cong [OF t, of x] e that by auto
  have "\<exists>u. fst w = Some u \<and> unat u \<le> unat (tm c' e) + snd w" if n: "now < tm c' e"
  proof -
    obtain x where x: "x \<in> set xs" "now < tm c' x" "tm c' x \<le> tm c' e"
      using f [OF n] by (auto simp: first_start_def dest: set_takeWhileD)
    then obtain u where "fst w = Some u" "unat u \<le> unat (tm c' x) + snd w" using c old by (fastforce simp: covered_def)
    then show ?thesis using x(3) by (auto simp: word_le_nat_alt)
  qed
  then show ?thesis using c old by (auto simp: covered_def)
qed

lemma clock_start_inv:
  assumes i: "clock_inv s xs" and e: "\<not> in_queue (k_clock s) e" and n: "k_now s < 2 ^ 63" "t < 2 ^ 63"
    and run: "startAt (k_now s) e t (k_clock s) = Inr (c, calls)" and h: "hint_ok (k_now s) c"
  shows "clock_inv (s\<lparr>k_clock := c, k_timers := k_timers s + timer_calls calls\<rparr>) (place_event (k_now s) (tm c) e xs)"
proof -
  have r: "clock_rep (k_now s) (k_clock s) xs" using i by (simp add: clock_inv_def)
  have e': "e \<notin> set xs" using e in_queue_iff [OF r] by simp
  obtain c' where "startAt (k_now s) e t (k_clock s) = Inr (c', start_calls (k_now s) (tm c') e xs)"
    "clock_rep (k_now s) c' (place_event (k_now s) (tm c') e xs)" "tm c' = (tm (k_clock s))(e := t)"
    using start_rep [OF r e' n] by blast
  then have c: "calls = start_calls (k_now s) (tm c) e xs" "clock_rep (k_now s) c (place_event (k_now s) (tm c) e xs)"
    "tm c = (tm (k_clock s))(e := t)" using run by auto
  have "0 < k_timers s + timer_calls calls \<or> covered (k_now s) c (place_event (k_now s) (tm c) e xs) w"
    if "0 < k_timers s \<or> covered (k_now s) (k_clock s) xs w" for w
  proof (cases "k_now s < tm c e \<and> first_start (k_now s) (tm c) e xs")
    case True
    then show ?thesis by (simp add: c(1) start_calls_def timer_calls_def)
  next
    case False
    then show ?thesis using that start_covered [OF _ _ c(3) e', of "k_now s" w] by auto
  qed
  then show ?thesis using i c(2) h hint_ok_iff [OF c(2)]
    by (cases "promise (k_pc s) (k_lag s)") (simp_all add: clock_inv_def)
qed

lemma clock_scan_inv:
  assumes i: "clock_inv s xs" and run: "getNextStartTime (k_now s) (k_clock s) = Inr (c, n)"
  shows "clock_inv (s\<lparr>k_clock := c, k_pc := Planned n\<rparr>) xs"
proof -
  have r: "clock_rep (k_now s) (k_clock s) xs" "nph_ok (k_now s) (k_clock s) xs" using i by (simp_all add: clock_inv_def)
  then have srt: "future_sorted (k_now s) (tm (k_clock s)) xs" by (simp add: clock_rep_def clock_shape_def)
  have c: "n = (case first_future (k_now s) (tm (k_clock s)) xs of None \<Rightarrow> 0 | Some x \<Rightarrow> tm (k_clock s) x)"
    "clock_rep (k_now s) c xs" "nph_ok (k_now s) c xs" using getNextStartTime_spec [OF r] run by auto
  obtain p where "c = (k_clock s)\<lparr>nonePendingHead := p\<rparr>"
    using run by (auto simp: getNextStartTime_def bindR_eq_Inr)
  then have t: "tm c x = tm (k_clock s) x" for x by simp
  have "covered (k_now s) c xs (if n = 0 then None else Some n, 0)"
    unfolding covered_def
  proof (intro ballI impI)
    fix x assume x: "x \<in> set xs" "k_now s < tm c x"
    then obtain y where y: "first_future (k_now s) (tm (k_clock s)) xs = Some y"
      by (cases "first_future (k_now s) (tm (k_clock s)) xs") (auto simp: first_future_None t leD)
    then have "n \<noteq> 0 \<and> n \<le> tm c x" using first_future_min [OF srt y x(1)] x(2) c(1) by (auto simp: t)
    then show "\<exists>u. fst (if n = 0 then None else Some n, 0::nat) = Some u \<and> unat u \<le> unat (tm c x) + snd (if n = 0 then None else Some n, 0::nat)"
      by (simp add: word_le_nat_alt)
  qed
  then show ?thesis using c(2,3) by (simp add: clock_inv_def promise_def)
qed

lemma clock_plan_inv:
  assumes i: "clock_inv s xs" and p: "k_pc s = Planned n"
  shows "clock_inv (s\<lparr>k_pc := plan (k_now s) n\<rparr>) xs"
  using i p covered_lag [of "k_now s" "k_clock s" xs None] by (auto simp: clock_inv_def plan_def promise_def)

lemma wake_up_bound:
  fixes n t now :: time
  assumes "t < n" and "t \<le> now"
  shows "unat (now + (n - t)) \<le> unat n + unat (now - t)"
proof -
  have "unat (now + (n - t)) \<le> unat now + unat (n - t)" by (simp add: unat_word_ariths(1))
  moreover have "unat (n - t) = unat n - unat t" "unat (now - t) = unat now - unat t"
    using assms by (simp_all add: unat_sub)
  ultimately show ?thesis using assms by (simp add: word_less_nat_alt word_le_nat_alt)
qed

lemma clock_sleep_inv:
  assumes i: "clock_inv s xs" and p: "k_pc s = Measured n t"
  shows "clock_inv (begin_wait n t s) xs"
proof -
  have t: "t < n" "t \<le> k_now s" using i p by (auto simp: clock_inv_def)
  have "covered (k_now s) (k_clock s) xs (Some (k_now s + (n - t)), unat (k_now s - t))"
    if "covered (k_now s) (k_clock s) xs (Some n, 0)"
    using that wake_up_bound [OF t] by (fastforce simp: covered_def)
  then show ?thesis using i p by (auto simp: clock_inv_def promise_def begin_wait_def)
qed

lemma clock_step_inv:
  "clock_step s s' \<Longrightarrow> hint_ok (k_now s') (k_clock s') \<Longrightarrow> clock_inv s xs \<Longrightarrow> \<exists>xs'. clock_inv s' xs'"
proof (induction rule: clock_step.induct)
  case (k_tick s t)
  then have "clock_inv (s\<lparr>k_now := t\<rparr>) xs"
    by (auto simp: clock_inv_def clock_rep_later nph_ok_later dest: covered_later split: option.splits)
  then show ?case ..
next
  case (k_start s e t c calls)
  then show ?case using clock_start_inv [of s xs e t c calls] by auto
next
  case (k_cancel s e c)
  have r: "clock_rep (k_now s) (k_clock s) xs" using k_cancel.prems by (simp add: clock_inv_def)
  then have e: "e \<in> set xs" using k_cancel.hyps(1) in_queue_iff by blast
  have c: "clock_rep (k_now s) c (remove1 e xs)" "tm c x = tm (k_clock s) x" "nonePendingHead c = nph_remove (k_clock s) e" for x
    using dequeue_spec [OF r, of e] k_cancel.hyps(2) e by auto
  have "nph_ok (k_now s) c (remove1 e xs)"
    using nph_ok_remove [OF _ rep_chain [OF r] c(2,3)] k_cancel.prems by (simp add: clock_inv_def)
  then have "clock_inv (s\<lparr>k_clock := c\<rparr>) (remove1 e xs)"
    using k_cancel.prems c covered_subset [OF _ set_remove1_subset c(2)] by (auto simp: clock_inv_def split: option.splits)
  then show ?case ..
next
  case (k_clear s c)
  then have "clock_inv (s\<lparr>k_clock := c\<rparr>) []" using dequeueAll_spec [of "k_now s" "k_clock s" xs]
    by (auto simp: clock_inv_def nph_ok_def covered_def split: option.splits)
  then show ?case ..
next
  case (k_fetch s c q)
  have r: "clock_rep (k_now s) (k_clock s) xs" using k_fetch.prems by (simp add: clock_inv_def)
  show ?case
  proof (cases "\<exists>h B. xs = h # B \<and> tm (k_clock s) h \<le> k_now s")
    case False
    then have "c = k_clock s" using readFirstPending_none [OF r] k_fetch.hyps by auto
    then show ?thesis using k_fetch.prems by auto
  next
    case True
    then obtain h B where xs: "xs = h # B" "tm (k_clock s) h \<le> k_now s" by blast
    have c: "clock_rep (k_now s) c B" "tm c x = tm (k_clock s) x" "nonePendingHead c = nph_remove (k_clock s) h" for x
      using readFirstPending_spec [of "k_now s" "k_clock s" h B] r xs k_fetch.hyps by auto
    have "nph_ok (k_now s) c B"
      using nph_ok_remove [OF _ rep_chain [OF r] c(2,3)] k_fetch.prems by (simp add: clock_inv_def xs)
    then have "clock_inv (s\<lparr>k_clock := c\<rparr>) B"
      using k_fetch.prems c covered_subset [OF _ _ c(2), of "k_now s" xs _ B] xs by (auto simp: clock_inv_def split: option.splits)
    then show ?thesis ..
  qed
next
  case (k_scan s c n)
  then show ?case using clock_scan_inv by blast
next
  case (k_plan s n)
  then show ?case using clock_plan_inv by blast
next
  case (k_sleep s n t)
  then show ?case using clock_sleep_inv by blast
next
  case (k_timer s w)
  then have "clock_inv (s\<lparr>k_pc := Signalled, k_timers := k_timers s - 1\<rparr>) xs" by (simp add: clock_inv_def promise_def)
  then show ?case ..
next
  case (k_wake s w)
  then have "clock_inv (s\<lparr>k_pc := Signalled\<rparr>) xs" by (simp add: clock_inv_def promise_def)
  then show ?case ..
next
  case (k_return s)
  then have "clock_inv (s\<lparr>k_pc := Check\<rparr>) xs" by (simp add: clock_inv_def promise_def)
  then show ?case ..
next
  case (k_check s)
  then have "clock_inv (clock_check s) xs" by (simp add: clock_inv_def promise_def clock_check_def)
  then show ?case ..
qed

lemma clock_steps_inv: "hinted_step\<^sup>*\<^sup>* s s' \<Longrightarrow> clock_inv s xs \<Longrightarrow> \<exists>xs'. clock_inv s' xs'"
proof (induction arbitrary: rule: rtranclp_induct)
  case (step s1 s2)
  then show ?case using clock_step_inv unfolding hinted_step_def by blast
qed blast

lemma clock_sys_init_inv: "clock_inv clock_sys_init []"
  by (simp add: clock_inv_def clock_sys_init_def clock_rep_init nph_ok_init promise_def)

lemma clock_thread_promise:
  assumes "hinted_step\<^sup>*\<^sup>* clock_sys_init s" and "k_pc s = Asleep w" and "k_timers s = 0" and "in_queue (k_clock s) x"
  shows "k_now s < tm (k_clock s) x \<Longrightarrow> \<exists>u. w = Some u \<and> unat u \<le> unat (tm (k_clock s) x) + k_lag s"
proof -
  obtain xs where i: "clock_inv s xs" using clock_steps_inv [OF assms(1) clock_sys_init_inv] by blast
  then have "x \<in> set xs" using in_queue_iff assms(4) by (auto simp: clock_inv_def)
  then show "k_now s < tm (k_clock s) x \<Longrightarrow> \<exists>u. w = Some u \<and> unat u \<le> unat (tm (k_clock s) x) + k_lag s"
    using i assms(2,3) by (simp add: clock_inv_def promise_def covered_def)
qed

section \<open>Runs of the thread\<close>

lemma scan_plan:
  assumes "k_pc s = Scan" and "getNextStartTime (k_now s) (k_clock s) = Inr (c, n)"
  shows "clock_step\<^sup>*\<^sup>* s (s\<lparr>k_clock := c, k_pc := plan (k_now s) n\<rparr>)"
proof -
  have "clock_step (s\<lparr>k_clock := c, k_pc := Planned n\<rparr>) (s\<lparr>k_clock := c, k_pc := plan (k_now s) n\<rparr>)"
    using k_plan [of "s\<lparr>k_clock := c, k_pc := Planned n\<rparr>" n] by simp
  with k_scan [OF assms] show ?thesis by (meson converse_rtranclp_into_rtranclp r_into_rtranclp)
qed

text \<open>A thread that is not delayed between the reads of the clock sleeps until the next start time.\<close>

lemma scan_sleep:
  assumes "k_pc s = Scan" and "getNextStartTime (k_now s) (k_clock s) = Inr (c, n)" and "k_now s < n"
  shows "clock_step\<^sup>*\<^sup>* s (s\<lparr>k_clock := c, k_pc := Asleep (Some n), k_lag := 0\<rparr>)"
proof -
  let ?s = "s\<lparr>k_clock := c, k_pc := Measured n (k_now s)\<rparr>"
  have "n \<noteq> 0" using assms(3) by auto
  then have p: "plan (k_now s) n = Measured n (k_now s)" using assms(3) by (simp add: plan_def)
  have "clock_step ?s (begin_wait n (k_now s) ?s)" by (rule k_sleep) simp
  then show ?thesis using scan_plan [OF assms(1,2)] unfolding p by (simp add: begin_wait_def)
qed

text \<open>C6: However the clock thread, the threads that start, stop and handle events and the passing of time
  interleave: while the clock thread waits and no call of \<^verbatim>\<open>startTimer\<close> is to come, its wait ends no later
  than the start time of every event in the queue that lies in the future, plus the time that passed between the two
  reads of the clock with which it computed the wait. This is as long as the hint
  \<^verbatim>\<open>nonePendingHead\<close> is true after every step, events are started only when they are not in the
  queue, and times are below 2 to the 63.\<close>
theorem clock_thread_wakes_in_time:
  assumes "hinted_step\<^sup>*\<^sup>* clock_sys_init s" and "k_pc s = Asleep w" and "k_timers s = 0"
    and "in_queue (k_clock s) x" and "k_now s < tm (k_clock s) x"
  shows "\<exists>u. w = Some u \<and> unat u \<le> unat (tm (k_clock s) x) + k_lag s"
  using clock_thread_promise [OF assms] .

text \<open>An event for the time 10; the thread reads the clock at 0 and, three milliseconds later, once more.\<close>

theorem clock_thread_wakes_in_time_witness:
  "\<exists>s u. hinted_step\<^sup>*\<^sup>* clock_sys_init s \<and> k_pc s = Asleep (Some u) \<and> tm (k_clock s) 7 = 10 \<and> k_lag s = 3 \<and> unat u \<le> 13"
proof -
  obtain c where c: "startAt 0 7 10 clock_init = Inr (c, [StartTimer 10])" "tm c 7 = 10" "queueHead c = Some 7"
    "nonePendingHead c = None" "nxt c 7 = None" by (auto simp: clock_eval)
  define c2 where "c2 = c\<lparr>nonePendingHead := Some 7\<rparr>"
  define st where "st = (\<lambda>c p n t d. \<lparr>k_clock = c, k_now = t, k_pc = p, k_timers = n, k_signals = 0, k_lag = d\<rparr>)"
  have "nph_ok t c [7]" "nph_ok t c2 [7]" for t using c by (auto simp: nph_ok_def c2_def intro: exI [of _ "[]"])
  then have h: "hint_ok t c" "hint_ok t c2" for t unfolding hint_ok_def using c
    by (intro exI [of _ "[7]"], simp add: c2_def)+
  have 1: "hinted_step clock_sys_init (st c Scan 1 0 0)"
    using k_start [of clock_sys_init 7 10 c "[StartTimer 10]"] c(1) h
    by (simp add: clock_sys_init_def in_queue_def clock_init_def st_def timer_calls_def hinted_step_def)
  have g: "getNextStartTime 0 c = Inr (c2, 10)" "getNextStartTime 0 c2 = Inr (c2, 10)"
    using c by (simp_all add: getNextStartTime_def for_ptr_Some c2_def)
  have 2: "hinted_step (st c Scan 1 0 0) (st c2 (Planned 10) 1 0 0)" "hinted_step (st c2 Scan 0 0 0) (st c2 (Planned 10) 0 0 0)"
    using k_scan [of "st c Scan 1 0 0" c2 10] k_scan [of "st c2 Scan 0 0 0" c2 10] g h by (simp_all add: st_def hinted_step_def)
  have 3: "hinted_step (st c2 (Planned 10) n 0 0) (st c2 (Measured 10 0) n 0 0)" for n
    using k_plan [of "st c2 (Planned 10) n 0 0" 10] h by (simp add: st_def plan_def hinted_step_def)
  have 4: "hinted_step (st c2 (Measured 10 0) n t 0) (st c2 (Asleep (Some (t + 10))) n t (unat t))" for n t
    using k_sleep [of "st c2 (Measured 10 0) n t 0" 10 0] h by (simp add: st_def begin_wait_def hinted_step_def)
  have 5: "hinted_step (st c2 (Asleep (Some 10)) 1 0 0) (st c2 Signalled 0 0 0)"
    using k_timer [of "st c2 (Asleep (Some 10)) 1 0 0" "Some 10"] h by (simp add: st_def hinted_step_def)
  have 6: "hinted_step (st c2 Signalled 0 0 0) (st c2 Check 0 0 0)"
    using k_return [of "st c2 Signalled 0 0 0"] h by (simp add: st_def hinted_step_def)
  have 7: "hinted_step (st c2 Check 0 0 0) (st c2 Scan 0 0 0)" using k_check [of "st c2 Check 0 0 0"] c h
    by (simp add: st_def clock_check_def clock_thread_signals_def isPending_def c2_def hinted_step_def)
  have 8: "hinted_step (st c2 (Measured 10 0) 0 0 0) (st c2 (Measured 10 0) 0 3 0)"
    using k_tick [of "st c2 (Measured 10 0) 0 0 0" 3] h by (simp add: st_def hinted_step_def)
  let ?s = "st c2 (Asleep (Some 13)) 0 3 3"
  have r: "hinted_step\<^sup>*\<^sup>* clock_sys_init ?s"
    using 1 2 3 4 [of 1 0] 5 6 7 8 4 [of 0 3] by (simp, meson converse_rtranclp_into_rtranclp rtranclp.rtrancl_refl)
  have q: "in_queue (k_clock ?s) 7" "tm (k_clock ?s) 7 = 10"
    unfolding in_queue_def using c by (auto simp: st_def c2_def intro!: exI [of _ "[7]"])
  from clock_thread_wakes_in_time [OF r, of "Some 13" 7] q r show ?thesis by (auto simp: st_def)
qed

section \<open>Oversleeping\<close>

text \<open>C38: A wrong hint makes the thread oversleep: in every state in which the thread is about to search the queue, the
  hint is null, which it is from the last search of an empty queue on, and only events in the future wait, one further event
  is started for a time \<open>t\<close> after all of them. Then a run leads into the wait until \<open>t\<close>, while all the
  other events, which are due before \<open>t\<close>, wait in the queue; no further call of \<^verbatim>\<open>startTimer\<close> is to come.\<close>
theorem clock_thread_oversleeps:
  assumes "clock_run (k_now s) (k_clock s) xs" and "k_pc s = Scan" and "nonePendingHead (k_clock s) = None"
    and "xs \<noteq> []" and "e \<notin> set xs" and "\<forall>x\<in>set xs. k_now s < tm (k_clock s) x \<and> tm (k_clock s) x < t" and "t < 2 ^ 63"
  shows "\<exists>s'. clock_step\<^sup>*\<^sup>* s s' \<and> k_pc s' = Asleep (Some t) \<and> k_now s' = k_now s \<and> k_timers s' = k_timers s \<and>
    (\<forall>x\<in>set xs. in_queue (k_clock s') x \<and> tm (k_clock s') x = tm (k_clock s) x) \<and> tm (k_clock s') e = t"
proof -
  let ?c = "k_clock s" and ?now = "k_now s"
  define d where "d = upd_ev e (\<lambda>ev. ev\<lparr>nextActivation_ms := t\<rparr>) ?c"
  have d: "tm d e = t" "nonePendingHead d = None" using assms(3) by (simp_all add: d_def upd_ev_def)
  have r: "clock_rep ?now ?c xs" by (rule clock_run_rep [OF assms(1)])
  have t: "?now < t" "?now < 2 ^ 63" using assms(4,6,7) by (auto simp: neq_Nil_conv intro: less_trans)
  have old: "tm d x = tm ?c x" if "x \<in> set xs" for x using that assms(5) by (auto simp: d_def upd_ev_def)
  have all: "takeWhile (\<lambda>x. tm d x \<le> tm d e) xs = xs" "dropWhile (\<lambda>x. tm d x \<le> tm d e) xs = []"
    using assms(6) old by (auto simp: takeWhile_eq_all_conv dropWhile_eq_Nil_conv d less_imp_le)
  have calls: "start_calls ?now (tm d) e xs = []"
    using all(1) assms(4,6) old t(1) by (auto simp: start_calls_def first_start_def d neq_Nil_conv)
  have nph: "nph_insert d e xs = Some e" unfolding nph_insert_def Let_def all using assms(4) d(2) by simp
  obtain c' where c': "startAt ?now e t ?c = Inr (c', [])" "clock_rep ?now c' (place_event ?now (tm d) e xs)"
    "\<forall>x. tm c' x = tm d x" "nonePendingHead c' = Some e"
    using place_spec [OF r assms(5) t(2) assms(7), folded d_def] t(1) calls nph by auto
  have te: "tm c' e = t" using c'(3) d(1) by simp
  then have "t \<noteq> 0" "getNextStartTime ?now c' = Inr (c', t)"
    using c'(4) t(1) by (auto simp: getNextStartTime_def for_ptr_Some not_le)
  define s1 where "s1 = s\<lparr>k_clock := c'\<rparr>"
  have "clock_step s s1"
    using k_start [of s e t c' "[]"] assms(5,7) c'(1) t(2) in_queue_iff [OF r] by (simp add: s1_def timer_calls_def)
  moreover have "clock_step\<^sup>*\<^sup>* s1 (s1\<lparr>k_clock := c', k_pc := Asleep (Some t), k_lag := 0\<rparr>)"
    by (rule scan_sleep) (use assms(2) \<open>getNextStartTime ?now c' = Inr (c', t)\<close> t(1) in \<open>simp_all add: s1_def\<close>)
  moreover have "in_queue c' x \<and> tm c' x = tm ?c x" if "x \<in> set xs" for x
    using in_queue_iff [OF c'(2)] c'(3) old that by (auto simp: place_event_def)
  ultimately show ?thesis using te
    by (intro exI [of _ "s1\<lparr>k_clock := c', k_pc := Asleep (Some t), k_lag := 0\<rparr>"]) (auto simp: s1_def)
qed

text \<open>The thread has waited for the first event, is woken, and searches the queue after the second one was started.\<close>

theorem clock_thread_oversleeps_witness:
  "\<exists>s s'. clock_step\<^sup>*\<^sup>* clock_sys_init s \<and> clock_step\<^sup>*\<^sup>* s s' \<and> k_pc s' = Asleep (Some 20) \<and> k_timers s' = 0 \<and>
    in_queue (k_clock s') 1 \<and> tm (k_clock s') 1 = 10"
proof -
  obtain c where c: "startAt 0 1 10 clock_init = Inr (c, [StartTimer 10])" "tm c 1 = 10" "queueHead c = Some 1"
    "nonePendingHead c = None" by (auto simp: clock_eval)
  define st where "st = (\<lambda>c p n. \<lparr>k_clock = c, k_now = 0, k_pc = p, k_timers = n, k_signals = 0, k_lag = 0\<rparr>)"
  have i: "clock_sys_init = st clock_init Scan 0" by (simp add: clock_sys_init_def st_def)
  have 1: "clock_step (st clock_init Scan 0) (st clock_init (Planned 0) 0)"
    using k_scan [of "st clock_init Scan 0" clock_init 0] by (simp add: st_def getNextStartTime_def clock_init_def)
  have 2: "clock_step (st clock_init (Planned 0) 0) (st clock_init (Asleep None) 0)"
    using k_plan [of "st clock_init (Planned 0) 0" 0] by (simp add: st_def plan_def)
  have 3: "clock_step (st clock_init (Asleep None) 0) (st c (Asleep None) 1)"
    using k_start [of "st clock_init (Asleep None) 0" 1 10 c "[StartTimer 10]"] c(1)
    by (simp add: in_queue_def clock_init_def st_def timer_calls_def)
  have 4: "clock_step (st c (Asleep None) 1) (st c Signalled 0)"
    using k_timer [of "st c (Asleep None) 1" None] by (simp add: st_def)
  have 5: "clock_step (st c Signalled 0) (st c Check 0)" using k_return [of "st c Signalled 0"] by (simp add: st_def)
  have 6: "clock_step (st c Check 0) (st c Scan 0)" using k_check [of "st c Check 0"] c
    by (simp add: st_def clock_check_def clock_thread_signals_def isPending_def)
  have r: "clock_step\<^sup>*\<^sup>* clock_sys_init (st c Scan 0)"
    unfolding i using 1 2 3 4 5 6 by (meson converse_rtranclp_into_rtranclp rtranclp.rtrancl_refl)
  have "clock_run 0 c [1]" using run_start [OF run_init _ _ _ c(1)] c(2) by (simp add: place_event_def insert_event_def)
  then have "\<exists>s'. clock_step\<^sup>*\<^sup>* (st c Scan 0) s' \<and> k_pc s' = Asleep (Some 20) \<and> k_timers s' = 0 \<and>
      in_queue (k_clock s') 1 \<and> tm (k_clock s') 1 = 10"
    using clock_thread_oversleeps [of "st c Scan 0" "[1]" 2 20] c by (auto simp: st_def)
  then show ?thesis using r by blast
qed

text \<open>C37: The thread can overlook events: in every state in which it is about to check for pending events, none is
  pending, the queue is not empty and the hint is true, a run leads into the wait without an end while every event of the
  queue is pending, and without a signal to the scheduler or a call of \<^verbatim>\<open>startTimer\<close>: the start times are
  reached between the check and the next search of the queue.\<close>
theorem clock_thread_overlooks:
  assumes "clock_run (k_now s) (k_clock s) xs" and "nph_ok (k_now s) (k_clock s) xs" and "k_pc s = Check"
    and "\<not> isPending (k_now s) (k_clock s)" and "xs \<noteq> []"
  shows "\<exists>s'. clock_step\<^sup>*\<^sup>* s s' \<and> k_pc s' = Asleep None \<and> k_signals s' = k_signals s \<and> k_timers s' = k_timers s \<and>
    isPending (k_now s') (k_clock s') \<and> (\<forall>x\<in>set xs. in_queue (k_clock s') x \<and> tm (k_clock s') x \<le> k_now s')"
proof -
  define T where "T = Max (insert (k_now s) (tm (k_clock s) ` set xs))"
  have T: "k_now s \<le> T" "\<forall>x\<in>set xs. tm (k_clock s) x \<le> T" by (simp_all add: T_def)
  define s1 where "s1 = s\<lparr>k_pc := Scan\<rparr>"
  define s2 where "s2 = s1\<lparr>k_now := T\<rparr>"
  have "clock_check s = s1" using assms(4) by (simp add: clock_check_def clock_thread_signals_def s1_def)
  then have 1: "clock_step s s1" using k_check [OF assms(3)] by simp
  have 2: "clock_step s1 s2" using k_tick [of s1 T] T(1) by (simp add: s1_def s2_def)
  have r: "clock_rep T (k_clock s) xs" by (rule clock_rep_later [OF clock_run_rep [OF assms(1)] T(1)])
  moreover have "nph_ok T (k_clock s) xs" by (rule nph_ok_later [OF assms(2) T(1)])
  moreover have "first_future T (tm (k_clock s)) xs = None" using T(2) by (simp add: first_future_None)
  ultimately obtain c where c: "getNextStartTime T (k_clock s) = Inr (c, 0)" "clock_rep T c xs"
    using getNextStartTime_spec [of T "k_clock s" xs] by auto
  obtain p where p: "c = (k_clock s)\<lparr>nonePendingHead := p\<rparr>" using c(1) by (auto simp: getNextStartTime_def bindR_eq_Inr)
  have "clock_step\<^sup>*\<^sup>* s2 (s2\<lparr>k_clock := c, k_pc := plan T 0\<rparr>)"
    using scan_plan [of s2 c 0] c(1) by (simp add: s2_def s1_def)
  then have "clock_step\<^sup>*\<^sup>* s (s2\<lparr>k_clock := c, k_pc := Asleep None\<rparr>)"
    using 1 2 by (simp add: plan_def converse_rtranclp_into_rtranclp)
  moreover have "isPending T c" using rep_chain [OF c(2)] assms(5) T(2) by (cases xs) (auto simp: isPending_def p)
  ultimately show ?thesis using in_queue_iff [OF c(2)] T(2)
    by (intro exI [of _ "s2\<lparr>k_clock := c, k_pc := Asleep None\<rparr>"]) (auto simp: s2_def s1_def p)
qed

theorem clock_thread_overlooks_witness:
  "\<exists>s s'. clock_step\<^sup>*\<^sup>* clock_sys_init s \<and> clock_step\<^sup>*\<^sup>* s s' \<and> k_pc s' = Asleep None \<and> k_timers s' = 0 \<and>
    k_signals s' = 0 \<and> isPending (k_now s') (k_clock s') \<and> in_queue (k_clock s') 1"
proof -
  obtain c where c: "startAt 0 1 10 clock_init = Inr (c, [StartTimer 10])" "tm c 1 = 10" "queueHead c = Some 1"
    "nonePendingHead c = None" by (auto simp: clock_eval)
  define st where "st = (\<lambda>c p n. \<lparr>k_clock = c, k_now = 0, k_pc = p, k_timers = n, k_signals = 0, k_lag = 0\<rparr>)"
  have 1: "clock_step clock_sys_init (st clock_init (Planned 0) 0)"
    using k_scan [of clock_sys_init clock_init 0] by (simp add: st_def clock_sys_init_def getNextStartTime_def clock_init_def)
  have 2: "clock_step (st clock_init (Planned 0) 0) (st clock_init (Asleep None) 0)"
    using k_plan [of "st clock_init (Planned 0) 0" 0] by (simp add: st_def plan_def)
  have 3: "clock_step (st clock_init (Asleep None) 0) (st c (Asleep None) 1)"
    using k_start [of "st clock_init (Asleep None) 0" 1 10 c "[StartTimer 10]"] c(1)
    by (simp add: in_queue_def clock_init_def st_def timer_calls_def)
  have 4: "clock_step (st c (Asleep None) 1) (st c Signalled 0)"
    using k_timer [of "st c (Asleep None) 1" None] by (simp add: st_def)
  have 5: "clock_step (st c Signalled 0) (st c Check 0)" using k_return [of "st c Signalled 0"] by (simp add: st_def)
  have r: "clock_step\<^sup>*\<^sup>* clock_sys_init (st c Check 0)"
    using 1 2 3 4 5 by (meson converse_rtranclp_into_rtranclp rtranclp.rtrancl_refl)
  have "clock_run 0 c [1]" using run_start [OF run_init _ _ _ c(1)] c(2) by (simp add: place_event_def insert_event_def)
  then have "\<exists>s'. clock_step\<^sup>*\<^sup>* (st c Check 0) s' \<and> k_pc s' = Asleep None \<and> k_timers s' = 0 \<and> k_signals s' = 0 \<and>
      isPending (k_now s') (k_clock s') \<and> in_queue (k_clock s') 1"
    using clock_thread_overlooks [of "st c Check 0" "[1]"] c by (auto simp: st_def nph_ok_def isPending_def)
  then show ?thesis using r by blast
qed

end
