(* ===== verification/ClockLife.thy ===== *)
theory ClockLife
  imports Prelude
begin

text \<open>
  The life of the clock thread of the Linux execution model: the constructor of the clock creates it and
  waits until it runs, the destructor ends its loop and joins it. Other than the executors, the clock
  is signalled after its mutex is left. A step is one critical section of the mutex of the clock, or a
  part of a thread between two of them. What the thread does to the queue is in \<^verbatim>\<open>ClockThread\<close>.
\<close>

section \<open>State\<close>

text \<open>
  Where the thread stands in \<^verbatim>\<open>clockThread\<close>: not created; created, without the mutex; at the
  test of \<^verbatim>\<open>running\<close>, with it; in a wait; woken, before it has the mutex again; at its end.
\<close>

datatype clock_thread_pc = No_thread | New_thread | Loop_test | Clock_wait | Clock_woken | Clock_ended

text \<open>Where the owner stands: before the constructor's \<^verbatim>\<open>pthread_create\<close>, in the loop of the constructor, after it,
  in the destructor after it has left the mutex, in the join, after that.\<close>

datatype clock_owner = Before_create | Constructing | Constructed | Stopped | Joining_clock | Joined_clock

text \<open>\<open>cl_signal\<close> says that \<^verbatim>\<open>m_cond\<close> was signalled since the thread waits.\<close>

record clock_life =
  cl_thread :: clock_thread_pc
  cl_owner :: clock_owner
  cl_running :: bool
  cl_signal :: bool

definition clock_life_init :: clock_life where
  "clock_life_init = \<lparr>cl_thread = No_thread, cl_owner = Before_create, cl_running = False, cl_signal = False\<rparr>"

section \<open>Steps\<close>

definition cond_signal :: "clock_life \<Rightarrow> clock_life" where
  "cond_signal s = s\<lparr>cl_signal := cl_signal s \<or> cl_thread s = Clock_wait\<rparr>"

inductive clock_moves :: "clock_life \<Rightarrow> clock_life \<Rightarrow> bool" where
  c_lock: "cl_thread s = New_thread \<Longrightarrow> clock_moves s (s\<lparr>cl_thread := Loop_test, cl_running := True\<rparr>)"
| c_wait: "cl_thread s = Loop_test \<Longrightarrow> cl_running s \<Longrightarrow> clock_moves s (s\<lparr>cl_thread := Clock_wait, cl_signal := False\<rparr>)"
| c_past: "cl_thread s = Loop_test \<Longrightarrow> cl_running s \<Longrightarrow> clock_moves s s"
| c_signalled: "cl_thread s = Clock_wait \<Longrightarrow> cl_signal s \<Longrightarrow> clock_moves s (s\<lparr>cl_thread := Clock_woken, cl_signal := False\<rparr>)"
| c_timeout: "cl_thread s = Clock_wait \<Longrightarrow> clock_moves s (s\<lparr>cl_thread := Clock_woken, cl_signal := False\<rparr>)"
| c_return: "cl_thread s = Clock_woken \<Longrightarrow> clock_moves s (s\<lparr>cl_thread := Loop_test\<rparr>)"
| c_exit: "cl_thread s = Loop_test \<Longrightarrow> \<not> cl_running s \<Longrightarrow> clock_moves s (s\<lparr>cl_thread := Clock_ended\<rparr>)"

inductive clock_owner_moves :: "clock_life \<Rightarrow> clock_life \<Rightarrow> bool" where
  co_create: "cl_owner s = Before_create \<Longrightarrow> clock_owner_moves s (s\<lparr>cl_owner := Constructing, cl_thread := New_thread\<rparr>)"
| co_check: "cl_owner s = Constructing \<Longrightarrow> cl_thread s \<noteq> Loop_test \<Longrightarrow>
    clock_owner_moves s (s\<lparr>cl_owner := (if cl_running s then Constructed else Constructing)\<rparr>)"
| co_timer: "cl_owner s = Constructed \<Longrightarrow> cl_thread s \<noteq> Loop_test \<Longrightarrow> clock_owner_moves s (cond_signal s)"
| co_stop: "cl_owner s = Constructed \<Longrightarrow> cl_thread s \<noteq> Loop_test \<Longrightarrow>
    clock_owner_moves s (s\<lparr>cl_owner := Stopped, cl_running := False\<rparr>)"
| co_signal: "cl_owner s = Stopped \<Longrightarrow> clock_owner_moves s (cond_signal s\<lparr>cl_owner := Joining_clock\<rparr>)"
| co_join: "cl_owner s = Joining_clock \<Longrightarrow> cl_thread s = Clock_ended \<Longrightarrow> clock_owner_moves s (s\<lparr>cl_owner := Joined_clock\<rparr>)"

inductive_cases clock_movesE: "clock_moves s s'"
inductive_cases clock_owner_movesE: "clock_owner_moves s s'"

definition clock_life_step :: "clock_life \<Rightarrow> clock_life \<Rightarrow> bool" where
  "clock_life_step s s' \<longleftrightarrow> clock_moves s s' \<or> clock_owner_moves s s'"

section \<open>Invariant\<close>

definition clock_life_inv :: "clock_life \<Rightarrow> bool" where
  "clock_life_inv s \<longleftrightarrow>
     (cl_thread s = No_thread \<longleftrightarrow> cl_owner s = Before_create) \<and>
     (case cl_owner s of
        Before_create \<Rightarrow> \<not> cl_running s
      | Constructing \<Rightarrow> (cl_running s \<longleftrightarrow> cl_thread s \<noteq> New_thread) \<and> cl_thread s \<noteq> Clock_ended
      | Constructed \<Rightarrow> cl_running s \<and> cl_thread s \<notin> {New_thread, Clock_ended}
      | Stopped \<Rightarrow> \<not> cl_running s \<and> cl_thread s \<noteq> New_thread
      | Joining_clock \<Rightarrow> \<not> cl_running s \<and> cl_thread s \<noteq> New_thread \<and> (cl_thread s = Clock_wait \<longrightarrow> cl_signal s)
      | Joined_clock \<Rightarrow> cl_thread s = Clock_ended)"

lemma clock_life_init_inv: "clock_life_inv clock_life_init"
  by (simp add: clock_life_inv_def clock_life_init_def)

lemma clock_moves_inv: "clock_moves s s' \<Longrightarrow> clock_life_inv s \<Longrightarrow> clock_life_inv s'"
  by (erule clock_movesE) (auto simp: clock_life_inv_def split: clock_owner.splits)

lemma clock_owner_moves_inv: "clock_owner_moves s s' \<Longrightarrow> clock_life_inv s \<Longrightarrow> clock_life_inv s'"
  by (erule clock_owner_movesE) (auto simp: clock_life_inv_def cond_signal_def split: clock_owner.splits)

lemma clock_life_steps_inv: "clock_life_step\<^sup>*\<^sup>* clock_life_init s \<Longrightarrow> clock_life_inv s"
  by (induction rule: rtranclp_induct)
     (auto simp: clock_life_init_inv clock_life_step_def intro: clock_moves_inv clock_owner_moves_inv)

fun clock_distance :: "clock_thread_pc \<Rightarrow> nat" where
  "clock_distance Clock_wait = 3" | "clock_distance Clock_woken = 2" | "clock_distance Loop_test = 1" | "clock_distance p = 0"

section \<open>Properties\<close>

text \<open>When the constructor of the clock returns, its thread waits or has been woken: it is in its loop, and
  has searched the queue at least once.\<close>
theorem clock_constructed_waits:
  assumes "clock_life_step\<^sup>*\<^sup>* clock_life_init s" and "clock_owner_moves s s'"
    and "cl_owner s = Constructing" and "cl_owner s' = Constructed"
  shows "cl_thread s' = Clock_wait \<or> cl_thread s' = Clock_woken"
  using clock_life_steps_inv [OF assms(1)] assms(2-4)
  by (cases "cl_thread s") (auto simp: clock_life_inv_def elim!: clock_owner_movesE split: if_splits)

text \<open>The join in the destructor of the clock returns, although the thread is signalled after the mutex is
  left: once the destructor is in the join, a thread that waits has been signalled, the thread can
  move until it has ended, and every move brings it nearer to its end.\<close>
theorem clock_destructor_joins:
  assumes "clock_life_step\<^sup>*\<^sup>* clock_life_init s" and "cl_owner s = Joining_clock"
  shows "(cl_thread s = Clock_wait \<longrightarrow> cl_signal s) \<and> (cl_thread s \<noteq> Clock_ended \<longrightarrow> (\<exists>s'. clock_moves s s')) \<and>
    (\<forall>s'. clock_moves s s' \<longrightarrow> clock_distance (cl_thread s') < clock_distance (cl_thread s))"
proof -
  have i: "clock_life_inv s" by (rule clock_life_steps_inv [OF assms(1)])
  have "cl_thread s \<noteq> Clock_ended \<Longrightarrow> \<exists>s'. clock_moves s s'"
    using i assms(2) clock_moves.intros by (cases "cl_thread s") (auto simp: clock_life_inv_def, blast+)
  moreover have "clock_distance (cl_thread s') < clock_distance (cl_thread s)" if "clock_moves s s'" for s'
    using that i assms(2) by cases (auto simp: clock_life_inv_def)
  ultimately show ?thesis using i assms(2) by (simp add: clock_life_inv_def)
qed

lemma clock_waiting_example:
  "clock_life_step\<^sup>*\<^sup>* clock_life_init \<lparr>cl_thread = Clock_wait, cl_owner = Constructing, cl_running = True, cl_signal = False\<rparr>"
proof -
  let ?s1 = "clock_life_init\<lparr>cl_owner := Constructing, cl_thread := New_thread\<rparr>"
  let ?s2 = "?s1\<lparr>cl_thread := Loop_test, cl_running := True\<rparr>"
  have 1: "clock_life_step clock_life_init ?s1"
    using co_create [of clock_life_init] by (simp add: clock_life_init_def clock_life_step_def)
  have 2: "clock_life_step ?s1 ?s2" using c_lock [of ?s1] by (simp add: clock_life_step_def)
  have 3: "clock_life_step ?s2 (?s2\<lparr>cl_thread := Clock_wait, cl_signal := False\<rparr>)"
    using c_wait [of ?s2] by (simp add: clock_life_step_def)
  have "clock_life_step\<^sup>*\<^sup>* clock_life_init (?s2\<lparr>cl_thread := Clock_wait, cl_signal := False\<rparr>)"
    using 1 2 3 by (meson converse_rtranclp_into_rtranclp r_into_rtranclp)
  then show ?thesis by (simp add: clock_life_init_def)
qed

theorem clock_constructed_waits_witness:
  "\<exists>s s'. clock_life_step\<^sup>*\<^sup>* clock_life_init s \<and> clock_owner_moves s s' \<and> cl_owner s' = Constructed \<and>
    (cl_thread s' = Clock_wait \<or> cl_thread s' = Clock_woken)"
proof -
  let ?s = "\<lparr>cl_thread = Clock_wait, cl_owner = Constructing, cl_running = True, cl_signal = False\<rparr>"
  have "clock_owner_moves ?s (?s\<lparr>cl_owner := Constructed\<rparr>)" using co_check [of ?s] by simp
  with clock_constructed_waits [OF clock_waiting_example this] clock_waiting_example show ?thesis
    by (intro exI [of _ ?s] exI [of _ "?s\<lparr>cl_owner := Constructed\<rparr>"]) simp
qed

theorem clock_destructor_joins_witness:
  "\<exists>s s'. clock_life_step\<^sup>*\<^sup>* clock_life_init s \<and> cl_owner s = Joining_clock \<and> cl_thread s = Clock_wait \<and> clock_moves s s'"
proof -
  let ?s0 = "\<lparr>cl_thread = Clock_wait, cl_owner = Constructing, cl_running = True, cl_signal = False\<rparr>"
  let ?s1 = "?s0\<lparr>cl_owner := Constructed\<rparr>"
  let ?s2 = "?s1\<lparr>cl_owner := Stopped, cl_running := False\<rparr>"
  let ?s3 = "cond_signal ?s2\<lparr>cl_owner := Joining_clock\<rparr>"
  have 1: "clock_life_step ?s0 ?s1" using co_check [of ?s0] by (simp add: clock_life_step_def)
  have 2: "clock_life_step ?s1 ?s2" using co_stop [of ?s1] by (simp add: clock_life_step_def)
  have 3: "clock_life_step ?s2 ?s3" using co_signal [of ?s2] by (simp add: clock_life_step_def)
  have r: "clock_life_step\<^sup>*\<^sup>* clock_life_init ?s3"
    using clock_waiting_example 1 2 3 by (meson rtranclp.rtrancl_into_rtrancl)
  have "cl_owner ?s3 = Joining_clock" "cl_thread ?s3 = Clock_wait" by (simp_all add: cond_signal_def)
  with clock_destructor_joins [OF r] r show ?thesis by (metis clock_thread_pc.simps)
qed

end
