(* ===== verification/Wiring.thy ===== *)
theory Wiring
  imports Activation
begin

text \<open>
  The set-up of an application: the construction of tasks, channels, barriers, events and groups
  and the connection of inputs to channels. In every state that the set-up can reach, the pointers
  between the objects are those of a typed object graph.
\<close>

section \<open>The type of the object graph\<close>

text \<open>The slots of a group are used from the front.\<close>

definition compact :: "group \<Rightarrow> bool" where
  "compact g \<longleftrightarrow> (\<exists>n. g = map Some (members g) @ replicate n None)"

lemma members_map: "members (map Some ts @ replicate n None) = ts"
  by (induction ts) (auto, cases n, auto)

lemma compact_join:
  assumes "compact g" and "fill_slot t g = Some g'"
  shows "compact g' \<and> members g' = members g @ [t]"
proof -
  obtain n where n: "g = map Some (members g) @ replicate n None" using assms(1) by (auto simp: compact_def)
  have fill: "fill_slot t (map Some ts @ replicate n None) =
      (if n = 0 then None else Some (map Some (ts @ [t]) @ replicate (n - 1) None))" for ts
    by (induction ts) (auto, cases n, auto)
  have "g' = map Some (members g @ [t]) @ replicate (n - 1) None"
    using fill [of "members g"] assms(2) n by (auto split: if_splits)
  then show ?thesis using members_map unfolding compact_def by metis
qed

text \<open>
  \<open>ins c\<close> are the inputs that the list of channel \<open>c\<close> leads to: exactly those whose
  \<^verbatim>\<open>channel\<close> is \<open>c\<close>. An input with a channel belongs to a task, the inputs of a task belong to it,
  the list of the scheduler leads to the tasks \<open>ks\<close>, and a group contains a task once.
\<close>

definition typed :: "'p world \<Rightarrow> (channel_id \<Rightarrow> input_id list) \<Rightarrow> task_id list \<Rightarrow> bool" where
  "typed w ins ks \<longleftrightarrow>
     (\<forall>c. wired w c (ins c)) \<and>
     (\<forall>c i. i \<in> set (ins c) \<longleftrightarrow> in_channel (w_inputs w i) = Some c) \<and>
     (\<forall>i. in_channel (w_inputs w i) \<noteq> None \<longrightarrow> in_task (w_inputs w i) \<noteq> None) \<and>
     (\<forall>t. \<forall>i\<in>set (task_inputs (w_tasks w t)). in_task (w_inputs w i) = Some t) \<and>
     chain (\<lambda>t. nextTaskAtScheduler (w_tasks w t)) (associatedTasks w) ks \<and>
     (\<forall>g. compact (w_groups w g) \<and> distinct (members (w_groups w g)) \<and>
       (\<forall>t\<in>set (members (w_groups w g)). task_group (w_tasks w t) = Some g)) \<and>
     (\<forall>t. t \<notin> set ks \<longrightarrow> task_inputs (w_tasks w t) = [] \<and> task_group (w_tasks w t) = None)"

lemma typedD:
  assumes "typed w ins ks"
  shows "wired w c (ins c)" "i \<in> set (ins c) \<longleftrightarrow> in_channel (w_inputs w i) = Some c"
    "in_channel (w_inputs w i) \<noteq> None \<Longrightarrow> in_task (w_inputs w i) \<noteq> None"
    "i \<in> set (task_inputs (w_tasks w t)) \<Longrightarrow> in_task (w_inputs w i) = Some t"
    "chain (\<lambda>t. nextTaskAtScheduler (w_tasks w t)) (associatedTasks w) ks"
    "compact (w_groups w g)" "distinct (members (w_groups w g))" "t \<in> set (members (w_groups w g)) \<Longrightarrow> task_group (w_tasks w t) = Some g"
    "t \<notin> set ks \<Longrightarrow> task_inputs (w_tasks w t) = [] \<and> task_group (w_tasks w t) = None"
  using assms unfolding typed_def by blast+

lemma typed_init: "typed (world_init ops p) (\<lambda>_. []) []"
  by (simp add: typed_def wired_def world_init_def input_init_def compact_def)

text \<open>The graph depends on the links alone.\<close>

definition links where
  "links w = (\<lambda>c. m_inputs (w_channels w c), \<lambda>i. (in_next (w_inputs w i), in_channel (w_inputs w i), in_task (w_inputs w i)),
     \<lambda>t. (task_inputs (w_tasks w t), nextTaskAtScheduler (w_tasks w t), task_group (w_tasks w t)),
     associatedTasks w, w_groups w)"

lemma links_fields:
  assumes "links w' = links w"
  shows "m_inputs (w_channels w' c) = m_inputs (w_channels w c)" "in_next (w_inputs w' i) = in_next (w_inputs w i)"
    "in_channel (w_inputs w' i) = in_channel (w_inputs w i)" "in_task (w_inputs w' i) = in_task (w_inputs w i)"
    "task_inputs (w_tasks w' t) = task_inputs (w_tasks w t)"
    "nextTaskAtScheduler (w_tasks w' t) = nextTaskAtScheduler (w_tasks w t)"
    "task_group (w_tasks w' t) = task_group (w_tasks w t)" "associatedTasks w' = associatedTasks w" "w_groups w' = w_groups w"
  using assms by (simp_all add: links_def fun_eq_iff)

lemma typed_links: "links w' = links w \<Longrightarrow> typed w' ins ks = typed w ins ks"
  by (simp add: typed_def wired_def links_fields [of w' w])

section \<open>Connecting inputs\<close>

lemma search_unique:
  "chain h p is \<Longrightarrow> i \<notin> set is \<Longrightarrow>
    for_ptr (\<lambda>unique x. unique) (\<lambda>unique. h) (\<lambda>x unique. Inr (if i = x then False else unique)) p True = Inr (None, True)"
  by (induction "is" arbitrary: p) (auto simp: for_ptr_Some)

lemma associate_typed:
  assumes ty: "typed w ins ks" and c: "in_channel (w_inputs w i) = None" and t: "in_task (w_inputs w i) \<noteq> None"
  shows "\<exists>w'. input_associate c i w = Inr (w', True) \<and> typed w' (ins(c := i # ins c)) ks"
proof -
  let ?w0 = "upd_input i (\<lambda>x. x\<lparr>in_channel := Some c\<rparr>) w"
  let ?w' = "upd_channel c (\<lambda>ch. ch\<lparr>m_inputs := Some i\<rparr>) (upd_input i (\<lambda>x. x\<lparr>in_next := m_inputs (w_channels w c)\<rparr>) ?w0)"
  have n: "i \<notin> set (ins c')" for c' using typedD(2) [OF ty, of i c'] c by simp
  have nx: "(\<lambda>x. in_next (w_inputs ?w0 x)) = (\<lambda>x. in_next (w_inputs w x))" by (auto simp: upd_input_def)
  have "chain (\<lambda>x. in_next (w_inputs ?w0 x)) (m_inputs (w_channels w c)) (ins c)"
    unfolding nx using typedD(1) [OF ty, of c] by (simp add: wired_def)
  from search_unique [OF this n] have run: "input_associate c i w = Inr (?w', True)"
    by (simp add: input_associate_def associateTo_def upd_input_def)
  have nx': "(\<lambda>x. in_next (w_inputs ?w' x)) = (\<lambda>x. in_next (w_inputs w x))(i := m_inputs (w_channels w c))"
    by (auto simp: upd_input_def upd_channel_def)
  have w': "w_tasks ?w' = w_tasks w" "w_groups ?w' = w_groups w" "associatedTasks ?w' = associatedTasks w"
    "in_task (w_inputs ?w' j) = in_task (w_inputs w j)" "in_channel (w_inputs ?w' j) = (if j = i then Some c else in_channel (w_inputs w j))"
    "m_inputs (w_channels ?w' d) = (if d = c then Some i else m_inputs (w_channels w d))" for j d
    by (simp_all add: upd_input_def upd_channel_def)
  have wires: "wired ?w' d ((ins(c := i # ins c)) d)" for d
    using typedD(1) [OF ty, of d] typedD(1) [OF ty, of c] n unfolding wired_def nx' w'(6) by simp
  have chans: "j \<in> set ((ins(c := i # ins c)) d) \<longleftrightarrow> in_channel (w_inputs ?w' j) = Some d" for j d
    using typedD(2) [OF ty, of j d] c unfolding w'(5) by auto
  have "typed ?w' (ins(c := i # ins c)) ks"
    using ty t unfolding typed_def by (simp only: wires chans w' simp_thms) simp
  then show ?thesis using run by blast
qed

lemma deassociate_list:
  assumes ty: "wired w c is" and i: "i \<in> set is"
  shows "\<exists>w'. channel_deassociate i c w = Inr w' \<and> wired w' c (remove1 i is) \<and>
    (\<forall>d js. wired w d js \<and> set js \<inter> set is = {} \<longrightarrow> wired w' d js) \<and>
    (\<forall>j. in_channel (w_inputs w' j) = in_channel (w_inputs w j) \<and> in_task (w_inputs w' j) = in_task (w_inputs w j)) \<and>
    w_tasks w' = w_tasks w \<and> w_groups w' = w_groups w \<and> associatedTasks w' = associatedTasks w"
proof -
  obtain A B where AB: "is = A @ i # B" "i \<notin> set A" using i by (metis split_list_first)
  have ch: "seg (\<lambda>x. in_next (w_inputs w x)) (m_inputs (w_channels w c)) A (Some i)"
    "chain (\<lambda>x. in_next (w_inputs w x)) (in_next (w_inputs w i)) B"
    using ty unfolding wired_def AB chain_append_iff by auto
  have dist: "distinct is" using ty chain_distinct unfolding wired_def by blast
  have rm: "remove1 i is = A @ B" using AB by (simp add: remove1_append_notin)
  show ?thesis
  proof (cases A)
    case Nil
    let ?w' = "upd_channel c (\<lambda>ch. ch\<lparr>m_inputs := in_next (w_inputs w i)\<rparr>) w"
    have "wired ?w' d js" if "wired w d js" "set js \<inter> set is = {}" for d js
    proof -
      have "d \<noteq> c \<or> js = []" using that ch Nil AB by (cases js) (auto simp: wired_def)
      then show ?thesis using that ch Nil AB by (auto simp: wired_def upd_channel_def)
    qed
    moreover have "channel_deassociate i c w = Inr ?w'" using ch(1) Nil by (simp add: channel_deassociate_def)
    moreover have "wired ?w' c (A @ B)" using ch(2) Nil by (simp add: wired_def upd_channel_def)
    ultimately show ?thesis unfolding rm by (intro exI [of _ ?w']) (simp add: upd_channel_def)
  next
    case (Cons h A')
    then have h: "m_inputs (w_channels w c) = Some h" "h \<noteq> i" using ch(1) AB by auto
    have rest: "chain (\<lambda>x. in_next (w_inputs w x)) (in_next (w_inputs w h)) (A' @ i # B)"
      using ch Cons by (auto simp: seg_append)
    have tw: "takeWhile (\<lambda>x. i \<noteq> x) (A' @ i # B) = A'" "find (\<lambda>x. \<not> i \<noteq> x) (A' @ i # B) = Some i"
      using AB Cons by (auto simp: takeWhile_tail intro!: find_first)
    have last: "fold (\<lambda>x previous. x) A' h = last A" using Cons by (induction A' rule: rev_induct) auto
    have loop: "for_ptr (\<lambda>previous x. i \<noteq> x) (\<lambda>previous x. in_next (w_inputs w x)) (\<lambda>x previous. Inr x)
        (in_next (w_inputs w h)) h = Inr (Some i, last A)"
      using for_ptr_fold [where f = "\<lambda>x previous. x" and g = "\<lambda>previous x. i \<noteq> x" and s = h
          and n = "\<lambda>previous x. in_next (w_inputs w x)", OF rest] tw last by simp
    obtain A0 where A0: "A = A0 @ [last A]" using Cons by (metis append_butlast_last_id list.distinct(1))
    then have prev: "in_next (w_inputs w (last A)) = Some i"
      and seg0: "seg (\<lambda>x. in_next (w_inputs w x)) (m_inputs (w_channels w c)) A0 (Some (last A))"
      using ch(1) by (metis seg.simps seg_append)+
    let ?w' = "upd_input (last A) (\<lambda>x. x\<lparr>in_next := in_next (w_inputs w i)\<rparr>) w"
    have nx: "(\<lambda>x. in_next (w_inputs ?w' x)) = (\<lambda>x. in_next (w_inputs w x))(last A := in_next (w_inputs w i))"
      by (auto simp: upd_input_def)
    have la: "last A \<in> set is" "last A \<notin> set A0" "last A \<notin> set B"
      using dist AB(1) A0 Cons by (metis UnCI last_in_set list.distinct(1) set_append,
        metis distinct_append distinct_append disjoint_iff list.set_intros(1), metis (no_types) distinct_append disjoint_iff in_set_conv_decomp list.set_intros(2))
    have run: "channel_deassociate i c w = Inr ?w'" using h loop prev by (simp add: channel_deassociate_def)
    have c: "wired ?w' c (A @ B)"
      unfolding wired_def nx by (subst A0) (use seg0 ch(2) la in \<open>simp add: seg_append upd_input_def\<close>)
    have "wired ?w' d js" if "wired w d js" "set js \<inter> set is = {}" for d js
    proof -
      have "last A \<notin> set js" using that(2) la(1) by auto
      then show ?thesis using that(1) unfolding wired_def nx by (simp add: upd_input_def)
    qed
    then show ?thesis using run c unfolding rm by (intro exI [of _ ?w']) (simp add: upd_input_def)
  qed
qed

lemma deassociate_typed:
  assumes ty: "typed w ins ks"
  shows "\<exists>w' ins'. input_deassociate i w = Inr w' \<and> typed w' ins' ks \<and> in_channel (w_inputs w' i) = None"
proof (cases "in_channel (w_inputs w i)")
  case None
  then show ?thesis using ty by (auto simp: input_deassociate_def)
next
  case (Some c)
  then have i: "i \<in> set (ins c)" using typedD(2) [OF ty] by blast
  obtain w1 where w1: "channel_deassociate i c w = Inr w1" "wired w1 c (remove1 i (ins c))"
    "\<And>d js. wired w d js \<Longrightarrow> set js \<inter> set (ins c) = {} \<Longrightarrow> wired w1 d js"
    "\<And>j. in_channel (w_inputs w1 j) = in_channel (w_inputs w j)" "\<And>j. in_task (w_inputs w1 j) = in_task (w_inputs w j)"
    "w_tasks w1 = w_tasks w" "w_groups w1 = w_groups w" "associatedTasks w1 = associatedTasks w"
    using deassociate_list [OF typedD(1) [OF ty] i] by blast
  let ?w' = "upd_input i (\<lambda>x. x\<lparr>in_channel := None\<rparr>) w1"
  have run: "input_deassociate i w = Inr ?w'" using Some w1(1) by (simp add: input_deassociate_def)
  have w': "w_tasks ?w' = w_tasks w" "w_groups ?w' = w_groups w" "associatedTasks ?w' = associatedTasks w"
    "in_task (w_inputs ?w' j) = in_task (w_inputs w j)" "in_channel (w_inputs ?w' j) = (if j = i then None else in_channel (w_inputs w j))"
    for j using w1 by (simp_all add: upd_input_def)
  have same: "wired ?w' d js = wired w1 d js" for d js
  proof -
    have "(\<lambda>j. in_next (w_inputs ?w' j)) = (\<lambda>j. in_next (w_inputs w1 j))" by (auto simp: upd_input_def)
    then show ?thesis by (simp add: wired_def upd_input_def)
  qed
  have "set (ins d) \<inter> set (ins c) = {}" if "d \<noteq> c" for d using typedD(2) [OF ty] that by fastforce
  then have wires: "wired ?w' d ((ins(c := remove1 i (ins c))) d)" for d
    unfolding same using w1(2,3) typedD(1) [OF ty] by simp
  have "distinct (ins c)" using typedD(1) [OF ty] chain_distinct unfolding wired_def by blast
  then have chans: "j \<in> set ((ins(c := remove1 i (ins c))) d) \<longleftrightarrow> in_channel (w_inputs ?w' j) = Some d" for j d
    using typedD(2) [OF ty] Some unfolding w'(5) by auto
  have "typed ?w' (ins(c := remove1 i (ins c))) ks"
    using ty unfolding typed_def by (simp only: wires chans w' simp_thms) simp
  then show ?thesis using run w'(5) by fastforce
qed

section \<open>Constructing objects\<close>

lemma connect_all:
  "w_inputs (fold (\<lambda>i. upd_input i (input_connectTask t)) is w) j =
    (if j \<in> set is then input_connectTask t (w_inputs w j) else w_inputs w j) \<and>
   w_tasks (fold (\<lambda>i. upd_input i (input_connectTask t)) is w) = w_tasks w \<and>
   w_channels (fold (\<lambda>i. upd_input i (input_connectTask t)) is w) = w_channels w \<and>
   w_groups (fold (\<lambda>i. upd_input i (input_connectTask t)) is w) = w_groups w \<and>
   associatedTasks (fold (\<lambda>i. upd_input i (input_connectTask t)) is w) = associatedTasks w"
  by (induction "is" arbitrary: w) (auto simp: upd_input_def input_connectTask_def fun_eq_iff)

lemma task_typed:
  assumes ty: "typed w ins ks" and t: "t \<notin> set ks" and i: "\<forall>i\<in>set is. in_task (w_inputs w i) = None"
  shows "typed (task_construct t (task_create t taskId is w)) ins (t # ks)"
proof -
  let ?w1 = "task_create t taskId is w"
  let ?w' = "task_construct t ?w1"
  have w1: "task_inputs (w_tasks ?w1 t) = is" "w_inputs ?w1 = w_inputs w" "w_channels ?w1 = w_channels w"
    "w_groups ?w1 = w_groups w" "associatedTasks ?w1 = Some t" "nextTaskAtScheduler (w_tasks ?w1 t) = associatedTasks w"
    "task_group (w_tasks ?w1 t) = None" "u \<noteq> t \<Longrightarrow> w_tasks ?w1 u = w_tasks w u" for u
    by (simp_all add: task_create_def add_task_def upd_task_def Let_def)
  have w': "w_tasks ?w' = w_tasks ?w1" "w_channels ?w' = w_channels w" "w_groups ?w' = w_groups w" "associatedTasks ?w' = Some t"
    "w_inputs ?w' j = (if j \<in> set is then input_connectTask t (w_inputs w j) else w_inputs w j)" for j
    using connect_all [of t "is" ?w1 j] w1 by (simp_all add: task_construct_def)
  have inp: "in_next (w_inputs ?w' j) = in_next (w_inputs w j)" "in_channel (w_inputs ?w' j) = in_channel (w_inputs w j)"
    "in_task (w_inputs ?w' j) = (if j \<in> set is then Some t else in_task (w_inputs w j))" for j
    by (simp_all add: w'(5) input_connectTask_def)
  have wires: "wired ?w' c (ins c)" for c using typedD(1) [OF ty, of c] by (simp add: wired_def inp w'(2))
  have nx: "(\<lambda>u. nextTaskAtScheduler (w_tasks ?w1 u)) = (\<lambda>u. nextTaskAtScheduler (w_tasks w u))(t := associatedTasks w)"
    using w1(6,8) by (auto simp: fun_eq_iff)
  have ch: "chain (\<lambda>u. nextTaskAtScheduler (w_tasks ?w' u)) (associatedTasks ?w') (t # ks)"
    using typedD(5) [OF ty] t unfolding w' nx by simp
  have owner: "in_task (w_inputs ?w' j) = Some u" if "j \<in> set (task_inputs (w_tasks ?w' u))" for j u
  proof (cases "u = t")
    case True
    then show ?thesis using that by (simp add: inp w'(1) w1(1))
  next
    case False
    then have "in_task (w_inputs w j) = Some u" using that typedD(4) [OF ty, of j u] by (simp add: w'(1) w1(8))
    then show ?thesis using i by (auto simp: inp)
  qed
  have grp: "compact (w_groups ?w' g) \<and> distinct (members (w_groups ?w' g)) \<and>
      (\<forall>u\<in>set (members (w_groups ?w' g)). task_group (w_tasks ?w' u) = Some g)" for g
  proof -
    have "u \<noteq> t" if "u \<in> set (members (w_groups w g))" for u using typedD(8,9) [OF ty] that t by fastforce
    then show ?thesis using typedD(6-8) [OF ty] by (simp add: w' w1)
  qed
  have free: "u \<notin> set (t # ks) \<longrightarrow> task_inputs (w_tasks ?w' u) = [] \<and> task_group (w_tasks ?w' u) = None" for u
    using typedD(9) [OF ty, of u] by (simp add: w' w1)
  have "(\<forall>c j. (j \<in> set (ins c)) = (in_channel (w_inputs ?w' j) = Some c))" "\<forall>j. in_channel (w_inputs ?w' j) \<noteq> None \<longrightarrow> in_task (w_inputs ?w' j) \<noteq> None"
    using typedD(2,3) [OF ty] by (auto simp: inp)
  then show ?thesis using wires owner ch grp free unfolding typed_def by blast
qed

lemma channel_typed:
  assumes ty: "typed w ins ks" and c: "\<forall>i. in_channel (w_inputs w i) \<noteq> Some c"
  shows "typed (channel_create c k channelId w) ins ks"
proof -
  let ?w' = "channel_create c k channelId w"
  have n: "ins c = []" using typedD(2) [OF ty, of _ c] c by (cases "ins c") auto
  have w': "w_tasks ?w' = w_tasks w" "w_inputs ?w' = w_inputs w" "w_groups ?w' = w_groups w" "associatedTasks ?w' = associatedTasks w"
    "m_inputs (w_channels ?w' d) = (if d = c then None else m_inputs (w_channels w d))" for d
    by (simp_all add: channel_create_def upd_channel_def Let_def)
  have wires: "wired ?w' d (ins d)" for d using typedD(1) [OF ty, of d] n by (simp add: wired_def w')
  show ?thesis using ty unfolding typed_def by (simp only: wires w' simp_thms) simp
qed

lemma join_typed:
  assumes ty: "typed w ins ks" and t: "t \<in> set ks" "task_group (w_tasks w t) = None"
  shows "typed (group_join t g w) ins ks"
proof (cases "fill_slot t (w_groups w g)")
  case None
  then show ?thesis using ty by (simp add: group_join_def)
next
  case (Some ts)
  let ?w' = "group_join t g w"
  have w': "w_inputs ?w' = w_inputs w" "w_channels ?w' = w_channels w" "associatedTasks ?w' = associatedTasks w"
    "w_groups ?w' h = (if h = g then ts else w_groups w h)"
    "task_inputs (w_tasks ?w' u) = task_inputs (w_tasks w u)" "nextTaskAtScheduler (w_tasks ?w' u) = nextTaskAtScheduler (w_tasks w u)"
    "task_group (w_tasks ?w' u) = (if u = t then Some g else task_group (w_tasks w u))" for h u
    using Some by (simp_all add: group_join_def joinTo_def upd_task_def)
  have wires: "wired ?w' c (ins c)" for c using typedD(1) [OF ty, of c] by (simp add: wired_def w')
  have new: "t \<notin> set (members (w_groups w h))" for h using typedD(8) [OF ty, of t h] t by auto
  have j: "compact ts" "members ts = members (w_groups w g) @ [t]"
    using compact_join [OF typedD(6) [OF ty] Some] by simp_all
  have grp: "compact (w_groups ?w' h) \<and> distinct (members (w_groups ?w' h)) \<and>
      (\<forall>u\<in>set (members (w_groups ?w' h)). task_group (w_tasks ?w' u) = Some h)" for h
    using typedD(6-8) [OF ty] new [of h] new [of g] j by (auto simp: w')
  have free: "u \<notin> set ks \<longrightarrow> task_inputs (w_tasks ?w' u) = [] \<and> task_group (w_tasks ?w' u) = None" for u
    using typedD(9) [OF ty, of u] t(1) by (auto simp: w')
  show ?thesis using typedD(2-5) [OF ty] wires grp free unfolding typed_def by (simp only: w') blast
qed

section \<open>The set-up of an application\<close>

text \<open>
  The worlds and the tasks that calls of the set-up lead to. The conditions are those of C++ on
  the life of objects - a new object has an address of its own, an input is a part of one task -
  and that an input is associated to one channel and a task joins one group at a time.
\<close>

inductive set_up :: "'p policy_ops \<Rightarrow> 'p \<Rightarrow> 'p world \<Rightarrow> task_id list \<Rightarrow> bool" for ops p where
  su_init: "set_up ops p (world_init ops p) []"
| su_task: "set_up ops p w ks \<Longrightarrow> t \<notin> set ks \<Longrightarrow> \<forall>i\<in>set is. in_task (w_inputs w i) = None \<Longrightarrow>
    set_up ops p (task_construct t (task_create t taskId is w)) (t # ks)"
| su_channel: "set_up ops p w ks \<Longrightarrow> \<forall>i. in_channel (w_inputs w i) \<noteq> Some c \<Longrightarrow>
    set_up ops p (channel_create c PlainChannel channelId w) ks"
| su_barrier: "set_up ops p w ks \<Longrightarrow> \<forall>i. in_channel (w_inputs w i) \<noteq> Some c \<Longrightarrow>
    set_up ops p (barrier_create c n w) ks"
| su_event: "set_up ops p w ks \<Longrightarrow> \<forall>i. in_channel (w_inputs w i) \<noteq> Some e \<Longrightarrow>
    set_up ops p (event_create e eventId w) ks"
| su_group: "set_up ops p w ks \<Longrightarrow> set_up ops p (group_create g n w) ks"
| su_join: "set_up ops p w ks \<Longrightarrow> t \<in> set ks \<Longrightarrow> task_group (w_tasks w t) = None \<Longrightarrow>
    set_up ops p (group_join t g w) ks"
| su_configure: "set_up ops p w ks \<Longrightarrow> set_up ops p (upd_input i (input_configure n fin) w) ks"
| su_condition: "set_up ops p w ks \<Longrightarrow> set_up ops p (setCondition t f w) ks"
| su_associate: "set_up ops p w ks \<Longrightarrow> in_channel (w_inputs w i) = None \<Longrightarrow> in_task (w_inputs w i) \<noteq> None \<Longrightarrow>
    input_associate c i w = Inr (w', b) \<Longrightarrow> set_up ops p w' ks"
| su_deassociate: "set_up ops p w ks \<Longrightarrow> input_deassociate i w = Inr w' \<Longrightarrow> set_up ops p w' ks"

lemma set_up_type: "set_up ops p w ks \<Longrightarrow> \<exists>ins. typed w ins ks"
proof (induction rule: set_up.induct)
  case su_init
  show ?case by (rule exI, rule typed_init)
next
  case (su_task w ks t "is" taskId)
  then show ?case using task_typed by blast
next
  case (su_channel w ks c channelId)
  then show ?case using channel_typed by blast
next
  case (su_barrier w ks c n)
  then obtain ins where "typed (channel_create c BarrierChannel 0 w) ins ks" using channel_typed by blast
  then show ?case
    using typed_links [of "barrier_create c n w" "channel_create c BarrierChannel 0 w"]
    by (auto simp: links_def barrier_create_def upd_barrier_def)
next
  case (su_event w ks e eventId)
  then obtain ins where "typed (channel_create e EventChannel eventId w) ins ks" using channel_typed by blast
  then show ?case
    using typed_links [of "event_create e eventId w" "channel_create e EventChannel eventId w"]
    by (auto simp: links_def event_create_def upd_event_def)
next
  case (su_group w ks g n)
  then obtain ins where ty: "typed w ins ks" by blast
  have m: "members (replicate n None) = []" "compact (replicate n None)"
    using members_map [of "[]" n] by (auto simp: compact_def)
  have "wired (group_create g n w) = wired w" by (simp add: group_create_def wired_def fun_eq_iff)
  then have "typed (group_create g n w) ins ks" using ty m unfolding typed_def by (simp add: group_create_def)
  then show ?case by (rule exI [of _ ins])
next
  case (su_join w ks t g)
  then show ?case using join_typed by blast
next
  case (su_configure w ks i n fin)
  then show ?case using typed_links [of "upd_input i (input_configure n fin) w" w]
    by (auto simp: links_def upd_input_def input_configure_def fun_eq_iff)
next
  case (su_condition w ks t f)
  then show ?case using typed_links [of "setCondition t f w" w]
    by (auto simp: links_def setCondition_def upd_task_def fun_eq_iff)
next
  case (su_associate w ks i c w' b)
  then show ?case using associate_typed [of w _ ks i c] by fastforce
next
  case (su_deassociate w ks i w')
  then show ?case using deassociate_typed [of w _ ks i] by fastforce
qed

text \<open>The set-up neither runs tasks nor starts events.\<close>

definition at_rest :: "'p policy_ops \<Rightarrow> 'p \<Rightarrow> 'p world \<Rightarrow> bool" where
  "at_rest ops p w \<longleftrightarrow> fresh ops p w \<and> w_clock w = clock_init \<and> w_now w = 0 \<and> w_triggers w = (\<lambda>_. trigger_init 0)"

lemma associate_rest: "input_associate c i w = Inr (w', b) \<Longrightarrow> at_rest ops p w \<Longrightarrow> at_rest ops p w'"
  by (auto simp: input_associate_def associateTo_def bindR_eq_Inr at_rest_def fresh_def upd_input_def upd_channel_def)

lemma deassociate_rest: "input_deassociate i w = Inr w' \<Longrightarrow> at_rest ops p w \<Longrightarrow> at_rest ops p w'"
  by (auto simp: input_deassociate_def channel_deassociate_def bindR_eq_Inr at_rest_def fresh_def upd_input_def upd_channel_def
      deref_def split: option.splits if_splits)

lemma construct_rest: "at_rest ops p w \<Longrightarrow> at_rest ops p (task_construct t w)"
proof -
  have "at_rest ops p w \<Longrightarrow> at_rest ops p (fold (\<lambda>i. upd_input i (input_connectTask t)) is w)" for "is"
    by (induction "is" arbitrary: w) (auto simp: at_rest_def fresh_def upd_input_def)
  then show "at_rest ops p w \<Longrightarrow> at_rest ops p (task_construct t w)" by (simp add: task_construct_def)
qed

lemma set_up_rest: "set_up ops p w ks \<Longrightarrow> at_rest ops p w"
proof (induction rule: set_up.induct)
  case su_init
  then show ?case by (simp add: at_rest_def fresh_def world_init_def)
next
  case (su_task w ks t "is" taskId)
  then show ?case
    by (intro construct_rest) (simp add: at_rest_def fresh_def task_create_def add_task_def upd_task_def Let_def)
next
  case (su_event w ks e eventId)
  then have "at_rest ops p (channel_create e EventChannel eventId w)"
    by (simp add: at_rest_def fresh_def channel_create_def upd_channel_def Let_def)
  moreover have "upd_ev e (\<lambda>_. event_init) clock_init = clock_init" by (simp add: upd_ev_def clock_init_def fun_eq_iff)
  ultimately show ?case by (simp add: at_rest_def fresh_def event_create_def upd_event_def)
next
  case (su_join w ks t g)
  then show ?case by (auto simp: at_rest_def fresh_def group_join_def joinTo_def upd_task_def split: option.split)
qed (auto simp: at_rest_def fresh_def channel_create_def upd_channel_def barrier_create_def upd_barrier_def group_create_def
    upd_input_def setCondition_def upd_task_def Let_def dest: associate_rest deassociate_rest)

text \<open>C16: In every state that the set-up of an application reaches, the object graph is typed: the list of each
  channel consists of the inputs associated to it, these belong to tasks, the scheduler's list
  contains the tasks, and groups have no duplicates. From there, associating a free input and
  deassociating any input succeed, without a null pointer, and keep the graph typed.\<close>
theorem set_up_typed:
  assumes "set_up ops p w ks"
  shows "\<exists>ins. typed w ins ks \<and>
    (\<forall>c i. in_channel (w_inputs w i) = None \<and> in_task (w_inputs w i) \<noteq> None \<longrightarrow>
       (\<exists>w'. input_associate c i w = Inr (w', True) \<and> typed w' (ins(c := i # ins c)) ks)) \<and>
    (\<forall>i. \<exists>w' ins'. input_deassociate i w = Inr w' \<and> typed w' ins' ks \<and> in_channel (w_inputs w' i) = None)"
proof -
  obtain ins where ty: "typed w ins ks" using set_up_type [OF assms] by blast
  then show ?thesis using associate_typed [OF ty] deassociate_typed [OF ty] by blast
qed

theorem set_up_typed_witness:
  "\<exists>w ins. set_up fifo_ops fifo_init (task_construct 5 (task_create 5 9 [2] (world_init fifo_ops fifo_init))) [5] \<and>
    input_associate 1 2 (task_construct 5 (task_create 5 9 [2] (world_init fifo_ops fifo_init))) = Inr (w, True) \<and>
    typed w ins [5] \<and> ins 1 = [2]"
proof -
  let ?w = "task_construct 5 (task_create 5 9 [2] (world_init fifo_ops fifo_init))"
  have s: "set_up fifo_ops fifo_init ?w [5]"
    using su_task [OF su_init, of 5 "[2]" fifo_ops fifo_init 9] by (simp add: world_init_def input_init_def)
  have i: "in_channel (w_inputs ?w 2) = None" "in_task (w_inputs ?w 2) \<noteq> None" "in_channel (w_inputs ?w i) = None" for i
    by (simp_all add: demo_eval)
  obtain ins w' where r: "typed ?w ins [5]" "input_associate 1 2 ?w = Inr (w', True)" "typed w' (ins(1 := 2 # ins 1)) [5]"
    using set_up_typed [OF s] i by blast
  have "i \<notin> set (ins 1)" for i using typedD(2) [OF r(1), of i 1] i(3) [of i] by simp
  then have "ins 1 = []" by (cases "ins 1") fastforce+
  then show ?thesis using s r(2,3) by fastforce
qed

end
