(* ===== verification/EventLoop.thy ===== *)
theory EventLoop
  imports EventProofs Wiring
begin

text \<open>
  \<^verbatim>\<open>SchedulerImpl::handleEvents\<close>: the loop that fetches and handles the pending events until none is
  left. A periodic event is started again while it is handled, so that the loop comes back to it
  when its next point in time is over as well. The loop ends, and it pushes every event once for
  every of its points in time that is reached.
\<close>

section \<open>What the clock leaves alone\<close>

text \<open>
  An observation of the clock that does not look at the links of the queue is the same after
  every operation on the queue.
\<close>

locale link_blind =
  fixes obs :: "clock \<Rightarrow> 'o"
  assumes blind_next: "obs (upd_ev x (\<lambda>ev. ev\<lparr>ev_next := p\<rparr>) c) = obs c"
    and blind_previous: "obs (upd_ev x (\<lambda>ev. ev\<lparr>ev_previous := p\<rparr>) c) = obs c"
    and blind_both: "obs (upd_ev x (\<lambda>ev. ev\<lparr>ev_next := p, ev_previous := q\<rparr>) c) = obs c"
      "obs (upd_ev x (\<lambda>ev. ev\<lparr>ev_previous := q, ev_next := p\<rparr>) c) = obs c"
    and blind_queue: "obs (c\<lparr>queueHead := p\<rparr>) = obs c" "obs (c\<lparr>queueTail := p\<rparr>) = obs c"
      "obs (c\<lparr>nonePendingHead := p\<rparr>) = obs c"
begin

lemmas blind = blind_next blind_previous blind_both blind_queue

lemma set_previous_obs: "set_previous g p v c = Inr c' \<Longrightarrow> obs c' = obs c"
proof -
  assume "set_previous g p v c = Inr c'"
  then obtain q where "for_ptr g nxt (\<lambda>x c. Inr (upd_ev x (\<lambda>ev. ev\<lparr>ev_previous := v\<rparr>) c)) p c = Inr (q, c')"
    by (auto simp: set_previous_def bindR_eq_Inr)
  then show ?thesis by (rule for_ptr_keeps) (auto simp: blind)
qed

lemma search_keeps: "for_ptr g n (\<lambda>x s. Inr s) p s = Inr (q, s') \<Longrightarrow> s' = s"
  by (rule for_ptr_keeps [where P = "\<lambda>x. x = s"]) auto

lemma enqueue_obs:
  assumes "enqueue now e c = Inr (c', b)" and "obs (upd_ev e (\<lambda>ev. ev\<lparr>queued := True, ev_next := None\<rparr>) c) = obs c"
  shows "obs c' = obs c"
proof (cases "queueHead c = None")
  case True
  then show ?thesis using assms by (auto simp: enqueue_def Let_def blind)
next
  case False
  define c0 where "c0 = upd_ev e (\<lambda>ev. ev\<lparr>queued := True, ev_next := None\<rparr>) c"
  have c0: "obs c0 = obs c" "queueHead c0 \<noteq> None" using False assms(2) by (simp_all add: c0_def)
  note run = assms(1) [unfolded enqueue_def c0_def [symmetric] Let_def]
  obtain prev c1 where s: "for_ptr (\<lambda>c x. tm c x > tm c e) prv (\<lambda>x c. Inr c) (queueTail c0) c0 = Inr (prev, c1)"
    using run c0(2) by (auto simp: bindR_eq_Inr)
  have c1: "c1 = c0" using s by (rule search_keeps)
  show ?thesis
  proof (cases prev)
    case None
    then show ?thesis using run c0 unfolding s c1
      by (auto simp: bindR_eq_Inr blind dest!: set_previous_obs split: if_splits)
  next
    case (Some p)
    then show ?thesis using run c0 unfolding s c1
      by (auto simp: bindR_eq_Inr blind dest!: set_previous_obs split: if_splits option.splits)
  qed
qed

lemma enqueueHead_obs: "enqueueHead e c = Inr c' \<Longrightarrow> obs c' = obs c"
  unfolding enqueueHead_def
  by (auto simp: bindR_eq_Inr blind split: if_splits option.splits dest!: set_previous_obs)

lemma startAt_obs:
  assumes "startAt now e t c = Inr (c', calls)"
    and "\<And>c. obs (upd_ev e (\<lambda>ev. ev\<lparr>nextActivation_ms := t\<rparr>) c) = obs c"
    and "\<And>c. obs (upd_ev e (\<lambda>ev. ev\<lparr>queued := True, ev_next := None\<rparr>) c) = obs c"
  shows "obs c' = obs c"
  using assms(1) unfolding startAt_def Let_def
  by (auto simp: bindR_eq_Inr assms(2) split: if_splits dest!: enqueue_obs [OF _ assms(3)] enqueueHead_obs)

lemma readFirstPending_obs:
  assumes "readFirstPending now c = Inr (c', r)"
    and "\<And>h c. obs (upd_ev h (\<lambda>ev. ev\<lparr>queued := False, ev_next := None\<rparr>) c) = obs c"
  shows "obs c' = obs c"
  using assms(1) unfolding readFirstPending_def Let_def
  by (auto simp: bindR_eq_Inr blind assms(2) split: if_splits option.splits dest!: set_previous_obs)

lemma dequeue_obs:
  assumes "dequeue e c = Inr c'"
    and "\<And>c. obs (upd_ev e (\<lambda>ev. ev\<lparr>queued := False, ev_next := None, ev_previous := None\<rparr>) c) = obs c"
  shows "obs c' = obs c"
proof -
  define c0 where "c0 = (if nonePendingHead c = Some e then c\<lparr>nonePendingHead := nxt c e\<rparr> else c)"
  have c0: "obs c0 = obs c" by (simp add: c0_def blind)
  have rest: "obs c2 = obs c0"
    if d: "bindR (if queueHead c0 = Some x then Inr (c0\<lparr>queueHead := nxt c0 x\<rparr>)
              else deref pr (\<lambda>p. Inr (upd_ev p (\<lambda>ev. ev\<lparr>ev_next := nxt c0 x\<rparr>) c0)))
        (\<lambda>c1. deref (nxt c1 x) (\<lambda>n. if tm c1 x \<noteq> tm c1 n
              then set_previous (\<lambda>c x. tm c x = tm c1 n) (Some n) pr c1 else Inr c1)) = Inr c2" for x pr c2
  proof -
    obtain c1 where c1: "(if queueHead c0 = Some x then Inr (c0\<lparr>queueHead := nxt c0 x\<rparr>)
              else deref pr (\<lambda>p. Inr (upd_ev p (\<lambda>ev. ev\<lparr>ev_next := nxt c0 x\<rparr>) c0))) = Inr c1"
      using d unfolding bindR_eq_Inr by blast
    then have "obs c1 = obs c0" by (cases pr) (auto simp: blind split: if_splits)
    moreover have "obs c2 = obs c1" using d unfolding c1
      by (cases "nxt c1 x") (auto dest!: set_previous_obs split: if_splits)
    ultimately show ?thesis by simp
  qed
  have inner: "obs c2 = obs c0"
    if "(case cur of None \<Rightarrow> Inr c0
        | Some x \<Rightarrow> if queueTail c0 = Some x
            then if queueHead c0 = Some x then Inr (c0\<lparr>queueHead := None, queueTail := None\<rparr>)
                 else deref pr (\<lambda>t. Inr (upd_ev t (\<lambda>ev. ev\<lparr>ev_next := None\<rparr>) (c0\<lparr>queueTail := Some t\<rparr>)))
            else bindR (if queueHead c0 = Some x then Inr (c0\<lparr>queueHead := nxt c0 x\<rparr>)
              else deref pr (\<lambda>p. Inr (upd_ev p (\<lambda>ev. ev\<lparr>ev_next := nxt c0 x\<rparr>) c0)))
              (\<lambda>c1. deref (nxt c1 x) (\<lambda>n. if tm c1 x \<noteq> tm c1 n
                 then set_previous (\<lambda>c x. tm c x = tm c1 n) (Some n) pr c1 else Inr c1))) = Inr c2" for cur pr c2
  proof (cases cur)
    case (Some x)
    show ?thesis
    proof (cases "queueTail c0 = Some x")
      case True
      then show ?thesis using that Some by (cases pr) (auto simp: blind split: if_splits)
    next
      case False
      then show ?thesis using that Some rest by simp
    qed
  qed (use that in auto)
  show ?thesis
    using assms(1) unfolding dequeue_def c0_def [symmetric] Let_def
    by (auto simp: bindR_eq_Inr assms(2) c0 split: if_splits prod.splits dest!: inner)
qed

end

text \<open>The settings of an event, which the clock reads and does not change.\<close>

definition settings :: "clock \<Rightarrow> event_id \<Rightarrow> bool \<times> bool \<times> time \<times> nat option" where
  "settings c = (\<lambda>e. (configured (events c e), periodical (events c e), period_ms (events c e), periodicSchedule (events c e)))"

interpretation settings: link_blind settings
  by unfold_locales (auto simp: settings_def upd_ev_def fun_eq_iff)

lemma startAt_settings: "startAt now e t c = Inr (c', calls) \<Longrightarrow> settings c' = settings c"
  by (rule settings.startAt_obs) (auto simp: settings_def upd_ev_def fun_eq_iff)

lemma readFirstPending_settings: "readFirstPending now c = Inr (c', r) \<Longrightarrow> settings c' = settings c"
  by (rule settings.readFirstPending_obs) (auto simp: settings_def upd_ev_def fun_eq_iff)

text \<open>The flags \<^verbatim>\<open>queued\<close> of the other events, which starting an event does not change.\<close>

definition other_flags :: "event_id \<Rightarrow> clock \<Rightarrow> event_id \<Rightarrow> bool" where
  "other_flags e c = (\<lambda>x. x \<noteq> e \<and> queued (events c x))"

interpretation flags: link_blind "other_flags e"
  by unfold_locales (auto simp: other_flags_def upd_ev_def fun_eq_iff)

lemma startAt_flags: "startAt now e t c = Inr (c', calls) \<Longrightarrow> x \<noteq> e \<Longrightarrow> queued (events c' x) = queued (events c x)"
proof -
  assume s: "startAt now e t c = Inr (c', calls)" and "x \<noteq> e"
  have "other_flags e c' = other_flags e c"
    by (rule flags.startAt_obs [OF s]) (auto simp: other_flags_def upd_ev_def fun_eq_iff)
  then show ?thesis using \<open>x \<noteq> e\<close> by (auto simp: other_flags_def fun_eq_iff)
qed

section \<open>Pending points in time\<close>

text \<open>
  How often an event is due: a single one once its time is reached, a periodic one once for
  every period that ends until now.
\<close>

definition due :: "'p world \<Rightarrow> event_id \<Rightarrow> nat" where
  "due w e =
     (if tm (w_clock w) e \<le> w_now w
      then if periodical (ev_of w e)
           then (unat (w_now w) - unat (tm (w_clock w) e)) div unat (period_ms (ev_of w e)) + 1 else 1
      else 0)"

definition remaining :: "'p world \<Rightarrow> event_id list \<Rightarrow> event_id \<Rightarrow> nat" where
  "remaining w xs e = (if e \<in> set xs then due w e else 0)"

text \<open>
  The events \<open>E\<close> the loop may meet: without a schedule of triggers, with a period that stays in
  the range of time, and connected to the inputs \<open>ins\<close> of tasks.
\<close>

definition event_ok :: "'p world \<Rightarrow> (event_id \<Rightarrow> input_id list) \<Rightarrow> event_id \<Rightarrow> bool" where
  "event_ok w ins e \<longleftrightarrow>
     periodicSchedule (ev_of w e) = None \<and>
     (periodical (ev_of w e) \<longrightarrow> 0 < period_ms (ev_of w e) \<and> unat (w_now w) + unat (period_ms (ev_of w e)) < 2 ^ 63) \<and>
     wired w e (ins e) \<and> (\<forall>i\<in>set (ins e). in_task (w_inputs w i) \<noteq> None)"

definition separate :: "(event_id \<Rightarrow> input_id list) \<Rightarrow> event_id set \<Rightarrow> bool" where
  "separate ins E \<longleftrightarrow> (\<forall>e\<in>E. \<forall>f\<in>E. e \<noteq> f \<longrightarrow> set (ins e) \<inter> set (ins f) = {})"

lemma settings_eqD:
  "settings c' = settings c \<Longrightarrow> periodical (events c' e) = periodical (events c e) \<and>
    period_ms (events c' e) = period_ms (events c e) \<and> periodicSchedule (events c' e) = periodicSchedule (events c e)"
  by (auto dest!: fun_cong [of _ _ e] simp: settings_def)

lemma clock_startAt_settings: "clock_startAt e t w = Inr w' \<Longrightarrow> settings (w_clock w') = settings (w_clock w) \<and> w_now w' = w_now w"
  by (auto simp: clock_startAt_def on_clock_def bindR_eq_Inr dest: startAt_settings)

lemma next_due:
  fixes t p n :: time
  assumes "t \<le> n" and "0 < p" and "unat n + unat p < 2 ^ 63"
  shows "unat (t + p) = unat t + unat p" "t + p < 2 ^ 63"
    "(unat n - unat t) div unat p + 1 =
      Suc (if t + p \<le> n then (unat n - unat (t + p)) div unat p + 1 else 0)"
proof -
  have t: "unat t \<le> unat n" "0 < unat p" using assms(1,2) by (simp_all add: word_le_nat_alt word_less_nat_alt)
  then have "unat t + unat p < 2 ^ 64" using assms(3) by simp
  then show u: "unat (t + p) = unat t + unat p" by (simp add: unat_word_ariths(1))
  show "t + p < 2 ^ 63" using u t assms(3) by (simp add: word_less_nat_alt)
  have le: "t + p \<le> n \<longleftrightarrow> unat t + unat p \<le> unat n" using u by (simp add: word_le_nat_alt)
  show "(unat n - unat t) div unat p + 1 = Suc (if t + p \<le> n then (unat n - unat (t + p)) div unat p + 1 else 0)"
  proof (cases "t + p \<le> n")
    case True
    then have "unat n - unat t = unat p + (unat n - unat (t + p))" using le u by simp
    then show ?thesis using True t(2) by (simp add: div_add_self1)
  next
    case False
    then have "unat n - unat t < unat p" using le t(1) by simp
    then show ?thesis using False by simp
  qed
qed

text \<open>What a notification does not touch.\<close>

definition calm :: "'p world \<Rightarrow> 'p world \<Rightarrow> bool" where
  "calm w w' \<longleftrightarrow> w_clock w' = w_clock w \<and> w_now w' = w_now w \<and> w_running w' = w_running w \<and>
     w_channels w' = w_channels w \<and> links w' = links w"

lemma calm_refl [simp]: "calm w w"
  by (simp add: calm_def)

lemma calm_trans: "calm w w1 \<Longrightarrow> calm w1 w2 \<Longrightarrow> calm w w2"
  by (simp add: calm_def)

lemma same_net_calm: "same_net w w' \<Longrightarrow> calm w w'"
  using same_net_fields [of w w'] by (simp add: calm_def links_def fun_eq_iff)

lemma upd_input_calm:
  "(\<And>x. in_next (f x) = in_next x \<and> in_channel (f x) = in_channel x \<and> in_task (f x) = in_task x) \<Longrightarrow> calm w (upd_input i f w)"
  by (auto simp: calm_def upd_input_def links_def fun_eq_iff)

lemma notifyInput_calm: "notifyInput i w = Inr w' \<Longrightarrow> calm w w'"
proof -
  assume "notifyInput i w = Inr w'"
  then have "calm (upd_input i (\<lambda>_. noted w i) w) w'" by (intro same_net_calm notifyInput_net)
  moreover have "calm w (upd_input i (\<lambda>_. noted w i) w)"
    by (auto simp: calm_def upd_input_def links_def fun_eq_iff notified_keeps)
  ultimately show ?thesis by (rule calm_trans [rotated])
qed

lemma channel_push_calm: "channel_push c w = Inr w' \<Longrightarrow> calm w w'"
proof -
  assume "channel_push c w = Inr w'"
  then obtain q where "for_ptr (\<lambda>w i. True) (\<lambda>w i. in_next (w_inputs w i)) notifyInput (m_inputs (w_channels w c)) w = Inr (q, w')"
    by (auto simp: channel_push_def bindR_eq_Inr)
  then show ?thesis by (rule for_ptr_keeps) (auto intro: calm_trans notifyInput_calm)
qed

section \<open>Setting and handling one periodic event\<close>

text \<open>C25: Setting a periodic timing takes the event out of the clock queue, if it waits there, and puts it back; the other events stay
  where they are. The event is started for its offset when that is not over; otherwise for the next point in time, after the
  present one and at most one period later, that is the offset plus a multiple of the period, or at once when the period is 0. It is
  periodic and configured exactly when the period is not 0, and plays no schedule any more. This is for times below 2 to the 63, and unless
  the event waits in the queue with its time reached and without the flag \<^verbatim>\<open>queued\<close>.\<close>
theorem setPeriodicTiming_places:
  assumes "clock_rep (w_now w) (w_clock w) xs" and "e \<in> set xs \<longrightarrow> queued (ev_of w e)"
    and "unat (w_now w) + unat period < 2 ^ 63" and "offset < 2 ^ 63"
  shows "\<exists>w' t. setPeriodicTiming period offset e w = Inr w' \<and>
    clock_rep (w_now w) (w_clock w') (place_event (w_now w) (tm (w_clock w')) e (remove1 e xs)) \<and>
    tm (w_clock w') = (tm (w_clock w))(e := t) \<and>
    (if w_now w \<le> offset then t = offset
     else if period = 0 then t = w_now w
     else w_now w < t \<and> unat t \<le> unat (w_now w) + unat period \<and> (\<exists>k. unat t = unat offset + k * unat period)) \<and>
    settings (w_clock w') e = (0 < period, 0 < period, period, None)"
proof -
  let ?t = "next_period (w_now w) period offset"
  have t: "if w_now w \<le> offset then ?t = offset else if period = 0 then ?t = w_now w
     else w_now w < ?t \<and> unat ?t \<le> unat (w_now w) + unat period \<and> (\<exists>k. unat ?t = unat offset + k * unat period)"
  proof (cases "period = 0")
    case False
    then show ?thesis using next_period_next [of period "w_now w" offset] assms(3) by (auto simp: word_gt_0 not_le)
  qed (auto simp: next_period_def)
  have now: "w_now w < 2 ^ 63" using assms(3) by (simp add: word_less_nat_alt)
  have t63: "?t < 2 ^ 63" using t assms(3,4) now by (auto simp: word_less_nat_alt split: if_splits)
  obtain w1 where w1: "dequeue_if_queued e w = Inr w1" "clock_rep (w_now w) (w_clock w1) (remove1 e xs)"
    "tm (w_clock w1) = tm (w_clock w)" "w_now w1 = w_now w"
    using dequeue_if_queued_rep [OF assms(1,2)] by blast
  define w2 where "w2 = upd_event e (\<lambda>ev. ev\<lparr>periodicSchedule := None\<rparr>) (configurePeriodicTiming period offset e w1)"
  note defs = w2_def upd_event_def configurePeriodicTiming_def
  have e: "e \<notin> set (remove1 e xs)" using clock_shape_distinct assms(1) by (auto simp: clock_rep_def)
  have now2: "w_now w2 = w_now w" and next2: "nextActivation_ms (ev_of w2 e) = ?t" by (simp_all add: defs w1(4))
  have set2: "settings (w_clock w2) e = (0 < period, 0 < period, period, None)" by (simp add: defs settings_def upd_ev_def)
  have tm2: "(tm (w_clock w2))(e := v) = (tm (w_clock w))(e := v)" for v
    using fun_cong [OF w1(3)] by (auto simp: defs)
  have "clock_rep (w_now w) (w_clock w2) (remove1 e xs)"
    unfolding defs using w1(2) e by (simp add: clock_shape_times)
  then obtain w' where w': "clock_startAt e ?t w2 = Inr w'"
    "clock_rep (w_now w) (w_clock w') (place_event (w_now w) (tm (w_clock w')) e (remove1 e xs))"
    "tm (w_clock w') = (tm (w_clock w))(e := ?t)"
    using clock_startAt_rep [of w2 "remove1 e xs" e, unfolded now2 tm2, OF _ e now t63] by blast
  have "settings (w_clock w') e = (0 < period, 0 < period, period, None)"
    using clock_startAt_settings [OF w'(1)] set2 by simp
  moreover have "setPeriodicTiming period offset e w = Inr w'"
    using w'(1) by (simp add: setPeriodicTiming_def w1(1) w2_def [symmetric] next2 Let_def)
  ultimately show ?thesis using w'(2,3) t by blast
qed

text \<open>At the time 57, with the offset 3 and the period 10, the event is started for the time 63.\<close>

theorem setPeriodicTiming_places_witness:
  "\<exists>w'. setPeriodicTiming 10 3 7 (wired_world\<lparr>w_now := 57\<rparr>) = Inr w' \<and> clock_rep 57 (w_clock w') [7] \<and> unat (tm (w_clock w') 7) = 63"
proof -
  let ?w = "wired_world\<lparr>w_now := 57\<rparr>"
  have "clock_rep (w_now ?w) (w_clock ?w) []" using clock_rep_init by (simp add: wired_world_facts(5))
  from setPeriodicTiming_places [OF this, of 7 10 3] obtain w' t k where w': "setPeriodicTiming 10 3 7 ?w = Inr w'"
    "clock_rep 57 (w_clock w') (place_event 57 (tm (w_clock w')) 7 [])" "tm (w_clock w') = (tm (w_clock ?w))(7 := t)"
    "57 < t" "unat t \<le> 67" "unat t = 3 + k * 10" by auto
  have "57 < unat t" using w'(4) by (simp add: word_less_nat_alt)
  then have "unat t = 63" using w'(5,6) by presburger
  then show ?thesis using w'(1,2) fun_cong [OF w'(3), of 7] by (auto simp: place_empty)
qed

text \<open>C24: When a periodic event without a schedule, which has been fetched from the queue, is handled, it is started again exactly one
  period after the time for which it was started, however late it is handled; then the event is pushed: every input connected to it
  is notified once, and no other input. This is for times below 2 to the 63, and as long as the application does not override
  \<^verbatim>\<open>shallFire\<close>.\<close>
theorem periodic_event_restarts:
  assumes "clock_rep (w_now w) (w_clock w) xs" and "e \<notin> set xs"
    and "periodical (ev_of w e)" and "periodicSchedule (ev_of w e) = None"
    and "w_now w < 2 ^ 63" and "nextActivation_ms (ev_of w e) + period_ms (ev_of w e) < 2 ^ 63" and "wired w e is"
  shows "\<exists>w1. event_handle e w = channel_push e w1 \<and> same_run w w1 \<and>
    clock_rep (w_now w) (w_clock w1) (place_event (w_now w) (tm (w_clock w1)) e xs) \<and>
    tm (w_clock w1) = (tm (w_clock w))(e := nextActivation_ms (ev_of w e) + period_ms (ev_of w e)) \<and>
    (\<forall>w'. event_handle e w = Inr w' \<longrightarrow> w_clock w' = w_clock w1 \<and>
      w_inputs w' = (\<lambda>i. if i \<in> set is then fst (input_notified (w_inputs w i)) else w_inputs w i))"
proof -
  obtain w1 where w1: "clock_startAt e (nextActivation_ms (ev_of w e) + period_ms (ev_of w e)) w = Inr w1"
    "clock_rep (w_now w) (w_clock w1) (place_event (w_now w) (tm (w_clock w1)) e xs)"
    "tm (w_clock w1) = (tm (w_clock w))(e := nextActivation_ms (ev_of w e) + period_ms (ev_of w e))" "same_run w w1"
    using clock_startAt_rep [OF assms(1,2,5,6)] by blast
  have "shallFire e w1" using clock_startAt_settings [OF w1(1)] settings_eqD [of "w_clock w1" "w_clock w" e] assms(4)
    by (simp add: shallFire_def)
  then have h: "event_handle e w = channel_push e w1" using w1(1) assms(3,4) by (simp add: event_handle_def)
  have "wired w1 e is" using assms(7) w1(4) by (simp add: wired_def same_run_def)
  then have pl: "channel_push e w1 = notify_list is w1" "distinct is" by (auto simp: channel_push_list wired_def dest: chain_distinct)
  have "w_inputs w' = (\<lambda>i. if i \<in> set is then noted w i else w_inputs w i) \<and> w_clock w' = w_clock w1"
    if "event_handle e w = Inr w'" for w'
  proof -
    have p: "channel_push e w1 = Inr w'" "notify_list is w1 = Inr w'" using that h pl(1) by simp_all
    have i: "w_inputs w1 = w_inputs w" using w1(4) by (simp add: same_run_def)
    show ?thesis using notify_list_inputs [OF p(2) pl(2), unfolded i] channel_push_calm [OF p(1)] by (simp add: calm_def)
  qed
  then show ?thesis using h w1(2-4) by blast
qed

theorem periodic_event_restarts_witness:
  "\<exists>w'. event_handle 7 (upd_event 7 (\<lambda>ev. ev\<lparr>periodical := True, period_ms := 10, nextActivation_ms := 3\<rparr>) (wired_world\<lparr>w_now := 25\<rparr>)) =
     Inr w' \<and> tm (w_clock w') 7 = 13 \<and> in_notifications (w_inputs w' 2) = 1"
proof -
  let ?w = "upd_event 7 (\<lambda>ev. ev\<lparr>periodical := True, period_ms := 10, nextActivation_ms := 3\<rparr>) (wired_world\<lparr>w_now := 25\<rparr>)"
  have f: "w_now ?w = 25" "periodical (ev_of ?w 7)" "periodicSchedule (ev_of ?w 7) = None"
    "nextActivation_ms (ev_of ?w 7) + period_ms (ev_of ?w 7) = 13" "w_inputs ?w = w_inputs wired_world"
    by (simp_all add: wired_world_facts(5) upd_event_def clock_init_def event_init_def)
  have wired: "wired ?w 7 [2]" using wired_world_facts(2) by (simp add: wired_def upd_event_def)
  have inv: "run_inv fifo_queue fifo_nextTask fifo_rep ?w [] {}" using wired_world_facts(1) by (simp add: run_inv_def upd_event_def)
  have "clock_rep (w_now ?w) (w_clock ?w) []"
    by (simp add: wired_world_facts(5) upd_event_def clock_shape_times clock_rep_init)
  note rep = this
  have prem: "7 \<notin> set []" "w_now ?w < 2 ^ 63" "nextActivation_ms (ev_of ?w 7) + period_ms (ev_of ?w 7) < 2 ^ 63"
    unfolding f(1,4) by simp_all
  from periodic_event_restarts [OF rep prem(1) f(2,3) prem(2,3) wired] obtain w1 where
    w1: "event_handle 7 ?w = channel_push 7 w1" "same_run ?w w1" "tm (w_clock w1) = (tm (w_clock ?w))(7 := 13)"
    "\<And>w'. event_handle 7 ?w = Inr w' \<Longrightarrow> w_clock w' = w_clock w1 \<and> w_inputs w' = (\<lambda>i. if i \<in> set [2] then noted ?w i else w_inputs ?w i)"
    unfolding f(1,4) by blast
  have n: "w_inputs w1 = w_inputs wired_world" "w_channels w1 = w_channels ?w" using w1(2) f(5) unfolding same_run_def by simp_all
  have "run_inv fifo_queue fifo_nextTask fifo_rep w1 [] {}" using inv unfolding fifo_open.same_run_inv [OF w1(2)] .
  moreover have "wired w1 7 [2]" "in_task (w_inputs w1 2) = Some 5"
    using wired_world_facts(2,3) by (simp_all add: wired_def n upd_event_def)
  ultimately obtain w' where w': "channel_push 7 w1 = Inr w'" using fifo_open.channel_push_inv [of w1 "[]" "{}" 7 "[2]"] by auto
  have "in_notifications (w_inputs w' 2) = 1" using w1(4) [of w'] w1(1) w' f(5)
    by (simp add: wired_eval input_notified_def input_isActivated_def)
  moreover have "tm (w_clock w') 7 = 13" using w1(4) [of w'] w1(1) w' fun_cong [OF w1(3), of 7] by simp
  ultimately show ?thesis using w1(1) w' by auto
qed

section \<open>One event\<close>

text \<open>What handling the event \<open>h\<close> at the head of the queue leaves.\<close>

definition handled_one ::
  "(event_id \<Rightarrow> input_id list) \<Rightarrow> event_id \<Rightarrow> 'p world \<Rightarrow> event_id list \<Rightarrow> 'p world \<Rightarrow> event_id list \<Rightarrow> bool" where
  "handled_one ins h w xs w' xs' \<longleftrightarrow>
     clock_rep (w_now w) (w_clock w') xs' \<and> w_now w' = w_now w \<and> settings (w_clock w') = settings (w_clock w) \<and>
     w_channels w' = w_channels w \<and> links w' = links w \<and> w_running w' = w_running w \<and>
     w_inputs w' = (\<lambda>i. if i \<in> set (ins h) then noted w i else w_inputs w i) \<and>
     set xs' = (if periodical (ev_of w h) then set xs else set xs - {h}) \<and>
     (\<forall>e. tm (w_clock w') e = tm (w_clock w) e + (if e = h \<and> periodical (ev_of w h) then period_ms (ev_of w h) else 0))"

context open_policy
begin

lemma handle_head:
  assumes i: "inv w ts ex" and r: "clock_rep (w_now w) (w_clock w) (h # B)" and d: "tm (w_clock w) h \<le> w_now w"
    and n: "w_now w < 2 ^ 63" and ok: "event_ok w ins h"
  shows "\<exists>c' w' ts' xs'. readFirstPending (w_now w) (w_clock w) = Inr (c', Some h) \<and>
    event_handle h (w\<lparr>w_clock := c'\<rparr>) = Inr w' \<and> inv w' ts' ex \<and> set ts \<subseteq> set ts' \<and> handled_one ins h w (h # B) w' xs'"
proof -
  obtain c' where c': "readFirstPending (w_now w) (w_clock w) = Inr (c', Some h)"
    "clock_rep (w_now w) c' B" "\<forall>x. tm c' x = tm (w_clock w) x"
    using readFirstPending_spec [OF r d] by blast
  have st: "settings c' = settings (w_clock w)" using c'(1) by (rule readFirstPending_settings)
  have hB: "h \<notin> set B" using clock_shape_distinct [of "w_now w" "w_clock w" "h # B"] r by (simp add: clock_rep_def)
  let ?w0 = "w\<lparr>w_clock := c'\<rparr>"
  define p where "p = (if periodical (ev_of w h) then period_ms (ev_of w h) else 0)"
  have "\<exists>w1 xs'. event_handle h ?w0 = channel_push h w1 \<and> same_run w w1 \<and> w_now w1 = w_now w \<and>
      clock_rep (w_now w) (w_clock w1) xs' \<and> settings (w_clock w1) = settings (w_clock w) \<and>
      set xs' = (if periodical (ev_of w h) then set (h # B) else set B) \<and>
      (\<forall>e. tm (w_clock w1) e = tm (w_clock w) e + (if e = h then p else 0))"
  proof (cases "periodical (ev_of w h)")
    case False
    then have "event_handle h ?w0 = channel_push h ?w0"
      using settings_eqD [OF st, of h] ok by (simp add: event_handle_def shallFire_def event_ok_def)
    moreover have "p = 0" using False by (simp add: p_def)
    ultimately show ?thesis using c'(2,3) st False by (intro exI [of _ ?w0] exI [of _ B]) simp
  next
    case True
    let ?t = "tm (w_clock w) h + period_ms (ev_of w h)"
    have t: "?t < 2 ^ 63" using next_due(2) [OF d, of "period_ms (ev_of w h)"] ok True by (simp add: event_ok_def)
    obtain w1 where w1: "clock_startAt h ?t ?w0 = Inr w1"
      "clock_rep (w_now w) (w_clock w1) (place_event (w_now w) (tm (w_clock w1)) h B)"
      "tm (w_clock w1) = (tm c')(h := ?t)" "same_run ?w0 w1"
      using clock_startAt_rep [of ?w0 B h ?t] c'(2) hB n t by auto
    have s1: "settings (w_clock w1) = settings (w_clock w)" "w_now w1 = w_now w"
      using clock_startAt_settings [OF w1(1)] st by simp_all
    have "event_handle h ?w0 = channel_push h w1"
      using settings_eqD [OF st, of h] settings_eqD [OF s1(1), of h] ok True c'(3) w1(1)
      by (simp add: event_handle_def shallFire_def event_ok_def)
    moreover have "same_run w w1" using same_run_trans [OF same_run_upd(1) w1(4)] .
    moreover have "\<forall>e. tm (w_clock w1) e = tm (w_clock w) e + (if e = h then p else 0)"
      using fun_cong [OF w1(3)] c'(3) True by (simp add: p_def)
    ultimately show ?thesis using w1(2) s1 True
      by (intro exI [of _ w1] exI [of _ "place_event (w_now w) (tm (w_clock w1)) h B"]) simp
  qed
  then obtain w1 xs' where w1: "event_handle h ?w0 = channel_push h w1" "same_run w w1" "w_now w1 = w_now w"
    "clock_rep (w_now w) (w_clock w1) xs'" "settings (w_clock w1) = settings (w_clock w)"
    "set xs' = (if periodical (ev_of w h) then set (h # B) else set B)"
    "\<forall>e. tm (w_clock w1) e = tm (w_clock w) e + (if e = h then p else 0)" by blast
  have wd: "wired w1 h (ins h)" "\<forall>i\<in>set (ins h). in_task (w_inputs w1 i) \<noteq> None"
    using ok w1(2) by (simp_all add: event_ok_def wired_def same_run_def)
  obtain w' ts' where w': "channel_push h w1 = Inr w'" "inv w' ts' ex" "set ts \<subseteq> set ts'"
    "w_inputs w' = (\<lambda>i. if i \<in> set (ins h) then noted w1 i else w_inputs w1 i)"
    using channel_push_inv [OF _ wd] i same_run_inv [OF w1(2)] by blast
  have rest: "w_clock w' = w_clock w1" "w_now w' = w_now w1" "w_channels w' = w_channels w1" "links w' = links w1"
    "w_running w' = w_running w1" using channel_push_calm [OF w'(1)] by (simp_all add: calm_def)
  have "w_inputs w1 = w_inputs w" "w_channels w1 = w_channels w" "links w1 = links w" "w_running w1 = w_running w"
    using w1(2) by (simp_all add: same_run_def links_def)
  then have "handled_one ins h w (h # B) w' xs'"
    using w1 w'(4) rest hB by (auto simp: handled_one_def p_def)
  then show ?thesis using c'(1) w1(1) w' by auto
qed

end

text \<open>The step takes one point in time of \<open>h\<close> off what is left to do.\<close>

lemma handled_one_remaining:
  assumes o: "handled_one ins h w xs w' xs'" and h: "h \<in> set xs" and d: "tm (w_clock w) h \<le> w_now w" and ok: "event_ok w ins h"
  shows "remaining w xs = (remaining w' xs')(h := Suc (remaining w' xs' h))"
proof
  fix e
  have st: "periodical (ev_of w' e) = periodical (ev_of w e)" "period_ms (ev_of w' e) = period_ms (ev_of w e)" for e
    using o settings_eqD [of "w_clock w'" "w_clock w" e] by (simp_all add: handled_one_def)
  show "remaining w xs e = ((remaining w' xs')(h := Suc (remaining w' xs' h))) e"
  proof (cases "e = h")
    case False
    then show ?thesis using o st [of e] by (auto simp: handled_one_def remaining_def due_def)
  next
    case True
    show ?thesis
    proof (cases "periodical (ev_of w h)")
      case True
      then have p: "0 < period_ms (ev_of w h)" "unat (w_now w) + unat (period_ms (ev_of w h)) < 2 ^ 63"
        using ok by (auto simp: event_ok_def)
      show ?thesis using o st [of h] True h d \<open>e = h\<close> next_due(3) [OF d p]
        by (simp add: handled_one_def remaining_def due_def)
    next
      case False
      then show ?thesis using o st [of h] h d \<open>e = h\<close> by (simp add: handled_one_def remaining_def due_def)
    qed
  qed
qed

lemma handled_one_ok:
  assumes "handled_one ins h w xs w' xs'" and "event_ok w ins e"
  shows "event_ok w' ins e"
proof -
  have w: "w_channels w' = w_channels w" "w_now w' = w_now w" "settings (w_clock w') = settings (w_clock w)"
    "in_task (w_inputs w' i) = in_task (w_inputs w i)" "in_next (w_inputs w' i) = in_next (w_inputs w i)" for i
    using assms(1) by (simp_all add: handled_one_def notified_keeps)
  show ?thesis using assms(2) settings_eqD [OF w(3), of e] by (simp add: event_ok_def wired_def w)
qed

section \<open>The loop\<close>

text \<open>
  From the events \<open>xs\<close> the loop leaves \<open>ys\<close>: an event in the queue is in the future, has moved on by
  as many periods as were over, and every input was notified as often as its event was due.
\<close>

definition handled_all ::
  "(event_id \<Rightarrow> input_id list) \<Rightarrow> event_id set \<Rightarrow> 'p world \<Rightarrow> event_id list \<Rightarrow> 'p world \<Rightarrow> event_id list \<Rightarrow> bool" where
  "handled_all ins E w xs w' ys \<longleftrightarrow>
     w_now w' = w_now w \<and> settings (w_clock w') = settings (w_clock w) \<and> links w' = links w \<and>
     w_running w' = w_running w \<and> clock_rep (w_now w) (w_clock w') ys \<and>
     set ys = {e \<in> set xs. periodical (ev_of w e) \<or> w_now w < tm (w_clock w) e} \<and>
     (\<forall>e\<in>set ys. w_now w < tm (w_clock w') e \<and>
        unat (tm (w_clock w') e) = unat (tm (w_clock w) e) + remaining w xs e * unat (period_ms (ev_of w e))) \<and>
     (\<forall>e\<in>E. \<forall>i\<in>set (ins e). w_inputs w' i = ((\<lambda>x. fst (input_notified x)) ^^ remaining w xs e) (w_inputs w i)) \<and>
     (\<forall>i. (\<forall>e\<in>E. i \<notin> set (ins e)) \<longrightarrow> w_inputs w' i = w_inputs w i)"

lemma handled_all_Nil:
  assumes "clock_rep (w_now w) (w_clock w) xs" and "\<forall>e\<in>set xs. w_now w < tm (w_clock w) e"
  shows "handled_all ins E w xs w xs"
proof -
  have "remaining w xs e = 0" for e using assms(2) by (auto simp: remaining_def due_def)
  then show ?thesis using assms by (auto simp: handled_all_def)
qed

lemma handled_all_step:
  assumes o: "handled_one ins h w xs w1 xs1" and a: "handled_all ins E w1 xs1 w' ys"
    and h: "h \<in> set xs" "h \<in> E" and d: "tm (w_clock w) h \<le> w_now w" and ok: "event_ok w ins h" and sep: "separate ins E"
  shows "handled_all ins E w xs w' ys"
proof -
  have rem: "remaining w xs = (remaining w1 xs1)(h := Suc (remaining w1 xs1 h))"
    by (rule handled_one_remaining [OF o h(1) d ok])
  have w1: "w_now w1 = w_now w" "tm (w_clock w1) e = tm (w_clock w) e + (if e = h \<and> periodical (ev_of w h) then period_ms (ev_of w h) else 0)"
    "w_inputs w1 i = (if i \<in> set (ins h) then noted w i else w_inputs w i)"
    "set xs1 = (if periodical (ev_of w h) then set xs else set xs - {h})" for e i
    using o by (simp_all add: handled_one_def)
  have st: "periodical (ev_of w1 e) = periodical (ev_of w e)" "period_ms (ev_of w1 e) = period_ms (ev_of w e)" for e
    using o settings_eqD [of "w_clock w1" "w_clock w" e] by (simp_all add: handled_one_def)
  have ys: "set ys = {e \<in> set xs. periodical (ev_of w e) \<or> w_now w < tm (w_clock w) e}"
    using a d h(1) by (auto simp: handled_all_def w1 st split: if_splits)
  have times: "unat (tm (w_clock w') e) = unat (tm (w_clock w) e) + remaining w xs e * unat (period_ms (ev_of w e))" if "e \<in> set ys" for e
  proof -
    have e: "unat (tm (w_clock w') e) = unat (tm (w_clock w1) e) + remaining w1 xs1 e * unat (period_ms (ev_of w e))"
      using a that by (simp add: handled_all_def st)
    show ?thesis
    proof (cases "e = h")
      case True
      then have p: "periodical (ev_of w h)" using that a d by (auto simp: handled_all_def w1 st leD split: if_splits)
      then have "unat (tm (w_clock w) h + period_ms (ev_of w h)) = unat (tm (w_clock w) h) + unat (period_ms (ev_of w h))"
        using next_due(1) [OF d] ok by (simp add: event_ok_def)
      then show ?thesis using e True p by (simp add: rem w1(2))
    qed (use e in \<open>simp add: rem w1(2)\<close>)
  qed
  have inputs: "w_inputs w' i = ((\<lambda>x. fst (input_notified x)) ^^ remaining w xs e) (w_inputs w i)" if "e \<in> E" "i \<in> set (ins e)" for e i
  proof -
    have "w_inputs w' i = ((\<lambda>x. fst (input_notified x)) ^^ remaining w1 xs1 e) (w_inputs w1 i)"
      using a that by (auto simp: handled_all_def)
    moreover have "i \<in> set (ins h) \<longleftrightarrow> e = h" using sep h(2) that by (auto simp: separate_def)
    ultimately show ?thesis by (simp add: rem w1(3) funpow_Suc_right del: funpow.simps)
  qed
  have other: "w_inputs w' i = w_inputs w i" if "\<forall>e\<in>E. i \<notin> set (ins e)" for i
    using a that h(2) by (simp add: handled_all_def w1(3))
  have "w_now w' = w_now w" "settings (w_clock w') = settings (w_clock w)" "links w' = links w" "w_running w' = w_running w"
    "clock_rep (w_now w) (w_clock w') ys" "\<forall>e\<in>set ys. w_now w < tm (w_clock w') e"
    using o a by (simp_all add: handled_all_def handled_one_def)
  then show ?thesis unfolding handled_all_def using ys times inputs other by blast
qed

context open_policy
begin

lemma handle_loop_ends:
  "inv w ts ex \<Longrightarrow> clock_rep (w_now w) (w_clock w) xs \<Longrightarrow> w_now w < 2 ^ 63 \<Longrightarrow> set xs \<subseteq> E \<Longrightarrow> separate ins E \<Longrightarrow>
   \<forall>e\<in>E. event_ok w ins e \<Longrightarrow> sum (remaining w xs) (set xs) = k \<Longrightarrow>
   \<exists>w' ts' ys. handle_loop w = Some (Inr w') \<and> inv w' ts' ex \<and> set ts \<subseteq> set ts' \<and> handled_all ins E w xs w' ys"
proof (induction k arbitrary: w ts xs rule: less_induct)
  case (less k)
  show ?case
  proof (cases "\<exists>h B. xs = h # B \<and> tm (w_clock w) h \<le> w_now w")
    case False
    have srt: "future_sorted (w_now w) (tm (w_clock w)) xs" using less.prems(2) by (simp add: clock_rep_def clock_shape_def)
    have "w_now w < tm (w_clock w) x" if "x \<in> set xs" for x
      using False srt that by (cases xs) (auto simp: future_sorted_Cons not_le)
    then have "handled_all ins E w xs w xs" using handled_all_Nil [OF less.prems(2)] by simp
    moreover have "handle_loop w = Some (Inr w)"
      using readFirstPending_none [OF less.prems(2)] False by (subst handle_loop.simps) auto
    ultimately show ?thesis using less.prems(1) by blast
  next
    case True
    then obtain h B where xs: "xs = h # B" and d: "tm (w_clock w) h \<le> w_now w" by blast
    have h: "h \<in> set xs" "h \<in> E" using xs less.prems(4) by auto
    then have ok: "event_ok w ins h" using less.prems(6) by blast
    obtain c' w1 ts1 xs1 where s: "readFirstPending (w_now w) (w_clock w) = Inr (c', Some h)"
      "event_handle h (w\<lparr>w_clock := c'\<rparr>) = Inr w1" "inv w1 ts1 ex" "set ts \<subseteq> set ts1" "handled_one ins h w xs w1 xs1"
      using handle_head [OF less.prems(1) _ d less.prems(3) ok] less.prems(2) unfolding xs by blast
    have loop: "handle_loop w = handle_loop w1" by (subst handle_loop.simps) (simp add: s)
    have now: "w_now w1 = w_now w" and sub: "set xs1 \<subseteq> set xs" using s(5) by (auto simp: handled_one_def split: if_splits)
    have rem: "remaining w xs = (remaining w1 xs1)(h := Suc (remaining w1 xs1 h))"
      by (rule handled_one_remaining [OF s(5) h(1) d ok])
    have "sum (remaining w1 xs1) (set xs1) \<le> sum (remaining w1 xs1) (set xs)" using sub by (intro sum_mono2) auto
    also have "\<dots> < sum (remaining w xs) (set xs)" using h(1) by (intro sum_strict_mono_ex1) (auto simp: rem)
    finally have lt: "sum (remaining w1 xs1) (set xs1) < k" using less.prems(7) by simp
    have "clock_rep (w_now w1) (w_clock w1) xs1" using s(5) now by (simp add: handled_one_def)
    moreover have "\<forall>e\<in>E. event_ok w1 ins e" using less.prems(6) handled_one_ok [OF s(5)] by blast
    ultimately obtain w' ts' ys where "handle_loop w1 = Some (Inr w')" "inv w' ts' ex" "set ts1 \<subseteq> set ts'"
      "handled_all ins E w1 xs1 w' ys"
      using less.IH [OF lt s(3)] less.prems(3-5) sub now by auto blast
    then show ?thesis using handled_all_step [OF s(5) _ h d ok less.prems(5)] s(4) loop by (metis order_trans)
  qed
qed

end

section \<open>Properties\<close>

text \<open>C5: The loop over the pending events ends, and without a fault, when the events in the queue have no schedule of triggers, the
  periodic ones have periods that are not 0, times stay below 2 to the 63, and no input is connected to two of the events: afterwards
  no event in the queue is due, single events that were due have left the queue, a periodic event has moved on by exactly the
  periods that were over, every input of an event was notified exactly once for every point in time at which
  the event was due, other inputs were not notified, and no task got lost from the run queue. This holds for every policy that
  meets the contract of a run queue and accepts every task that does not wait, as the FIFO, priority and priority slot policies do.\<close>
theorem handleEvents_terminates:
  assumes "open_policy q nt rep place adm" and "run_inv q nt rep w ts ex" and "clock_rep (w_now w) (w_clock w) xs"
    and "w_now w < 2 ^ 63" and "\<forall>e\<in>set xs. event_ok w ins e" and "separate ins (set xs)"
  shows "\<exists>w' ts' ys. handleEvents w = Inr w' \<and> run_inv q nt rep w' ts' ex \<and> set ts \<subseteq> set ts' \<and>
    clock_rep (w_now w) (w_clock w') ys \<and>
    set ys = {e \<in> set xs. periodical (ev_of w e) \<or> w_now w < tm (w_clock w) e} \<and>
    (\<forall>e\<in>set ys. w_now w < tm (w_clock w') e \<and>
       unat (tm (w_clock w') e) = unat (tm (w_clock w) e) + due w e * unat (period_ms (ev_of w e))) \<and>
    (\<forall>e\<in>set xs. \<forall>i\<in>set (ins e). w_inputs w' i = ((\<lambda>x. fst (input_notified x)) ^^ due w e) (w_inputs w i)) \<and>
    (\<forall>i. (\<forall>e\<in>set xs. i \<notin> set (ins e)) \<longrightarrow> w_inputs w' i = w_inputs w i)"
proof -
  obtain w' ts' ys where r: "handle_loop w = Some (Inr w')" "run_inv q nt rep w' ts' ex"
    "set ts \<subseteq> set ts'" "handled_all ins (set xs) w xs w' ys"
    using open_policy.handle_loop_ends [OF assms(1-4) subset_refl assms(6,5) refl] by blast
  then show ?thesis
    by (intro exI [of _ w'] exI [of _ ts'] exI [of _ ys]) (simp add: handleEvents_def handled_all_def remaining_def)
qed

text \<open>A periodic event with three points in time that are reached.\<close>

definition late_world :: "fifo_policy world res" where
  "late_world =
     bindR (clock_startAt 7 3 (upd_event 7 (\<lambda>ev. ev\<lparr>periodical := True, period_ms := 10\<rparr>)
         (upd_channel 7 (\<lambda>c. c\<lparr>m_inputs := Some 2\<rparr>) (demo_world fifo_ops fifo_init))))
       (\<lambda>w. Inr (w\<lparr>w_now := 25\<rparr>))"

theorem handleEvents_terminates_witness:
  "\<exists>w w'. late_world = Inr w \<and> handleEvents w = Inr w' \<and> unat (tm (w_clock w') 7) = 33 \<and>
    w_inputs w' 2 = ((\<lambda>x. fst (input_notified x)) ^^ 3) (w_inputs w 2)"
proof -
  let ?w0 = "upd_event 7 (\<lambda>ev. ev\<lparr>periodical := True, period_ms := 10\<rparr>)
      (upd_channel 7 (\<lambda>c. c\<lparr>m_inputs := Some 2\<rparr>) (demo_world fifo_ops fifo_init))"
  have rep0: "clock_rep 0 (w_clock ?w0) []"
    by (simp add: upd_event_def upd_channel_def demo_eval clock_shape_times clock_rep_init)
  have w0: "w_now ?w0 = 0" "settings (w_clock ?w0) 7 = (False, True, 10, None)"
    "m_inputs (w_channels ?w0 7) = Some 2" "in_next (w_inputs ?w0 2) = None" "in_task (w_inputs ?w0 2) = Some 5"
    by (simp_all add: upd_event_def upd_channel_def demo_eval settings_def upd_ev_def clock_init_def event_init_def)
  obtain w1 where w1: "clock_startAt 7 3 ?w0 = Inr w1" "clock_rep 0 (w_clock w1) (place_event 0 (tm (w_clock w1)) 7 [])"
    "tm (w_clock w1) = (tm (w_clock ?w0))(7 := 3)" "same_run ?w0 w1"
    using clock_startAt_rep [of ?w0 "[]" 7 3] w0(1) rep0 by auto
  let ?w = "w1\<lparr>w_now := 25\<rparr>"
  have st: "settings (w_clock w1) 7 = (False, True, 10, None)" using clock_startAt_settings [OF w1(1)] w0(2) by simp
  then have ev: "periodical (ev_of w1 7)" "period_ms (ev_of w1 7) = 10" "periodicSchedule (ev_of w1 7) = None"
    by (auto simp: settings_def)
  have "run_inv fifo_queue fifo_nextTask fifo_rep (demo_world fifo_ops fifo_init) [] {}"
    by (rule fresh_inv) (use demo_fresh [of fifo_ops fifo_init] fifo_rep_init in \<open>simp_all add: fifo_ops_def\<close>)
  then have inv: "run_inv fifo_queue fifo_nextTask fifo_rep ?w [] {}"
    using w1(4) by (simp add: run_inv_def same_run_def upd_event_def upd_channel_def)
  have rep: "clock_rep (w_now ?w) (w_clock ?w) [7]" using clock_rep_later [OF w1(2), of 25] by (simp add: place_empty)
  have ok: "event_ok ?w (\<lambda>_. [2]) 7" using ev w0(3-5) w1(4) by (simp add: event_ok_def wired_def same_run_def)
  have "tm (w_clock w1) 7 = 3" using fun_cong [OF w1(3), of 7] by simp
  then have due: "due ?w 7 = 3" using ev by (simp add: due_def)
  obtain w' where "handleEvents ?w = Inr w'" "unat (tm (w_clock w') 7) = unat (tm (w_clock w1) 7) + due ?w 7 * unat (period_ms (ev_of w1 7))"
    "w_inputs w' 2 = ((\<lambda>x. fst (input_notified x)) ^^ due ?w 7) (w_inputs ?w 2)"
    using handleEvents_terminates [OF fifo_open.open_policy_axioms inv rep _ _, of "\<lambda>_. [2]"] ok ev by (auto simp: separate_def)
  then show ?thesis using w1(1) due ev \<open>tm (w_clock w1) 7 = 3\<close>
    by (intro exI [of _ ?w] exI [of _ w']) (simp add: late_world_def)
qed

end
