(* ===== verification/Soundness.thy ===== *)
theory Soundness
  imports EventLoop
begin

text \<open>
  The type soundness of the framework: in an application that was set up as the set-up requires, no
  run of pushes, timers, executions and handled events reaches a null pointer, a failed assertion,
  an overflow or a loop without end.
\<close>

section \<open>The invariant of a run\<close>

text \<open>
  Every event in the queue is marked as queued, no event has a schedule of triggers, and the
  periods and times stay in the range in which the clock calculates.
\<close>

definition queue_ready :: "time \<Rightarrow> clock \<Rightarrow> event_id list \<Rightarrow> bool" where
  "queue_ready now c xs \<longleftrightarrow> clock_rep now c xs \<and> (\<forall>e\<in>set xs. queued (events c e))"

definition good_settings :: "clock \<Rightarrow> bool" where
  "good_settings c \<longleftrightarrow> (\<forall>e. case settings c e of (conf, per, p, sched) \<Rightarrow> sched = None \<and> (per \<or> conf \<longrightarrow> 0 < p \<and> p < 2 ^ 62))"

definition events_ready :: "'p world \<Rightarrow> bool" where
  "events_ready w \<longleftrightarrow> w_now w < 2 ^ 62 \<and> (\<exists>xs. queue_ready (w_now w) (w_clock w) xs) \<and> good_settings (w_clock w)"

lemma good_settingsD:
  assumes "good_settings c"
  shows "periodicSchedule (events c e) = None"
    "periodical (events c e) \<or> configured (events c e) \<Longrightarrow> 0 < period_ms (events c e) \<and> period_ms (events c e) < 2 ^ 62"
  using assms [unfolded good_settings_def, THEN spec, of e] by (auto simp: settings_def)

lemma good_settings_cong: "settings c' = settings c \<Longrightarrow> good_settings c' = good_settings c"
  by (simp add: good_settings_def)

definition sound ::
  "(task_id \<Rightarrow> 'p \<Rightarrow> ('p \<times> bool) res) \<Rightarrow> ('p \<Rightarrow> ('p \<times> task_id option) res) \<Rightarrow> ('p \<Rightarrow> task_id list \<Rightarrow> bool) \<Rightarrow>
   'p world \<Rightarrow> task_id list \<Rightarrow> task_id set \<Rightarrow> task_id list \<Rightarrow> bool" where
  "sound q nt rep w ts ex ks \<longleftrightarrow>
     run_inv q nt rep w ts ex \<and> (\<exists>ins. typed w ins ks) \<and> events_ready w"

lemma events_ready_same: "w_clock w' = w_clock w \<Longrightarrow> w_now w' = w_now w \<Longrightarrow> events_ready w' = events_ready w"
  by (simp add: events_ready_def)

lemma calm_typed: "calm w w' \<Longrightarrow> typed w' ins ks = typed w ins ks"
  by (rule typed_links) (simp add: calm_def)

lemma calm_ready: "calm w w' \<Longrightarrow> events_ready w' = events_ready w"
  by (rule events_ready_same) (simp_all add: calm_def)

lemma set_state_calm [simp]: "calm w (set_state t s w)"
  by (simp add: same_net_calm)

lemma upd_barrier_calm [simp]: "calm w (upd_barrier c f w)"
  by (simp add: calm_def upd_barrier_def links_def)

section \<open>Starting and stopping events\<close>

lemma same_run_links: "same_run w w' \<Longrightarrow> links w' = links w"
  by (simp add: same_run_def links_def)

lemma dequeue_settings: "dequeue e c = Inr c' \<Longrightarrow> settings c' = settings c"
  by (rule settings.dequeue_obs) (auto simp: settings_def upd_ev_def fun_eq_iff)

lemma dequeue_ready:
  assumes "events_ready w"
  shows "\<exists>w' xs. clock_dequeue e w = Inr w' \<and> same_run w w' \<and> events_ready w' \<and> settings (w_clock w') = settings (w_clock w) \<and>
    w_now w' = w_now w \<and> queue_ready (w_now w) (w_clock w') xs \<and> e \<notin> set xs"
proof -
  obtain xs where xs: "clock_rep (w_now w) (w_clock w) xs" "\<forall>x\<in>set xs. queued (ev_of w x)"
    using assms by (auto simp: events_ready_def queue_ready_def)
  obtain c' where c': "dequeue e (w_clock w) = Inr c'" "clock_rep (w_now w) c' (remove1 e xs)"
    "\<forall>x. queued (events c' x) = (x \<noteq> e \<and> queued (ev_of w x))"
    using dequeue_spec [OF xs(1), of e] by blast
  let ?w' = "w\<lparr>w_clock := c'\<rparr>"
  have "distinct xs" using xs(1) clock_shape_distinct by (auto simp: clock_rep_def)
  then have q: "e \<notin> set (remove1 e xs)" "queue_ready (w_now w) c' (remove1 e xs)"
    using c'(2,3) xs(2) by (auto simp: queue_ready_def)
  have s: "settings c' = settings (w_clock w)" using c'(1) by (rule dequeue_settings)
  have "events_ready ?w'" using assms q(2) good_settings_cong [OF s] by (auto simp: events_ready_def)
  then show ?thesis using c' q s
    by (intro exI [of _ ?w'] exI [of _ "remove1 e xs"]) (simp add: clock_dequeue_def)
qed

lemma dequeue_if_ready:
  assumes "events_ready w"
  shows "\<exists>w' xs. dequeue_if_queued e w = Inr w' \<and> same_run w w' \<and> events_ready w' \<and> settings (w_clock w') = settings (w_clock w) \<and>
    w_now w' = w_now w \<and> queue_ready (w_now w) (w_clock w') xs \<and> e \<notin> set xs"
proof (cases "queued (ev_of w e)")
  case False
  obtain xs where "queue_ready (w_now w) (w_clock w) xs" using assms by (auto simp: events_ready_def)
  moreover from this have "e \<notin> set xs" using False by (auto simp: queue_ready_def)
  ultimately show ?thesis using assms False by (intro exI [of _ w] exI [of _ xs]) (simp add: dequeue_if_queued_def)
next
  case True
  then show ?thesis using dequeue_ready [OF assms, of e] by (simp add: dequeue_if_queued_def)
qed

text \<open>Starting an event that is not in the queue for a time in the future.\<close>

lemma startAt_ready:
  assumes r: "queue_ready (w_now w) (w_clock w) xs" "e \<notin> set xs" and ok: "events_ready w" and t: "w_now w < t" "t < 2 ^ 63"
  shows "\<exists>w'. clock_startAt e t w = Inr w' \<and> same_run w w' \<and> events_ready w' \<and> settings (w_clock w') = settings (w_clock w)"
proof -
  have now: "w_now w < 2 ^ 63" using ok by (auto simp: events_ready_def intro: less_trans)
  obtain w' where w': "clock_startAt e t w = Inr w'" "clock_rep (w_now w) (w_clock w') (place_event (w_now w) (tm (w_clock w')) e xs)"
    "tm (w_clock w') = (tm (w_clock w))(e := t)" "same_run w w'"
    using clock_startAt_rep [of w xs e t] r now t(2) by (auto simp: queue_ready_def)
  have s: "settings (w_clock w') = settings (w_clock w)" "w_now w' = w_now w"
    using clock_startAt_settings [OF w'(1)] by simp_all
  have "tm (w_clock w') e = t" using fun_cong [OF w'(3), of e] by simp
  then have qe: "queued (ev_of w' e)" using w'(2) t(1) by (simp add: clock_rep_def flags_ok_def)
  have "queued (ev_of w' x)" if "x \<in> set xs" for x
  proof -
    obtain calls c' where "startAt (w_now w) e t (w_clock w) = Inr (c', calls)" "w_clock w' = c'"
      using w'(1) by (auto simp: clock_startAt_def on_clock_def bindR_eq_Inr)
    then show ?thesis using startAt_flags [of "w_now w" e t "w_clock w" c' calls x] r that by (auto simp: queue_ready_def)
  qed
  then have "queue_ready (w_now w') (w_clock w') (place_event (w_now w) (tm (w_clock w')) e xs)"
    using qe w'(2) s(2) by (simp add: queue_ready_def)
  then have "events_ready w'" using ok s good_settings_cong [OF s(1)] by (auto simp: events_ready_def)
  then show ?thesis using w' s by blast
qed

text \<open>Changing the settings of an event that is not in the queue.\<close>

lemma configure_ready:
  assumes r: "queue_ready (w_now w) (w_clock w) xs" "e \<notin> set xs" and ok: "events_ready w"
    and f: "\<And>ev. ev_next (f ev) = ev_next ev \<and> queued (f ev) = queued ev"
    and p: "periodicSchedule (f (ev_of w e)) = None" "periodical (f (ev_of w e)) \<or> configured (f (ev_of w e)) \<Longrightarrow>
      0 < period_ms (f (ev_of w e)) \<and> period_ms (f (ev_of w e)) < 2 ^ 62"
  shows "events_ready (upd_event e f w) \<and> queue_ready (w_now w) (w_clock (upd_event e f w)) xs"
proof -
  let ?c = "upd_ev e f (w_clock w)"
  have "clock_rep (w_now w) ?c xs" using r f by (intro clock_shape_times) (auto simp: queue_ready_def)
  then have q: "queue_ready (w_now w) ?c xs" using r by (auto simp: queue_ready_def upd_ev_def)
  have g: "good_settings (w_clock w)" using ok by (simp add: events_ready_def)
  have "settings ?c x = (if x = e then settings ?c e else settings (w_clock w) x)" for x
    by (simp add: settings_def upd_ev_def)
  moreover have "case settings ?c e of (conf, per, p, sched) \<Rightarrow> sched = None \<and> (per \<or> conf \<longrightarrow> 0 < p \<and> p < 2 ^ 62)"
    using p by (simp add: settings_def upd_ev_def)
  ultimately have "good_settings ?c" using g unfolding good_settings_def by (metis (no_types, lifting))
  then show ?thesis using q ok by (auto simp: events_ready_def upd_event_def)
qed

text \<open>Starting an event after a delay, and resetting one that is triggered relative to the reset.\<close>

lemma startIn_ready:
  assumes r: "queue_ready (w_now w) (w_clock w) xs" "e \<notin> set xs" "events_ready w" and t: "0 < t" "t < 2 ^ 62"
  shows "\<exists>w'. clock_startIn e t w = Inr w' \<and> same_run w w' \<and> events_ready w'"
proof -
  have now: "w_now w < 2 ^ 62" using r(3) by (simp add: events_ready_def)
  have "unat (w_now w + t) = unat (w_now w) + unat t"
    using t now by (simp add: unat_word_ariths(1) word_less_nat_alt)
  then have "w_now w < w_now w + t" "w_now w + t < 2 ^ 63" using t now by (simp_all add: word_less_nat_alt)
  from startAt_ready [OF r this] show ?thesis
    using t(1) by (auto simp: clock_startIn_def clock_startAt_def startIn_def fun_eq_iff on_clock_def)
qed

lemma event_reset_ready:
  assumes "events_ready w"
  shows "\<exists>w'. event_reset e w = Inr w' \<and> same_run w w' \<and> events_ready w'"
proof (cases "configured (ev_of w e) \<and> \<not> periodical (ev_of w e)")
  case False
  then have "event_reset e w = Inr w" unfolding event_reset_def by (rule if_not_P)
  then show ?thesis using assms by (intro exI [of _ w]) simp
next
  case True
  obtain w1 xs where w1: "dequeue_if_queued e w = Inr w1" "same_run w w1" "events_ready w1" "w_now w1 = w_now w"
    "settings (w_clock w1) = settings (w_clock w)" "queue_ready (w_now w) (w_clock w1) xs" "e \<notin> set xs"
    using dequeue_if_ready [OF assms, of e] by blast
  have c: "configured (ev_of w1 e)" using fun_cong [OF w1(5), of e] True by (simp add: settings_def)
  then have p: "0 < period_ms (ev_of w1 e)" "period_ms (ev_of w1 e) < 2 ^ 62"
    using good_settingsD(2) [of "w_clock w1" e] w1(3) by (auto simp: events_ready_def)
  obtain w2 where w2: "clock_startIn e (period_ms (ev_of w1 e)) w1 = Inr w2" "same_run w1 w2" "events_ready w2"
    using startIn_ready [of w1 xs e] w1(3,4,6,7) p by auto
  then have "event_reset e w = Inr w2" using True w1(1) by (simp add: event_reset_def)
  then show ?thesis using w2 same_run_trans [OF w1(2) w2(2)] by blast
qed

lemma channel_reset_ready:
  assumes "events_ready w"
  shows "\<exists>w'. channel_reset c w = Inr w' \<and> same_run w w' \<and> events_ready w'"
proof (cases "ch_class (w_channels w c)")
  case PlainChannel
  then show ?thesis using assms by (intro exI [of _ w]) (simp add: channel_reset_def)
next
  case BarrierChannel
  have "events_ready (barrier_reset c w)" "same_run w (barrier_reset c w)"
    using assms by (simp_all add: barrier_reset_def events_ready_def upd_barrier_def same_run_def)
  then show ?thesis using BarrierChannel by (simp add: channel_reset_def)
next
  case EventChannel
  then show ?thesis using event_reset_ready [OF assms] by (simp add: channel_reset_def)
qed

section \<open>Tasks\<close>

lemma synchronize_done:
  assumes "typed w ins ks"
  shows "synchronize is w = Inr w"
proof (induction "is")
  case (Cons i "is")
  have "input_synchronize i w = Inr w" using typedD(3) [OF assms, of i]
    by (auto simp: input_synchronize_def channel_synchronize_def split: option.split)
  then show ?case using Cons.IH by simp
qed simp

context open_policy
begin

abbreviation ok :: "'a world \<Rightarrow> task_id list \<Rightarrow> task_id set \<Rightarrow> task_id list \<Rightarrow> bool" where
  "ok \<equiv> sound queue nextTask rep"

lemma ok_calm: "ok w ts ex ks \<Longrightarrow> calm w w' \<Longrightarrow> inv w' ts' ex' \<Longrightarrow> ok w' ts' ex' ks"
  by (simp add: sound_def calm_typed calm_ready)

lemma ok_same_run: "ok w ts ex ks \<Longrightarrow> same_run w w' \<Longrightarrow> events_ready w' \<Longrightarrow> ok w' ts ex ks"
  by (simp add: sound_def same_run_inv typed_links [OF same_run_links])

lemma channel_push_ok:
  assumes "ok w ts ex ks"
  shows "\<exists>w' ts'. channel_push c w = Inr w' \<and> ok w' ts' ex ks \<and> set ts \<subseteq> set ts'"
proof -
  obtain ins where ty: "typed w ins ks" and i: "inv w ts ex" using assms by (auto simp: sound_def)
  have "\<forall>i\<in>set (ins c). in_task (w_inputs w i) \<noteq> None" using typedD(2,3) [OF ty] by fastforce
  then obtain w' ts' where w': "channel_push c w = Inr w'" "inv w' ts' ex" "set ts \<subseteq> set ts'"
    using channel_push_inv [OF i typedD(1) [OF ty]] by blast
  then show ?thesis using ok_calm [OF assms channel_push_calm [OF w'(1)] w'(2)] by blast
qed

lemma push_ok:
  assumes "ok w ts ex ks"
  shows "\<exists>w' ts'. push c w = Inr w' \<and> ok w' ts' ex ks \<and> set ts \<subseteq> set ts'"
proof -
  have "ok (upd_barrier c f w) ts ex ks" for f
  proof (rule ok_calm [OF assms upd_barrier_calm])
    show "inv (upd_barrier c f w) ts ex" using assms by (simp add: sound_def run_inv_def upd_barrier_def)
  qed
  then show ?thesis using assms channel_push_ok unfolding push_def barrier_push_def Let_def by auto
qed

text \<open>The state of a task in its reset.\<close>

definition resetting :: "'a world \<Rightarrow> task_id \<Rightarrow> bool" where
  "resetting w t \<longleftrightarrow> state_of w t = TASK_RESET \<or> state_of w t = TASK_PENDING"

lemma input_reset_ok:
  assumes o: "ok w ts ex ks" and i: "i \<in> set (task_inputs (w_tasks w t))" and r: "resetting w t"
  shows "\<exists>w'. input_reset i w = Inr w' \<and> ok w' ts ex ks \<and> resetting w' t \<and> (\<forall>u. u \<noteq> t \<longrightarrow> state_of w' u = state_of w u) \<and>
    task_inputs (w_tasks w' t) = task_inputs (w_tasks w t)"
proof -
  have ready: "events_ready w" using o by (simp add: sound_def)
  have "\<exists>w1. (case in_channel (w_inputs w i) of None \<Rightarrow> Inr w | Some c \<Rightarrow> channel_reset c w) = Inr w1 \<and>
      same_run w w1 \<and> events_ready w1"
    using channel_reset_ready [OF ready] ready by (cases "in_channel (w_inputs w i)") auto
  then obtain w1 where w1: "(case in_channel (w_inputs w i) of None \<Rightarrow> Inr w | Some c \<Rightarrow> channel_reset c w) = Inr w1"
    "same_run w w1" "events_ready w1" by blast
  have o1: "ok w1 ts ex ks" by (rule ok_same_run [OF o w1(2,3)])
  define x where "x = fst (input_consumed (w_inputs w1 i))"
  let ?w2 = "upd_input i (\<lambda>_. x) w1"
  have calm: "calm w1 ?w2" by (auto simp: calm_def upd_input_def links_def fun_eq_iff x_def consumed_keeps)
  have o2: "ok ?w2 ts ex ks" by (rule ok_calm [OF o1 calm]) (use o1 in \<open>simp add: sound_def\<close>)
  have tasks: "w_tasks ?w2 = w_tasks w" using w1(2) by (simp add: same_run_def upd_input_def)
  obtain ins where "typed w ins ks" using o by (auto simp: sound_def)
  then have t: "in_task x = Some t" using typedD(4) i w1(2) by (simp add: x_def consumed_keeps same_run_def)
  have run: "input_reset i w = (if snd (input_consumed (w_inputs w1 i)) then activate t ?w2 else Inr ?w2)"
    by (simp add: input_reset_def w1(1) x_def [symmetric] case_prod_unfold t Let_def)
  obtain w3 ts3 where w3: "activate t ?w2 = Inr w3" "inv w3 ts3 ex" "same_net ?w2 w3"
    "state_of w3 = (state_of ?w2)(t := if task_isActivated t ?w2
        then (case state_of ?w2 t of TASK_WAIT \<Rightarrow> TASK_RUN | TASK_RESET \<Rightarrow> TASK_PENDING | s \<Rightarrow> s) else state_of ?w2 t)"
    "ts3 = (if w_running ?w2 \<and> task_isActivated t ?w2 \<and> state_of ?w2 t = TASK_WAIT then place (w_policy ?w2) t ts else ts)"
    using activate_inv [of ?w2 ts ex t] o2 by (auto simp: sound_def)
  have "state_of ?w2 t \<noteq> TASK_WAIT" using r tasks by (auto simp: resetting_def)
  then have o3: "ok w3 ts ex ks" using ok_calm [OF o2 same_net_calm [OF w3(3)] w3(2)] w3(5) by simp
  have st: "state_of w3 u = state_of w u" if "u \<noteq> t" for u using fun_cong [OF w3(4), of u] that tasks by simp
  have "resetting w3 t" using fun_cong [OF w3(4), of t] r tasks by (auto simp: resetting_def split: if_splits)
  moreover have "task_inputs (w_tasks w3 t) = task_inputs (w_tasks w t)" using same_net_fields(13) [OF w3(3)] tasks by simp
  ultimately show ?thesis using run w3(1) o3 st o2 tasks r by (auto simp: resetting_def)
qed

lemma reset_inputs_ok:
  "ok w ts ex ks \<Longrightarrow> set is \<subseteq> set (task_inputs (w_tasks w t)) \<Longrightarrow> resetting w t \<Longrightarrow>
    \<exists>w'. reset_inputs is w = Inr w' \<and> ok w' ts ex ks \<and> resetting w' t \<and> (\<forall>u. u \<noteq> t \<longrightarrow> state_of w' u = state_of w u)"
proof (induction "is" arbitrary: w)
  case (Cons i "is")
  obtain w1 where w1: "input_reset i w = Inr w1" "ok w1 ts ex ks" "resetting w1 t" "\<forall>u. u \<noteq> t \<longrightarrow> state_of w1 u = state_of w u"
    "task_inputs (w_tasks w1 t) = task_inputs (w_tasks w t)"
    using input_reset_ok [OF Cons.prems(1) _ Cons.prems(3), of i] Cons.prems(2) by auto
  then show ?case using Cons.IH [OF w1(2) _ w1(3)] Cons.prems(2) by auto
qed auto

lemma reset_end_ok:
  assumes o: "ok w ts ex ks" and r: "resetting w t"
  shows "\<exists>w' ts'. reset_end t w = Inr w' \<and> ok w' ts' ex ks \<and> (\<forall>u. u \<noteq> t \<longrightarrow> state_of w' u = state_of w u)"
proof (cases "state_of w t = TASK_PENDING \<and> task_isActivated t w")
  case True
  obtain w' ts' where w': "perform t (set_state t TASK_RUN w) = Inr w'" "inv w' ts' ex" "same_net w w'"
    "state_of w' = (state_of w)(t := TASK_RUN)"
    using perform_inv [of w ts ex t] o True by (auto simp: sound_def)
  have "state_of w' u = state_of w u" if "u \<noteq> t" for u using fun_cong [OF w'(4), of u] that by simp
  then show ?thesis using w'(1) True ok_calm [OF o same_net_calm [OF w'(3)] w'(2)] by (auto simp: reset_end_def)
next
  case False
  have "inv (set_state t TASK_WAIT w) ts ex"
    using inv_other_state [of w ts ex t TASK_WAIT] o r by (auto simp: sound_def resetting_def)
  then have "ok (set_state t TASK_WAIT w) ts ex ks" by (rule ok_calm [OF o set_state_calm])
  then show ?thesis using False by (auto simp: reset_end_def upd_task_def)
qed

lemma task_reset_ok:
  assumes "ok w ts ex0 ks" and "inv (set_state t TASK_RESET w) ts ex"
  shows "\<exists>w' ts'. task_reset t w = Inr w' \<and> ok w' ts' ex ks \<and> (\<forall>u. u \<noteq> t \<longrightarrow> state_of w' u = state_of w u)"
proof -
  let ?w1 = "set_state t TASK_RESET w"
  have o1: "ok ?w1 ts ex ks" by (rule ok_calm [OF assms(1) set_state_calm assms(2)])
  have r: "resetting ?w1 t" "\<And>u. u \<noteq> t \<Longrightarrow> state_of ?w1 u = state_of w u" by (simp_all add: resetting_def upd_task_def)
  obtain w2 where w2: "reset_inputs (task_inputs (w_tasks ?w1 t)) ?w1 = Inr w2" "ok w2 ts ex ks" "resetting w2 t"
    "\<forall>u. u \<noteq> t \<longrightarrow> state_of w2 u = state_of ?w1 u"
    using reset_inputs_ok [OF o1 subset_refl r(1)] by blast
  obtain w3 ts3 where "reset_end t w2 = Inr w3" "ok w3 ts3 ex ks" "\<forall>u. u \<noteq> t \<longrightarrow> state_of w3 u = state_of w2 u"
    using reset_end_ok [OF w2(2,3)] by blast
  then show ?thesis using w2 r(2) by (auto simp: task_reset_def)
qed

lemma reset_list_ok:
  "ok w ts ex ks \<Longrightarrow> distinct us \<Longrightarrow> \<forall>u\<in>set us. state_of w u = TASK_FINISH \<Longrightarrow>
    \<exists>w' ts'. reset_list us w = Inr w' \<and> ok w' ts' ex ks"
proof (induction us arbitrary: w ts)
  case (Cons t us)
  have "inv (set_state t TASK_RESET w) ts ex"
    using inv_other_state [of w ts ex t TASK_RESET] Cons.prems by (simp add: sound_def)
  then obtain w1 ts1 where w1: "task_reset t w = Inr w1" "ok w1 ts1 ex ks" "\<forall>u. u \<noteq> t \<longrightarrow> state_of w1 u = state_of w u"
    using task_reset_ok [OF Cons.prems(1)] by blast
  moreover have "\<forall>u\<in>set us. state_of w1 u = TASK_FINISH" using Cons.prems(2,3) w1(3) by auto
  ultimately show ?case using Cons.IH [OF w1(2)] Cons.prems(2) by auto
qed auto

lemma finalize_ok:
  assumes o: "ok w ts ex ks" and t: "t \<in> ex"
  shows "\<exists>w' ts'. finalizeExecution t w = Inr w' \<and> ok w' ts' (ex - {t}) ks"
proof (cases "task_group (w_tasks w t)")
  case None
  have "inv (set_state t TASK_RESET w) ts (ex - {t})" using taken_out [of w ts ex t TASK_RESET] o t by (simp add: sound_def)
  from task_reset_ok [OF o this] show ?thesis using None by (auto simp: finalizeExecution_def)
next
  case (Some g)
  let ?w = "set_state t TASK_FINISH w"
  have "inv ?w ts (ex - {t})" using taken_out [of w ts ex t TASK_FINISH] o t by (simp add: sound_def)
  then have o1: "ok ?w ts (ex - {t}) ks" by (rule ok_calm [OF o set_state_calm])
  then obtain ins where ty: "typed ?w ins ks" by (auto simp: sound_def)
  have "\<exists>w' ts'. group_finalizeExecution g ?w = Inr w' \<and> ok w' ts' (ex - {t}) ks"
  proof (cases "areAllExecuted (w_groups ?w g) ?w")
    case True
    then have "\<forall>u\<in>set (members (w_groups ?w g)). state_of ?w u = TASK_FINISH" by (simp add: areAllExecuted_iff)
    from reset_list_ok [OF o1 typedD(7) [OF ty] this] show ?thesis
      using True by (simp add: group_finalizeExecution_def group_reset_list)
  next
    case False
    then show ?thesis using o1 by (auto simp: group_finalizeExecution_def)
  qed
  then show ?thesis using Some by (simp add: finalizeExecution_def)
qed

text \<open>What is asked of the application's \<^verbatim>\<open>execute\<close>: it keeps the invariant, as pushes on channels do.\<close>

definition good_app :: "(task_id \<Rightarrow> 'a world \<Rightarrow> 'a world res) \<Rightarrow> task_id list \<Rightarrow> bool" where
  "good_app app ks \<longleftrightarrow> (\<forall>t w ts ex. ok w ts ex ks \<longrightarrow> (\<exists>w' ts'. app t w = Inr w' \<and> ok w' ts' ex ks))"

lemma execute_ok:
  assumes "good_app app ks" and "ok w ts ex ks" and "t \<in> ex"
  shows "\<exists>w' ts'. execute app t w = Inr w' \<and> ok w' ts' (ex - {t}) ks"
proof -
  have sy: "synchronize is v = Inr v" if "ok v us fx ks" for v us fx "is"
    using that synchronize_done by (auto simp: sound_def)
  obtain w1 ts1 where w1: "app t w = Inr w1" "ok w1 ts1 ex ks" using assms(1,2) unfolding good_app_def by blast
  show ?thesis using finalize_ok [OF w1(2) assms(3)] by (simp add: execute_def sy [OF assms(2)] w1(1) sy [OF w1(2)])
qed

end

section \<open>Events\<close>

lemma configure_same_run: "same_run w (upd_event e f w)"
  by simp

lemma trigger_ready:
  assumes "events_ready w" and t: "0 < t" "t < 2 ^ 62"
  shows "\<exists>w'. trigger_event e t w = Inr w' \<and> same_run w w' \<and> events_ready w'"
proof (cases "configured (ev_of w e)")
  case True
  then show ?thesis using assms by (intro exI [of _ w]) (simp add: trigger_event_def)
next
  case False
  obtain w1 xs where w1: "dequeue_if_queued e w = Inr w1" "same_run w w1" "events_ready w1" "w_now w1 = w_now w"
    "queue_ready (w_now w) (w_clock w1) xs" "e \<notin> set xs"
    using dequeue_if_ready [OF assms(1), of e] by blast
  obtain w2 where w2: "clock_startIn e t w1 = Inr w2" "same_run w1 w2" "events_ready w2"
    using startIn_ready [of w1 xs e t] w1(3-6) t by auto
  then have "trigger_event e t w = Inr w2" using False w1(1) t(1) by (auto simp: trigger_event_def)
  then show ?thesis using w2 same_run_trans [OF w1(2) w2(2)] by blast
qed

lemma relative_ready:
  assumes "events_ready w" and d: "0 < d" "d < 2 ^ 62"
  shows "\<exists>w'. setRelativeTiming d e w = Inr w' \<and> same_run w w' \<and> events_ready w'"
proof -
  obtain w1 xs where w1: "dequeue_if_queued e w = Inr w1" "same_run w w1" "events_ready w1" "w_now w1 = w_now w"
    "queue_ready (w_now w) (w_clock w1) xs" "e \<notin> set xs"
    using dequeue_if_ready [OF assms(1), of e] by blast
  let ?f = "\<lambda>ev. ev\<lparr>periodical := False, period_ms := d, configured := True\<rparr>"
  have s: "periodicSchedule (ev_of w1 e) = None" using w1(3) good_settingsD(1) by (auto simp: events_ready_def)
  have "events_ready (upd_event e ?f w1)"
    using configure_ready [of w1 xs e ?f] w1(3-6) d s by simp
  then show ?thesis using w1(1) same_run_trans [OF w1(2) configure_same_run [of w1 e ?f]]
    by (auto simp: setRelativeTiming_def)
qed

lemma stop_ready:
  assumes "events_ready w"
  shows "\<exists>w'. stop e w = Inr w' \<and> same_run w w' \<and> events_ready w'"
proof -
  obtain w1 xs where w1: "clock_dequeue e w = Inr w1" "same_run w w1" "events_ready w1" "w_now w1 = w_now w"
    "queue_ready (w_now w) (w_clock w1) xs" "e \<notin> set xs"
    using dequeue_ready [OF assms(1), of e] by blast
  let ?f = "\<lambda>ev. ev\<lparr>configured := False, periodicSchedule := None\<rparr>"
  have "good_settings (w_clock w1)" using w1(3) by (simp add: events_ready_def)
  then have "events_ready (upd_event e ?f w1)"
    using configure_ready [of w1 xs e ?f] w1(3-6) good_settingsD(2) by simp
  then show ?thesis using w1(1) same_run_trans [OF w1(2) configure_same_run [of w1 e ?f]]
    by (auto simp: stop_def)
qed

lemma period_ahead:
  assumes "0 < period" "period < 2 ^ 62" "now < 2 ^ 62" "offset < 2 ^ 62" "now \<noteq> offset"
  shows "now < next_period now period offset \<and> next_period now period offset < 2 ^ 63"
proof (cases "now > offset")
  case True
  have b: "unat now + unat period < 2 ^ 63" using assms(2,3) by (simp add: word_less_nat_alt)
  then have "now < next_period now period offset" "unat (next_period now period offset) \<le> unat now + unat period"
    using next_period_next [OF assms(1), of now offset] True by simp_all
  then show ?thesis using b by (simp add: word_less_nat_alt)
next
  case False
  then have "now < offset" using assms(5) by simp
  then show ?thesis using assms(4) by (auto simp: next_period_def intro: less_trans)
qed

lemma periodic_ready:
  assumes "events_ready w" and p: "0 < period" "period < 2 ^ 62" "offset < 2 ^ 62" "w_now w \<noteq> offset"
  shows "\<exists>w'. setPeriodicTiming period offset e w = Inr w' \<and> same_run w w' \<and> events_ready w'"
proof -
  obtain w1 xs where w1: "dequeue_if_queued e w = Inr w1" "same_run w w1" "events_ready w1" "w_now w1 = w_now w"
    "queue_ready (w_now w) (w_clock w1) xs" "e \<notin> set xs"
    using dequeue_if_ready [OF assms(1), of e] by blast
  let ?t = "next_period (w_now w) period offset"
  let ?f = "\<lambda>ev. ev\<lparr>period_ms := period, nextActivation_ms := ?t, periodical := period > 0, configured := period > 0\<rparr>"
  let ?g = "\<lambda>ev. ev\<lparr>periodicSchedule := None\<rparr>"
  have now: "w_now w < 2 ^ 62" using assms(1) by (simp add: events_ready_def)
  have s: "periodicSchedule (ev_of w1 e) = None" using w1(3) good_settingsD(1) by (auto simp: events_ready_def)
  have w2: "events_ready (upd_event e ?f w1)" "queue_ready (w_now w) (w_clock (upd_event e ?f w1)) xs"
    using configure_ready [of w1 xs e ?f] w1(3-6) p s by auto
  have ev: "period_ms (ev_of (upd_event e ?f w1) e) = period" "w_now (upd_event e ?f w1) = w_now w"
    using w1(4) by (simp_all add: upd_event_def)
  let ?w3 = "upd_event e ?g (upd_event e ?f w1)"
  have w3: "events_ready ?w3" "queue_ready (w_now w) (w_clock ?w3) xs"
    using configure_ready [of "upd_event e ?f w1" xs e ?g] w1(6) w2 ev p by auto
  have now3: "w_now ?w3 = w_now w" "nextActivation_ms (ev_of ?w3 e) = ?t" using w1(4) by (simp_all add: upd_event_def)
  have conf: "configurePeriodicTiming period offset e w1 = upd_event e ?f w1" using w1(4) by (simp add: configurePeriodicTiming_def)
  obtain w4 where w4: "clock_startAt e ?t ?w3 = Inr w4" "same_run ?w3 w4" "events_ready w4"
    using startAt_ready [of ?w3 xs e ?t] w3 w1(6) period_ahead [OF p(1,2) now p(3,4)] now3 by auto
  have "setPeriodicTiming period offset e w = Inr w4"
    unfolding setPeriodicTiming_def w1(1) bindR_Inr conf Let_def now3(2) by (rule w4(1))
  moreover have "same_run w w4"
    using same_run_trans [OF w1(2) same_run_trans [OF same_run_upd(2) same_run_trans [OF same_run_upd(2) w4(2)]]] .
  ultimately show ?thesis using w4(3) by blast
qed

context open_policy
begin

lemma handleEvents_ok:
  assumes "ok w ts ex ks"
  shows "\<exists>w' ts'. handleEvents w = Inr w' \<and> ok w' ts' ex ks \<and> set ts \<subseteq> set ts'"
proof -
  obtain ins where ty: "typed w ins ks" and i: "inv w ts ex" and r: "events_ready w" using assms by (auto simp: sound_def)
  obtain xs where xs: "clock_rep (w_now w) (w_clock w) xs" and now: "w_now w < 2 ^ 62" and g: "good_settings (w_clock w)"
    using r by (auto simp: events_ready_def queue_ready_def)
  have ev: "event_ok w ins e" for e
  proof -
    have "0 < period_ms (ev_of w e) \<and> unat (w_now w) + unat (period_ms (ev_of w e)) < 2 ^ 63" if "periodical (ev_of w e)"
      using good_settingsD(2) [OF g, of e] that now by (simp add: word_less_nat_alt)
    moreover have "\<forall>i\<in>set (ins e). in_task (w_inputs w i) \<noteq> None" using typedD(2,3) [OF ty] by fastforce
    ultimately show ?thesis using good_settingsD(1) [OF g] typedD(1) [OF ty] by (simp add: event_ok_def)
  qed
  have sep: "separate ins (set xs)" using typedD(2) [OF ty] by (fastforce simp: separate_def)
  have now': "w_now w < 2 ^ 63" using now by (auto intro: less_trans)
  obtain w' ts' ys where h: "handle_loop w = Some (Inr w')" "inv w' ts' ex" "set ts \<subseteq> set ts'" "handled_all ins (set xs) w xs w' ys"
    using handle_loop_ends [OF i xs now' subset_refl sep _ refl] ev by blast
  have k: "w_now w' = w_now w" "settings (w_clock w') = settings (w_clock w)" "links w' = links w"
    "clock_rep (w_now w) (w_clock w') ys" "\<forall>e\<in>set ys. w_now w < tm (w_clock w') e"
    using h(4) by (auto simp: handled_all_def)
  then have "queue_ready (w_now w') (w_clock w') ys" by (auto simp: queue_ready_def clock_rep_def flags_ok_def)
  then have "events_ready w'" using now g k(1) good_settings_cong [OF k(2)] by (auto simp: events_ready_def)
  then have "ok w' ts' ex ks" using h(2) ty typed_links [OF k(3)] by (auto simp: sound_def)
  then show ?thesis using h(1,3) by (auto simp: handleEvents_def)
qed

end

section \<open>Runs of an application\<close>

text \<open>
  What happens to a running application, one act after the other: a push on a channel, an executor
  that takes a task and executes it, the pending events, time that passes, and the calls that
  start and stop events.
\<close>

datatype act = Push channel_id | Execute | Handle | Tick time | Periodic event_id time time | Relative event_id time
  | Trigger event_id time | Stop event_id

definition execute_next :: "(task_id \<Rightarrow> 'p world \<Rightarrow> 'p world res) \<Rightarrow> 'p world \<Rightarrow> 'p world res" where
  "execute_next app w =
     bindR (pol_nextTask (w_ops w) (w_policy w))
       (\<lambda>(p, r). case r of None \<Rightarrow> Inr (w\<lparr>w_policy := p\<rparr>) | Some t \<Rightarrow> execute app t (w\<lparr>w_policy := p\<rparr>))"

fun do_act :: "(task_id \<Rightarrow> 'p world \<Rightarrow> 'p world res) \<Rightarrow> act \<Rightarrow> 'p world \<Rightarrow> 'p world res" where
  "do_act app (Push c) w = push c w"
| "do_act app Execute w = execute_next app w"
| "do_act app Handle w = handleEvents w"
| "do_act app (Tick d) w = Inr (w\<lparr>w_now := w_now w + d\<rparr>)"
| "do_act app (Periodic e period offset) w = setPeriodicTiming period offset e w"
| "do_act app (Relative e delay) w = setRelativeTiming delay e w"
| "do_act app (Trigger e t) w = trigger_event e t w"
| "do_act app (Stop e) w = stop e w"

text \<open>Times stay in the range, periods and delays are not 0, and a periodic event does not start at once.\<close>

fun act_ok :: "act \<Rightarrow> 'p world \<Rightarrow> bool" where
  "act_ok (Tick d) w \<longleftrightarrow> unat (w_now w) + unat d < 2 ^ 62"
| "act_ok (Periodic e period offset) w \<longleftrightarrow> 0 < period \<and> period < 2 ^ 62 \<and> offset < 2 ^ 62 \<and> w_now w \<noteq> offset"
| "act_ok (Relative e delay) w \<longleftrightarrow> 0 < delay \<and> delay < 2 ^ 62"
| "act_ok (Trigger e t) w \<longleftrightarrow> t < 2 ^ 62"
| "act_ok a w \<longleftrightarrow> True"

text \<open>The application's tasks push on channels: task \<open>t\<close> on \<open>outs t\<close>.\<close>

fun push_list :: "channel_id list \<Rightarrow> 'p world \<Rightarrow> 'p world res" where
  "push_list [] w = Inr w"
| "push_list (c # cs) w = bindR (push c w) (push_list cs)"

inductive running :: "'p policy_ops \<Rightarrow> 'p \<Rightarrow> (task_id \<Rightarrow> channel_id list) \<Rightarrow> 'p world \<Rightarrow> task_id list \<Rightarrow> bool" for ops p outs where
  r_start: "set_up ops p w ks \<Longrightarrow> start True w = Inr w' \<Longrightarrow> running ops p outs w' ks"
| r_act: "running ops p outs w ks \<Longrightarrow> act_ok a w \<Longrightarrow> do_act (\<lambda>t. push_list (outs t)) a w = Inr w' \<Longrightarrow> running ops p outs w' ks"

lemma tick_ready:
  assumes "events_ready w" and "unat (w_now w) + unat d < 2 ^ 62"
  shows "events_ready (w\<lparr>w_now := w_now w + d\<rparr>)"
proof -
  have "unat (w_now w + d) = unat (w_now w) + unat d" using assms(2) by (simp add: unat_word_ariths(1))
  then have "w_now w \<le> w_now w + d" "w_now w + d < 2 ^ 62" using assms(2) by (simp_all add: word_le_nat_alt word_less_nat_alt)
  then show ?thesis using assms(1) clock_rep_later [of "w_now w" "w_clock w" _ "w_now w + d"]
    unfolding events_ready_def queue_ready_def by auto
qed

context open_policy
begin

lemma push_list_ok: "ok w ts ex ks \<Longrightarrow> \<exists>w' ts'. push_list cs w = Inr w' \<and> ok w' ts' ex ks"
proof (induction cs arbitrary: w ts)
  case (Cons c cs)
  then obtain w1 ts1 where "push c w = Inr w1" "ok w1 ts1 ex ks" using push_ok [OF Cons.prems] by blast
  then show ?case using Cons.IH by auto
qed auto

lemma execute_next_ok:
  assumes app: "good_app app ks" and o: "ok w ts {} ks"
  shows "\<exists>w' ts'. execute_next app w = Inr w' \<and> ok w' ts' {} ks"
proof -
  have i: "inv w ts {}" using o by (simp add: sound_def)
  then obtain p where p: "pol_nextTask (w_ops w) (w_policy w) = Inr (p, firstp ts)"
    using nextTask_step by (fastforce simp: run_inv_def)
  let ?w = "w\<lparr>w_policy := p\<rparr>"
  have calm: "calm w ?w" by (simp add: calm_def links_def)
  show ?thesis
  proof (cases ts)
    case Nil
    then have "ok ?w [] {} ks" using take_inv [OF i p] ok_calm [OF o calm] by simp
    then show ?thesis using p Nil by (auto simp: execute_next_def)
  next
    case (Cons t us)
    then have "ok ?w us {t} ks" using take_inv [OF i p] ok_calm [OF o calm] by simp
    then show ?thesis using execute_ok [OF app, of ?w us "{t}" t] p Cons by (auto simp: execute_next_def)
  qed
qed

lemma trigger_now_ok:
  assumes o: "ok w ts {} ks"
  shows "\<exists>w' ts'. trigger_event e 0 w = Inr w' \<and> ok w' ts' {} ks"
proof (cases "configured (ev_of w e)")
  case True
  then show ?thesis using o by (auto simp: trigger_event_def)
next
  case False
  have r: "events_ready w" using o by (simp add: sound_def)
  obtain w1 where w1: "dequeue_if_queued e w = Inr w1" "same_run w w1" "events_ready w1"
    using dequeue_if_ready [OF r, of e] by blast
  have o1: "ok w1 ts {} ks" by (rule ok_same_run [OF o w1(2,3)])
  then show ?thesis using channel_push_ok [OF o1, of e] w1(1) False by (cases "shallFire e w1") (auto simp: trigger_event_def)
qed

lemma do_act_ok:
  assumes app: "good_app app ks" and o: "ok w ts {} ks" and a: "act_ok a w"
  shows "\<exists>w' ts'. do_act app a w = Inr w' \<and> ok w' ts' {} ks"
proof -
  have r: "events_ready w" using o by (simp add: sound_def)
  note same = ok_same_run [OF o]
  show ?thesis
  proof (cases a)
    case (Push c)
    then show ?thesis using push_ok [OF o, of c] by auto
  next
    case Execute
    then show ?thesis using execute_next_ok [OF app o] by simp
  next
    case Handle
    then show ?thesis using handleEvents_ok [OF o] by auto
  next
    case (Tick d)
    then show ?thesis using same [OF _ tick_ready [OF r, of d]] a by auto
  next
    case (Periodic e period offset)
    then show ?thesis using periodic_ready [OF r] same a by fastforce
  next
    case (Relative e delay)
    then show ?thesis using relative_ready [OF r] same a by fastforce
  next
    case (Trigger e t)
    show ?thesis
    proof (cases "t = 0")
      case True
      then show ?thesis using trigger_now_ok [OF o] Trigger by simp
    next
      case False
      then show ?thesis using trigger_ready [OF r, of t e] same a Trigger by (auto simp: word_gt_0)
    qed
  next
    case (Stop e)
    then show ?thesis using stop_ready [OF r] same by fastforce
  qed
qed

end

section \<open>The start\<close>

lemma input_reset_links: "input_reset i w = Inr w' \<Longrightarrow> links w' = links w"
proof -
  assume r: "input_reset i w = Inr w'"
  then obtain w1 where w1: "(case in_channel (w_inputs w i) of None \<Rightarrow> Inr w | Some c \<Rightarrow> channel_reset c w) = Inr w1"
    by (auto simp: input_reset_def bindR_eq_Inr)
  have l1: "links w1 = links w"
  proof (cases "in_channel (w_inputs w i)")
    case (Some c)
    then show ?thesis using w1 same_run_links [OF same_run_channel_reset [of c w w1]] by simp
  qed (use w1 in auto)
  let ?w2 = "upd_input i (\<lambda>_. fst (input_consumed (w_inputs w1 i))) w1"
  have l2: "links ?w2 = links w1" by (auto simp: upd_input_def links_def fun_eq_iff consumed_keeps)
  have "input_reset i w = (if snd (input_consumed (w_inputs w1 i))
      then deref (in_task (fst (input_consumed (w_inputs w1 i)))) (\<lambda>t. activate t ?w2) else Inr ?w2)"
    by (simp add: input_reset_def w1 case_prod_unfold Let_def)
  then consider "w' = ?w2" | t where "activate t ?w2 = Inr w'"
    using r by (auto simp: deref_def split: if_splits option.splits)
  then have "links w' = links ?w2"
  proof cases
    case (2 t)
    then have "calm ?w2 w'" using activate_net same_net_calm by blast
    then show ?thesis by (simp add: calm_def)
  qed simp
  then show "links w' = links w" using l1 l2 by simp
qed

lemma reset_inputs_links: "reset_inputs is w = Inr w' \<Longrightarrow> links w' = links w"
  by (induction "is" arbitrary: w) (auto simp: bindR_eq_Inr dest: input_reset_links)

lemma set_state_links: "links (set_state t s w) = links w"
  using set_state_calm [of w t s] by (simp add: calm_def)

lemma task_reset_links: "task_reset t w = Inr w' \<Longrightarrow> links w' = links w"
proof -
  assume r: "task_reset t w = Inr w'"
  then obtain w1 where w1: "reset_inputs (task_inputs (w_tasks (set_state t TASK_RESET w) t)) (set_state t TASK_RESET w) = Inr w1"
    "reset_end t w1 = Inr w'" by (auto simp: task_reset_def bindR_eq_Inr Let_def)
  have "links w' = links w1"
  proof (cases "state_of w1 t = TASK_PENDING \<and> task_isActivated t w1")
    case True
    then have "perform t (set_state t TASK_RUN w1) = Inr w'" using w1(2) by (simp add: reset_end_def)
    then have "calm (set_state t TASK_RUN w1) w'" using perform_net same_net_calm by blast
    then show ?thesis using set_state_links [of t TASK_RUN w1] by (simp add: calm_def)
  next
    case False
    then have "w' = set_state t TASK_WAIT w1" using w1(2) by (auto simp: reset_end_def)
    then show ?thesis using set_state_links by simp
  qed
  then show "links w' = links w" using reset_inputs_links [OF w1(1)] by (simp add: set_state_links)
qed

context open_policy
begin

lemma start_loop_ok:
  "ok w ts {} ks \<Longrightarrow> chain (\<lambda>t. nextTaskAtScheduler (w_tasks w t)) p us \<Longrightarrow> \<forall>u\<in>set us. state_of w u = TASK_FINISH \<Longrightarrow>
    \<exists>w' ts'. for_ptr (\<lambda>w t. True) (\<lambda>w t. nextTaskAtScheduler (w_tasks w t)) task_reset p w = Inr (None, w') \<and> ok w' ts' {} ks"
proof (induction us arbitrary: w ts p)
  case (Cons t us)
  have p: "p = Some t" and c: "chain (\<lambda>t. nextTaskAtScheduler (w_tasks w t)) (nextTaskAtScheduler (w_tasks w t)) us"
    using Cons.prems(2) by auto
  have t: "t \<notin> set us" using chain_distinct [OF Cons.prems(2)] by simp
  have "inv (set_state t TASK_RESET w) ts {}"
    using inv_other_state [of w ts "{}" t TASK_RESET] Cons.prems(1,3) by (simp add: sound_def)
  then obtain w1 ts1 where w1: "task_reset t w = Inr w1" "ok w1 ts1 {} ks" "\<forall>u. u \<noteq> t \<longrightarrow> state_of w1 u = state_of w u"
    using task_reset_ok [OF Cons.prems(1)] by blast
  have n: "nextTaskAtScheduler (w_tasks w1 u) = nextTaskAtScheduler (w_tasks w u)" for u
    using links_fields(6) [OF task_reset_links [OF w1(1)]] .
  have "\<forall>u\<in>set us. state_of w1 u = TASK_FINISH" using Cons.prems(3) w1(3) t by auto
  moreover have "chain (\<lambda>t. nextTaskAtScheduler (w_tasks w1 t)) (nextTaskAtScheduler (w_tasks w1 t)) us" using c by (simp add: n)
  ultimately show ?case using Cons.IH [OF w1(2)] by (simp add: p for_ptr_Some w1(1))
qed auto

lemma start_ok:
  assumes s: "set_up \<lparr>pol_queue = queue, pol_nextTask = nextTask\<rparr> p w ks" and p: "rep p []"
  shows "\<exists>w' ts. start True w = Inr w' \<and> ok w' ts {} ks"
proof -
  have r: "at_rest \<lparr>pol_queue = queue, pol_nextTask = nextTask\<rparr> p w" using s by (rule set_up_rest)
  obtain ins where ty: "typed w ins ks" using set_up_type [OF s] by blast
  let ?w = "w\<lparr>w_running := True\<rparr>"
  have "inv ?w [] {}" using r p by (simp add: at_rest_def fresh_def run_inv_def)
  moreover have "typed ?w ins ks" using ty typed_links [of ?w w] by (simp add: links_def)
  moreover have "events_ready ?w"
    using r clock_rep_init by (auto simp: at_rest_def events_ready_def queue_ready_def good_settings_def settings_def
      clock_init_def event_init_def intro!: exI [of _ "[]"])
  ultimately have o: "ok ?w [] {} ks" by (auto simp: sound_def)
  have "\<forall>u\<in>set ks. state_of ?w u = TASK_FINISH" using r by (simp add: at_rest_def fresh_def)
  moreover have "chain (\<lambda>t. nextTaskAtScheduler (w_tasks ?w t)) (associatedTasks w) ks" using typedD(5) [OF ty] by simp
  ultimately show ?thesis using start_loop_ok [OF o] by (fastforce simp: start_def)
qed

lemma good_pushes: "good_app (\<lambda>t. push_list (outs t)) ks"
  using push_list_ok by (auto simp: good_app_def)

lemma running_ok:
  assumes "running ops p outs w ks" and "ops = \<lparr>pol_queue = queue, pol_nextTask = nextTask\<rparr>" and "rep p []"
  shows "\<exists>ts. ok w ts {} ks"
  using assms(1)
proof (induction rule: running.induct)
  case (r_start w ks w')
  then show ?case using start_ok assms(2,3) by fastforce
next
  case (r_act w ks a w')
  then obtain ts where "ok w ts {} ks" by blast
  from do_act_ok [OF good_pushes this r_act.hyps(2), of outs] show ?case using r_act.hyps(3) by auto
qed

end

section \<open>Properties\<close>

text \<open>C2: After any set-up, the start succeeds; and after the start and any sequence of the acts below, the object graph is
  typed and every further such act succeeds: no null pointer is followed, no assertion fails and every loop ends. The acts are: a
  push on any channel; an executor that takes the next task and executes it, where \<^verbatim>\<open>execute\<close> pushes on any list of channels; the
  handling of the pending events; time that passes, while the clock stays below 2 to the 62; an event stopped; an event triggered at once or
  after a delay below 2 to the 62; an event set to a relative timing with a delay that is not 0; and an event set to a periodic timing
  with a period that is not 0 and an offset that is not the present time (each below 2 to the 62). So events with schedules of
  triggers are left out, as are timings with a delay or period of 0 or for the very present time: such a start can leave the event in
  the queue, due and without its flag, and then a second start of it makes the queue a loop. This holds for every policy that meets the contract
  of a run queue, is empty at the start and accepts every task that does not wait.\<close>
theorem framework_never_faults:
  assumes "open_policy q nt rep place adm" and "rep p []"
  shows "(set_up \<lparr>pol_queue = q, pol_nextTask = nt\<rparr> p w ks \<longrightarrow> (\<exists>w'. start True w = Inr w')) \<and>
    (running \<lparr>pol_queue = q, pol_nextTask = nt\<rparr> p outs w ks \<longrightarrow>
      (\<exists>ins. typed w ins ks) \<and> (\<forall>a. act_ok a w \<longrightarrow> (\<exists>w'. do_act (\<lambda>t. push_list (outs t)) a w = Inr w')))"
proof (intro conjI impI)
  assume "set_up \<lparr>pol_queue = q, pol_nextTask = nt\<rparr> p w ks"
  then show "\<exists>w'. start True w = Inr w'" using open_policy.start_ok [OF assms(1) _ assms(2)] by blast
next
  assume "running \<lparr>pol_queue = q, pol_nextTask = nt\<rparr> p outs w ks"
  from open_policy.running_ok [OF assms(1) this refl assms(2)] obtain ts where o: "sound q nt rep w ts {} ks" by blast
  then show "\<exists>ins. typed w ins ks" by (simp add: sound_def)
  show "\<forall>a. act_ok a w \<longrightarrow> (\<exists>w'. do_act (\<lambda>t. push_list (outs t)) a w = Inr w')"
    using open_policy.do_act_ok [OF assms(1) open_policy.good_pushes [OF assms(1)] o] by blast
qed

text \<open>An event and a task with one input.\<close>

definition small_app :: "fifo_policy world" where
  "small_app = task_construct 5 (task_create 5 9 [2] (event_create 7 0 (world_init fifo_ops fifo_init)))"

theorem framework_never_faults_witness:
  "\<exists>w1 w2 w3. running fifo_ops fifo_init (\<lambda>t. [7]) w1 [5] \<and>
    do_act (\<lambda>t. push_list [7]) (Relative 7 10) w1 = Inr w2 \<and> do_act (\<lambda>t. push_list [7]) Execute w2 = Inr w3"
proof -
  note faultless = framework_never_faults [OF fifo_open.open_policy_axioms fifo_rep_init, folded fifo_ops_def]
  have s0: "set_up fifo_ops fifo_init (event_create 7 0 (world_init fifo_ops fifo_init)) []"
    by (rule su_event [OF su_init]) (simp add: world_init_def input_init_def)
  have s1: "set_up fifo_ops fifo_init small_app [5]" unfolding small_app_def
    by (rule su_task [OF s0]) (simp_all add: event_create_def channel_create_def upd_channel_def upd_event_def world_init_def input_init_def Let_def)
  obtain w1 where w1: "start True small_app = Inr w1" using faultless [of small_app "[5]"] s1 by blast
  have r: "running fifo_ops fifo_init (\<lambda>t. [7]) w1 [5]" by (rule r_start [OF s1 w1])
  have a: "act_ok (Relative 7 10) w1" "act_ok Execute w" for w by simp_all
  obtain w2 where w2: "do_act (\<lambda>t. push_list [7]) (Relative 7 10) w1 = Inr w2"
    using faultless [of w1 "[5]" "\<lambda>t. [7]"] r a(1) by blast
  have "running fifo_ops fifo_init (\<lambda>t. [7]) w2 [5]" by (rule r_act [OF r a(1) w2])
  then obtain w3 where "do_act (\<lambda>t. push_list [7]) Execute w2 = Inr w3"
    using faultless [of w2 "[5]" "\<lambda>t. [7]"] a(2) by blast
  then show ?thesis using r w2 by blast
qed

end
