(* ===== verification/TestBench.thy ===== *)
theory TestBench
  imports UnitTestScheduler PolicyLifo
begin

text \<open>
  The bench for the unit tests of the repository (\<^verbatim>\<open>test\<close>, \<^verbatim>\<open>channels/test\<close>): a test is a list
  of calls and expectations, which a function for the component under test executes on a fixture. The
  theories that follow translate the tests and run them on the model, so that the model is held against
  what the tests expect of the code. Tests that overload a virtual method of a channel, of an event or
  \<^verbatim>\<open>Task::reset\<close> to count its calls are not among them, because these methods are fixed in the model.
\<close>

section \<open>Running a test\<close>

text \<open>A call answers with the new state and whether the expectation holds; a fault fails the test.\<close>

fun run_test :: "('c \<Rightarrow> 's \<Rightarrow> ('s \<times> bool) res) \<Rightarrow> 'c list \<Rightarrow> 's \<Rightarrow> bool" where
  "run_test ex [] s = True"
| "run_test ex (c # cs) s = (case ex c s of Inl e \<Rightarrow> False | Inr (s', b) \<Rightarrow> b \<and> run_test ex cs s')"

text \<open>A string literal: its characters and the terminating zero.\<close>

definition c_string :: "string \<Rightarrow> byte list" where
  "c_string s = map of_char s @ [0]"

section \<open>Calls and expectations on tasks, inputs, channels and events\<close>

text \<open>
  First the constructors and the configuration, then the calls, then the expectations. Objects are
  numbered. \<open>NewArray\<close> is the implementation of a task around an array of inputs that the test holds itself;
  it is not known to the scheduler.
\<close>

type_synonym 'p action = "'p world \<Rightarrow> ('p world \<times> bool) res"

text \<open>The tasks of the tests count their calls of \<^verbatim>\<open>execute\<close> and of \<^verbatim>\<open>initialize\<close>, here in counters apart
  from the barriers of the test.\<close>

definition calls_of :: "task_id \<Rightarrow> channel_id" where "calls_of t = 1000 + t"
definition initializations_of :: "task_id \<Rightarrow> channel_id" where "initializations_of t = 2000 + t"

definition count_calls :: "task_id \<Rightarrow> 'p world \<Rightarrow> 'p world res" where
  "count_calls t w = Inr (barrier_increase 1 (calls_of t) w)"

definition count_initializations :: "task_id \<Rightarrow> 'p world \<Rightarrow> 'p world res" where
  "count_initializations t w = Inr (barrier_increase 1 (initializations_of t) w)"

text \<open>A call that returns nothing, and a call whose result the test ignores.\<close>

definition call :: "'p world res \<Rightarrow> ('p world \<times> bool) res" where
  "call r = bindR r (\<lambda>w. Inr (w, True))"

definition ignore :: "('p world \<times> bool) res \<Rightarrow> ('p world \<times> bool) res" where
  "ignore r = bindR r (\<lambda>(w, _). Inr (w, True))"

text \<open>Constructors.\<close>

definition NewTask :: "task_id \<Rightarrow> id32 \<Rightarrow> input_id list \<Rightarrow> 'p action" where
  "NewTask t n is w = Inr (task_construct t (task_create t n is w), True)"

definition NamedTask :: "task_id \<Rightarrow> string \<Rightarrow> input_id list \<Rightarrow> 'p action" where
  "NamedTask t s is w =
     call (bindR (task_create_named t (Some (c_string s)) is w) (\<lambda>w1. Inr (task_construct t w1)))"

definition NewArray :: "task_id \<Rightarrow> input_id list \<Rightarrow> 'p action" where
  "NewArray t is w =
     Inr (upd_task t (\<lambda>x. x\<lparr>m_state := TASK_FINISH, task_inputs := is\<rparr>) w, True)"

definition NewChannel :: "channel_id \<Rightarrow> id32 \<Rightarrow> 'p action" where
  "NewChannel c n w = Inr (channel_create c PlainChannel n w, True)"

definition NamedChannel :: "channel_id \<Rightarrow> string \<Rightarrow> 'p action" where
  "NamedChannel c s w = call (channel_create_named c PlainChannel (Some (c_string s)) w)"

definition NewBarrier :: "channel_id \<Rightarrow> uint \<Rightarrow> 'p action" where
  "NewBarrier c n w = Inr (barrier_create c n w, True)"

definition NewEvent :: "event_id \<Rightarrow> 'p action" where
  "NewEvent e w = Inr (event_create e 0 w, True)"

definition NamedEvent :: "event_id \<Rightarrow> string \<Rightarrow> 'p action" where
  "NamedEvent e s w = call (event_create_named e (Some (c_string s)) w)"

definition NewTrigger :: "channel_id \<Rightarrow> time \<Rightarrow> 'p action" where
  "NewTrigger c t w =
     (let w1 = channel_create c PlainChannel 0 w in Inr (w1\<lparr>w_triggers := (w_triggers w1)(c := trigger_init t)\<rparr>, True))"

definition NewGroup :: "group_id \<Rightarrow> nat \<Rightarrow> 'p action" where
  "NewGroup g n w = Inr (group_create g n w, True)"

text \<open>Configuration.\<close>

definition Configure :: "input_id \<Rightarrow> uint \<Rightarrow> bool \<Rightarrow> 'p action" where
  "Configure i n f w = Inr (upd_input i (input_configure n f) w, True)"

definition ConfigureWith :: "input_id \<Rightarrow> channel_id \<Rightarrow> uint \<Rightarrow> bool \<Rightarrow> 'p action" where
  "ConfigureWith i c n f w = call (input_configureChannel c n f i w)"

definition Synchron :: "input_id \<Rightarrow> bool \<Rightarrow> 'p action" where
  "Synchron i b w = Inr (upd_input i (setSynchron b) w, True)"

definition ConnectInput :: "input_id \<Rightarrow> task_id \<Rightarrow> 'p action" where
  "ConnectInput i t w = Inr (upd_input i (input_connectTask t) w, True)"

definition ConnectTask :: "task_id \<Rightarrow> 'p action" where
  "ConnectTask t w = Inr (task_construct t w, True)"

definition SetCondition :: "task_id \<Rightarrow> activation_condition \<Rightarrow> 'p action" where
  "SetCondition t f w = Inr (setCondition t f w, True)"

definition ConfigureInput :: "task_id \<Rightarrow> nat \<Rightarrow> channel_id \<Rightarrow> 'p action" where
  "ConfigureInput t k c w = ignore (configureInput t k c w)"

definition Associate :: "input_id \<Rightarrow> channel_id \<Rightarrow> 'p action" where
  "Associate i c w = ignore (input_associate c i w)"

definition Associated :: "input_id \<Rightarrow> channel_id \<Rightarrow> bool \<Rightarrow> 'p action" where
  "Associated i c b w = bindR (input_associate c i w) (\<lambda>(w1, r). Inr (w1, r = b))"

definition Deassociate :: "input_id \<Rightarrow> 'p action" where
  "Deassociate i w = call (input_deassociate i w)"

definition Join :: "group_id \<Rightarrow> task_id \<Rightarrow> 'p action" where
  "Join g t w = Inr (group_join t g w, True)"

definition SetTaskId :: "task_id \<Rightarrow> id32 \<Rightarrow> 'p action" where
  "SetTaskId t n w = Inr (setTaskId n t w, True)"

definition SetTaskName :: "task_id \<Rightarrow> string \<Rightarrow> 'p action" where
  "SetTaskName t s w = call (setTaskName (Some (c_string s)) t w)"

definition SetChannelId :: "channel_id \<Rightarrow> id32 \<Rightarrow> 'p action" where
  "SetChannelId c n w = Inr (setChannelId n c w, True)"

definition SetChannelName :: "channel_id \<Rightarrow> string \<Rightarrow> 'p action" where
  "SetChannelName c s w = call (setChannelName (Some (c_string s)) c w)"

text \<open>Calls.\<close>

definition Push :: "channel_id \<Rightarrow> 'p action" where
  "Push c w = call (push c w)"

definition Increase :: "channel_id \<Rightarrow> uint \<Rightarrow> 'p action" where
  "Increase c n w = Inr (barrier_increase n c w, True)"

definition TaskReset :: "task_id \<Rightarrow> 'p action" where
  "TaskReset t w = call (task_reset t w)"

definition ChannelReset :: "channel_id \<Rightarrow> 'p action" where
  "ChannelReset c w = call (channel_reset c w)"

definition InputReset :: "input_id \<Rightarrow> 'p action" where
  "InputReset i w = call (input_reset i w)"

definition ArrayReset :: "task_id \<Rightarrow> 'p action" where
  "ArrayReset t w = call (reset_inputs (task_inputs (w_tasks w t)) w)"

definition Initialize :: "'p action" where
  "Initialize w = call (initialize count_initializations w)"

definition Start :: "bool \<Rightarrow> 'p action" where
  "Start b w = call (start b w)"

definition Terminate :: "bool \<Rightarrow> 'p action" where
  "Terminate b w = call (unitTest_terminate count_calls b w)"

definition Schedule :: "time \<Rightarrow> 'p action" where
  "Schedule t w = call (schedule count_calls t w)"

definition Trigger :: "event_id \<Rightarrow> time \<Rightarrow> 'p action" where
  "Trigger e t w = call (trigger_event e t w)"

definition Stop :: "event_id \<Rightarrow> 'p action" where
  "Stop e w = call (stop e w)"

definition EventReset :: "event_id \<Rightarrow> 'p action" where
  "EventReset e w = call (event_reset e w)"

definition SetPeriodic :: "event_id \<Rightarrow> time \<Rightarrow> time \<Rightarrow> 'p action" where
  "SetPeriodic e p t w = call (setPeriodicTiming p t e w)"

definition SetRelative :: "event_id \<Rightarrow> time \<Rightarrow> 'p action" where
  "SetRelative e t w = call (setRelativeTiming t e w)"

definition AddTrigger :: "nat \<Rightarrow> channel_id \<Rightarrow> 'p action" where
  "AddTrigger s c w =
     call (bindR (sortIn c (w_triggers w, w_schedules w s)) (\<lambda>(m, ps). Inr (upd_schedule s (\<lambda>_. ps) (w\<lparr>w_triggers := m\<rparr>))))"

definition SetSchedule :: "event_id \<Rightarrow> time \<Rightarrow> time \<Rightarrow> nat \<Rightarrow> 'p action" where
  "SetSchedule e p t s w = call (setPeriodicSchedule p t s e w)"

definition SetNow :: "time \<Rightarrow> 'p action" where
  "SetNow t w = Inr (w\<lparr>w_now := t\<rparr>, True)"

text \<open>Expectations.\<close>

definition Calls :: "task_id \<Rightarrow> uint \<Rightarrow> 'p action" where
  "Calls t n w = Inr (w, counter (w_barriers w (calls_of t)) = n)"

definition Initializations :: "task_id \<Rightarrow> uint \<Rightarrow> 'p action" where
  "Initializations t n w = Inr (w, counter (w_barriers w (initializations_of t)) = n)"

definition Activated :: "input_id \<Rightarrow> bool \<Rightarrow> 'p action" where
  "Activated i b w = Inr (w, input_isActivated (w_inputs w i) = b)"

definition ArrayActivated :: "task_id \<Rightarrow> bool \<Rightarrow> 'p action" where
  "ArrayActivated t b w = Inr (w, task_isActivated t w = b)"

definition Notifications :: "input_id \<Rightarrow> uint \<Rightarrow> 'p action" where
  "Notifications i n w = Inr (w, getNotifications (w_inputs w i) = n)"

definition PendingNotifications :: "input_id \<Rightarrow> uint \<Rightarrow> 'p action" where
  "PendingNotifications i n w = Inr (w, getPendingNotifications (w_inputs w i) = n)"

definition ChannelOf :: "input_id \<Rightarrow> channel_id option \<Rightarrow> 'p action" where
  "ChannelOf i x w = Inr (w, getChannel i w = x)"

definition TaskChannel :: "task_id \<Rightarrow> nat \<Rightarrow> channel_id option \<Rightarrow> 'p action" where
  "TaskChannel t k x w = Inr (w, getChannel (task_inputs (w_tasks w t) ! k) w = x)"

definition ArraySize :: "task_id \<Rightarrow> nat \<Rightarrow> 'p action" where
  "ArraySize t n w = Inr (w, length (task_inputs (w_tasks w t)) = n)"

definition TaskValid :: "task_id \<Rightarrow> bool \<Rightarrow> 'p action" where
  "TaskValid t b w = Inr (w, task_isValid t w = b)"

definition GroupValid :: "group_id \<Rightarrow> bool \<Rightarrow> 'p action" where
  "GroupValid g b w = Inr (w, group_isValid (w_groups w g) w = b)"

definition TaskIdIs :: "task_id \<Rightarrow> id32 \<Rightarrow> 'p action" where
  "TaskIdIs t n w = Inr (w, getTaskId t w = n)"

definition ChannelIdIs :: "channel_id \<Rightarrow> id32 \<Rightarrow> 'p action" where
  "ChannelIdIs c n w = Inr (w, getChannelId c w = n)"

definition Triggered :: "event_id \<Rightarrow> bool \<Rightarrow> 'p action" where
  "Triggered e b w = Inr (w, isTriggered e w = b)"

definition EventNow :: "event_id \<Rightarrow> time \<Rightarrow> 'p action" where
  "EventNow e t w = Inr (w, event_now e w = t)"

definition ClockPending :: "bool \<Rightarrow> 'p action" where
  "ClockPending b w = Inr (w, isPending (w_now w) (w_clock w) = b)"

definition FirstPending :: "event_id option \<Rightarrow> 'p action" where
  "FirstPending x w =
     bindR (readFirstPending (w_now w) (w_clock w)) (\<lambda>(c, y). Inr (w\<lparr>w_clock := c\<rparr>, x = y))"

definition NextStart :: "time \<Rightarrow> 'p action" where
  "NextStart t w =
     bindR (getNextStartTime (w_now w) (w_clock w)) (\<lambda>(c, t'). Inr (w\<lparr>w_clock := c\<rparr>, t = t'))"

definition WaitingTime :: "time \<Rightarrow> 'p action" where
  "WaitingTime t w = Inr (w, (if w_timer w = [] then 0 else last (w_timer w)) = t)"

text \<open>The tests use the LIFO policy.\<close>

type_synonym lifo_test = "lifo_policy action list"

definition world_test :: "lifo_test \<Rightarrow> bool" where
  "world_test cs = run_test (\<lambda>c w. c w) cs (world_init lifo_ops lifo_init)"

section \<open>Evaluation\<close>

lemma le_one: "(x :: time) \<le> 1 \<longleftrightarrow> x = 0 \<or> x = 1" "(y :: uint) \<le> 1 \<longleftrightarrow> y = 0 \<or> y = 1"
  by (auto simp: word_le_nat_alt word_unat_eq_iff le_Suc_eq)

lemma max_le: "(- 1 :: uint) \<le> y \<longleftrightarrow> y = - 1"
  using word_order.extremum_unique by blast

lemma upt_unfold: "[i..<numeral n] = (if i < numeral n then i # [Suc i..<numeral n] else [])"
  by (rule upt_rec)

text \<open>A continuation is evaluated only when it gets its argument, not before.\<close>

lemma eval_cong:
  "m = m' \<Longrightarrow> bindR m f = bindR m' f"
  "p = p' \<Longrightarrow> deref p g = deref p' g"
  "q = q' \<Longrightarrow> s = s' \<Longrightarrow> for_ptr test nx body q s = for_ptr test nx body q' s'"
  "r = r' \<Longrightarrow> case_prod h r = case_prod h r'"
  by simp_all

text \<open>The updates of a store are kept sorted by their address.\<close>

lemma fun_upd_sort: "(a :: nat) < b \<Longrightarrow> f(b := y, a := x) = f(a := x, b := y)"
  by (rule fun_upd_twist) simp

lemmas test_eval = fun_upd_sort clock_eval isPending_def isEmtpy_def getHeadTime_def startIn_def dequeueAll_def upt_unfold le_one max_le

lemmas action_defs = NewTask_def NamedTask_def NewArray_def NewChannel_def NamedChannel_def NewBarrier_def
  NewEvent_def NamedEvent_def NewTrigger_def NewGroup_def Configure_def ConfigureWith_def Synchron_def
  ConnectInput_def ConnectTask_def SetCondition_def ConfigureInput_def Associate_def Associated_def Deassociate_def Join_def
  SetTaskId_def SetTaskName_def SetChannelId_def SetChannelName_def Push_def Increase_def TaskReset_def
  InputReset_def ArrayReset_def Initialize_def Start_def Terminate_def Schedule_def Trigger_def Stop_def
  EventReset_def SetPeriodic_def SetRelative_def AddTrigger_def SetSchedule_def SetNow_def Calls_def
  Initializations_def Activated_def ArrayActivated_def Notifications_def PendingNotifications_def ChannelOf_def
  TaskChannel_def ArraySize_def TaskValid_def GroupValid_def TaskIdIs_def ChannelIdIs_def Triggered_def EventNow_def
  ClockPending_def FirstPending_def NextStart_def WaitingTime_def

lemmas world_eval = test_eval action_defs world_test_def call_def ignore_def
  handleEvents_def handle_loop.simps task_loop.simps schedule_loop.simps
  schedule_def step_time_def count_calls_def calls_of_def barrier_increase_def upd_barrier_def
  world_init_def task_construct_def task_create_def upd_input_def upd_task_def upd_channel_def upd_event_def add_task_def
  input_configure_def input_connectTask_def input_init_def channel_create_def barrier_create_def event_create_def
  configureInput_def input_associate_def associateTo_def setSynchron_def signal_def perform_def task_isActivated_def
  activate_def notifyInput_def channel_push_def barrier_push_def barrier_reset_def push_def
  on_clock_def do_call_def clock_dequeue_def clock_startAt_def clock_startIn_def dequeue_if_queued_def next_period_def
  configurePeriodicTiming_def setPeriodicTiming_def stop_def setRelativeTiming_def event_now_def shallFire_def
  trigger_event_def isTriggered_def event_reset_def event_handle_def channel_reset_def input_reset_def reset_end_def
  task_reset_def isExecuted_def group_finalizeExecution_def finalizeExecution_def channel_synchronize_def
  input_synchronize_def execute_def start_def terminate_scheduler_def unitTest_terminate_def
  unitTest_waitUntilEmpty_def input_isActivated_def input_isOptional_def input_isFinal_def getNotifications_def
  getPendingNotifications_def input_configureChannel_def input_deassociate_def channel_deassociate_def getChannel_def
  task_isValid_def input_isValid_def setCondition_def input_notified_def input_consumed_def array_isActivated_def uninitialized_def
  lifo_ops_def lifo_init_def lifo_queue_def lifo_nextTask_def

end
