(* ===== verification/ClockTests.thy ===== *)
theory ClockTests
  imports TestBench ClockQueue
begin

text \<open>
  The tests of the clock queue (\<^verbatim>\<open>test/testClock.cpp\<close>): those that call the operations of the clock
  on events of their own. An event is a number, given in the order in which the test creates the events.
\<close>

section \<open>The fixture\<close>

text \<open>\<^verbatim>\<open>TestClock\<close> with its clock and scheduler: \<^verbatim>\<open>now\<close> and \<^verbatim>\<open>waitingTime\<close> of the clock,
  \<^verbatim>\<open>signalCount\<close> of the scheduler.\<close>

record clock_fixture =
  t_clock :: clock
  t_now :: time
  waitingTime :: time
  signalCount :: nat

definition clock_fixture_init :: clock_fixture where
  "clock_fixture_init = \<lparr>t_clock = clock_init, t_now = 0, waitingTime = 0, signalCount = 0\<rparr>"

definition test_call :: "clock_call \<Rightarrow> clock_fixture \<Rightarrow> clock_fixture" where
  "test_call k s = (case k of SignalScheduler \<Rightarrow> s\<lparr>signalCount := Suc (signalCount s)\<rparr>
     | StartTimer timeSpan \<Rightarrow> s\<lparr>waitingTime := timeSpan\<rparr>)"

datatype clock_cmd =
    TestEvent event_id time | Enqueue event_id | EnqueueHead event_id | Dequeue event_id | DequeueAll
  | StartAt event_id time | StartIn event_id time | Now time
  | First "event_id option" | NotFirst event_id | Next event_id "event_id option" | Previous event_id "event_id option"
  | Pending bool | Is_empty bool | HeadTime time | Waiting time | Signals nat

fun clock_exec :: "clock_cmd \<Rightarrow> clock_fixture \<Rightarrow> (clock_fixture \<times> bool) res" where
  "clock_exec (TestEvent e t) s =
     Inr (s\<lparr>t_clock := upd_ev e (\<lambda>_. event_init\<lparr>nextActivation_ms := t\<rparr>) (t_clock s)\<rparr>, True)"
| "clock_exec (Enqueue e) s = bindR (enqueue (t_now s) e (t_clock s)) (\<lambda>(c, b). Inr (s\<lparr>t_clock := c\<rparr>, True))"
| "clock_exec (EnqueueHead e) s = bindR (enqueueHead e (t_clock s)) (\<lambda>c. Inr (s\<lparr>t_clock := c\<rparr>, True))"
| "clock_exec (Dequeue e) s = bindR (dequeue e (t_clock s)) (\<lambda>c. Inr (s\<lparr>t_clock := c\<rparr>, True))"
| "clock_exec DequeueAll s = bindR (dequeueAll (t_clock s)) (\<lambda>c. Inr (s\<lparr>t_clock := c\<rparr>, True))"
| "clock_exec (StartAt e t) s =
     bindR (startAt (t_now s) e t (t_clock s)) (\<lambda>(c, ks). Inr (fold test_call ks (s\<lparr>t_clock := c\<rparr>), True))"
| "clock_exec (StartIn e t) s =
     bindR (startIn (t_now s) (t_now s) e t (t_clock s)) (\<lambda>(c, ks). Inr (fold test_call ks (s\<lparr>t_clock := c\<rparr>), True))"
| "clock_exec (Now t) s = Inr (s\<lparr>t_now := t\<rparr>, True)"
| "clock_exec (First x) s =
     bindR (readFirstPending (t_now s) (t_clock s)) (\<lambda>(c, y). Inr (s\<lparr>t_clock := c\<rparr>, x = y))"
| "clock_exec (NotFirst e) s =
     bindR (readFirstPending (t_now s) (t_clock s)) (\<lambda>(c, y). Inr (s\<lparr>t_clock := c\<rparr>, Some e \<noteq> y))"
| "clock_exec (Next e x) s = Inr (s, nxt (t_clock s) e = x)"
| "clock_exec (Previous e x) s = Inr (s, prv (t_clock s) e = x)"
| "clock_exec (Pending b) s = Inr (s, isPending (t_now s) (t_clock s) = b)"
| "clock_exec (Is_empty b) s = Inr (s, isEmtpy (t_clock s) = b)"
| "clock_exec (HeadTime t) s = Inr (s, getHeadTime (t_clock s) = t)"
| "clock_exec (Waiting t) s = Inr (s, waitingTime s = t)"
| "clock_exec (Signals n) s = Inr (s, signalCount s = n)"

definition clock_test :: "clock_cmd list \<Rightarrow> bool" where
  "clock_test cs = run_test clock_exec cs clock_fixture_init"

text \<open>The events of \<open>es\<close> are read as first pending, one after the other.\<close>

abbreviation in_order :: "event_id list \<Rightarrow> clock_cmd list" where
  "in_order es \<equiv> map (\<lambda>e. First (Some e)) es"

section \<open>The tests\<close>

definition prepareFilledQueue :: "clock_cmd list" where
  "prepareFilledQueue = concat (map (\<lambda>(i, t). [TestEvent i t, Enqueue i])
     [(0, 1), (1, 1), (2, 1), (3, 3), (4, 3), (5, 3), (6, 5), (7, 5), (8, 5)])"

definition test_NoPendingEventAfterInstantiation :: "clock_cmd list" where
  "test_NoPendingEventAfterInstantiation = [Is_empty True, Pending False, HeadTime 0, First None]"

definition test_EnqueueHead :: "clock_cmd list" where
  "test_EnqueueHead =
     [TestEvent 1 0, EnqueueHead 1, Is_empty False, Pending True,
      TestEvent 2 0, EnqueueHead 2, Pending True,
      TestEvent 3 0, EnqueueHead 3, Is_empty False, Pending True, First (Some 3),
      Is_empty False, Pending True, First (Some 2), Is_empty False, Pending True, First (Some 1),
      Is_empty True, Pending False, First None]"

definition test_EnqueueHeadRunningCondition :: "clock_cmd list" where
  "test_EnqueueHeadRunningCondition =
     [TestEvent 1 1, EnqueueHead 1, Now 1, TestEvent 2 0, EnqueueHead 2, TestEvent 3 1, EnqueueHead 3,
      First (Some 3), First (Some 2), First (Some 1)]"

definition test_EnqueueByTimeOneElement :: "clock_cmd list" where
  "test_EnqueueByTimeOneElement =
     [TestEvent 1 1, Enqueue 1, Is_empty False, Pending False, HeadTime 1, Now 1, Pending True, First (Some 1),
      Pending False, HeadTime 0, TestEvent 2 2, Enqueue 2, Pending False, Now 2, Pending True, First (Some 2),
      Pending False]"

text \<open>The events 1a, 2a, 2b, 3a, 1b, 0a, 0b and 3b have the numbers 10, 20, 21, 30, 11, 0, 1 and 31.\<close>

definition test_EnqueueSeveralElements :: "clock_cmd list" where
  "test_EnqueueSeveralElements =
     [TestEvent 10 1, Enqueue 10, TestEvent 20 2, Enqueue 20, TestEvent 21 2, Enqueue 21, TestEvent 30 3, Enqueue 30,
      TestEvent 11 1, Enqueue 11, Pending False, TestEvent 0 0, Enqueue 0, Pending True,
      TestEvent 1 0, Enqueue 1, Pending True, HeadTime 0, First (Some 0), Pending True, HeadTime 0, First (Some 1),
      Pending False, HeadTime 1, Now 1, Pending True, First (Some 10), Pending True, HeadTime 1, First (Some 11),
      Pending False, HeadTime 2, Now 2, Pending True, First (Some 20), Pending True, HeadTime 2, First (Some 21),
      Pending False, HeadTime 3, Now 3, Pending True, First (Some 30), Pending False, First None, HeadTime 0,
      TestEvent 31 3, Enqueue 31, Pending True, First (Some 31), Pending False]"

definition test_dequeueAll :: "clock_cmd list" where
  "test_dequeueAll =
     [TestEvent 0 0, TestEvent 10 1, TestEvent 11 1, TestEvent 2 2, Enqueue 0, Enqueue 10, Enqueue 11, Enqueue 2,
      Pending True, DequeueAll, Pending False, Now 3, Pending False]"

definition test_dequeueHead :: "clock_cmd list" where
  "test_dequeueHead = prepareFilledQueue @
     [Dequeue 0, Next 0 None, Previous 0 None, Next 1 (Some 2), Previous 1 None, Now 10] @ in_order [1..<9]"

definition test_dequeueMidStart :: "clock_cmd list" where
  "test_dequeueMidStart = prepareFilledQueue @
     [Dequeue 3, Next 2 (Some 4), Previous 2 None, Next 3 None, Previous 3 None, Next 4 (Some 5),
      Previous 4 (Some 2), Now 10] @ in_order [0..<3] @ in_order [4..<9] @ [Pending False]"

definition test_dequeueMidMid :: "clock_cmd list" where
  "test_dequeueMidMid = prepareFilledQueue @
     [Dequeue 4, Next 3 (Some 5), Previous 3 (Some 2), Next 4 None, Previous 4 None, Next 5 (Some 6),
      Previous 5 (Some 2), Now 10] @ in_order [0..<4] @ in_order [5..<9] @ [Pending False]"

definition test_dequeueMidLast :: "clock_cmd list" where
  "test_dequeueMidLast = prepareFilledQueue @
     [Dequeue 5, Next 4 (Some 6), Previous 4 (Some 2), Next 5 None, Previous 5 None, Next 6 (Some 7),
      Previous 6 (Some 4), Now 10] @ in_order [0..<5] @ in_order [6..<9] @ [Pending False]"

definition test_dequeueTail :: "clock_cmd list" where
  "test_dequeueTail = prepareFilledQueue @
     [Dequeue 8, Next 7 None, Previous 7 (Some 5), Next 8 None, Previous 8 None, TestEvent 9 2, Enqueue 9, Now 10] @
     in_order [0..<3] @ [First (Some 9)] @ in_order [3..<8] @ [Pending False]"

definition test_startAtNow :: "clock_cmd list" where
  "test_startAtNow = [TestEvent 1 0, StartAt 1 0, Signals 1, Pending True, First (Some 1), Pending False]"

definition test_startInZeroDelay :: "clock_cmd list" where
  "test_startInZeroDelay = [TestEvent 1 0, StartIn 1 0, Signals 1, Pending True, First (Some 1), Pending False]"

definition test_startAtDelayed :: "clock_cmd list" where
  "test_startAtDelayed =
     [TestEvent 1 0, StartAt 1 1, Signals 0, Waiting 1, Pending False, First None, Now 1, Pending True, First (Some 1),
      Pending False]"

definition test_startInDelayed :: "clock_cmd list" where
  "test_startInDelayed =
     [TestEvent 1 0, StartIn 1 1, Signals 0, Waiting 1, Pending False, First None, Now 1, Pending True, First (Some 1),
      Pending False]"

definition test_startInDelayedAndAtZero :: "clock_cmd list" where
  "test_startInDelayedAndAtZero =
     [TestEvent 1 0, StartIn 1 2, Signals 0, Waiting 2, Now 1, Pending False,
      TestEvent 2 0, StartAt 2 1, Signals 1, Waiting 2, Pending True, First (Some 2), Pending False, First None,
      Now 2, Pending True, First (Some 1), Pending False]"

definition test_notQueuedTwice :: "clock_cmd list" where
  "test_notQueuedTwice =
     [TestEvent 1 0, StartIn 1 1, StartIn 1 1, Now 1, StartIn 1 1, First (Some 1), Now 2, NotFirst 1]"

definition test_notQueuedTwiceFixTime :: "clock_cmd list" where
  "test_notQueuedTwiceFixTime =
     [TestEvent 1 0, StartIn 1 1, StartIn 1 1, Now 1, StartIn 1 0, First (Some 1), Now 2, NotFirst 1]"

definition test_StartInAfterEmptyEnqueueHead :: "clock_cmd list" where
  "test_StartInAfterEmptyEnqueueHead =
     [TestEvent 1 0, EnqueueHead 1, TestEvent 2 0, StartIn 2 1, First (Some 1), Now 1, First (Some 2), First None]"

section \<open>The model passes them\<close>

lemmas clock_test_eval = clock_test_def clock_fixture_init_def test_call_def test_eval prepareFilledQueue_def

lemma clock_starts_empty: "clock_test test_NoPendingEventAfterInstantiation"
  by (simp add: test_NoPendingEventAfterInstantiation_def clock_test_eval cong: eval_cong)

lemma clock_head: "clock_test test_EnqueueHead" "clock_test test_EnqueueHeadRunningCondition"
  by (simp_all add: test_EnqueueHead_def test_EnqueueHeadRunningCondition_def clock_test_eval cong: eval_cong)

lemma clock_by_time: "clock_test test_EnqueueByTimeOneElement"
  by (simp add: test_EnqueueByTimeOneElement_def clock_test_eval cong: eval_cong)

lemma clock_several_by_time: "clock_test test_EnqueueSeveralElements"
  by (simp add: test_EnqueueSeveralElements_def clock_test_eval cong: eval_cong)

lemma clock_dequeues_all: "clock_test test_dequeueAll"
  by (simp add: test_dequeueAll_def clock_test_eval cong: eval_cong)

lemma clock_dequeues_ends:
  "clock_test test_dequeueHead" "clock_test test_dequeueTail"
  by (simp_all add: test_dequeueHead_def test_dequeueTail_def clock_test_eval cong: eval_cong)

lemma clock_dequeues_block:
  "clock_test test_dequeueMidStart" "clock_test test_dequeueMidMid"
  by (simp_all add: test_dequeueMidStart_def test_dequeueMidMid_def clock_test_eval cong: eval_cong)

lemma clock_dequeues_block_end:
  "clock_test test_dequeueMidLast"
  by (simp_all add: test_dequeueMidLast_def clock_test_eval cong: eval_cong)

lemma clock_starts:
  "clock_test test_startAtNow" "clock_test test_startInZeroDelay" "clock_test test_startAtDelayed"
  "clock_test test_startInDelayed" "clock_test test_startInDelayedAndAtZero"
  "clock_test test_StartInAfterEmptyEnqueueHead"
  by (simp_all add: test_startAtNow_def test_startInZeroDelay_def test_startAtDelayed_def test_startInDelayed_def
      test_startInDelayedAndAtZero_def test_StartInAfterEmptyEnqueueHead_def clock_test_eval cong: eval_cong)

lemma clock_queues_once: "clock_test test_notQueuedTwice" "clock_test test_notQueuedTwiceFixTime"
  by (simp_all add: test_notQueuedTwice_def test_notQueuedTwiceFixTime_def clock_test_eval cong: eval_cong)

end
