(* ===== verification/PolicyTests.thy ===== *)
theory PolicyTests
  imports TestBench PolicyFifo PolicyPriority PolicyPSlot ArchNone
begin

text \<open>
  The tests of the schedule policies (\<^verbatim>\<open>test/testSchedulePolicyFifo.cpp\<close> and its siblings) and of the
  names and of the mutex guard (\<^verbatim>\<open>test/testTaskUtils.cpp\<close>). A task is a number; its settings are part of the initial state
  of the policy.
\<close>

section \<open>Policies\<close>

datatype policy_cmd = Queue task_id | Queued task_id bool | NextTask "task_id option"

text \<open>\<open>Queue\<close> ignores what \<^verbatim>\<open>queue\<close> returns, \<open>Queued\<close> expects a value.\<close>

fun policy_exec :: "'p policy_ops \<Rightarrow> policy_cmd \<Rightarrow> 'p \<Rightarrow> ('p \<times> bool) res" where
  "policy_exec ops (Queue t) p = bindR (pol_queue ops t p) (\<lambda>(p', r). Inr (p', True))"
| "policy_exec ops (Queued t b) p = bindR (pol_queue ops t p) (\<lambda>(p', r). Inr (p', r = b))"
| "policy_exec ops (NextTask x) p = bindR (pol_nextTask ops p) (\<lambda>(p', r). Inr (p', r = x))"

definition policy_test :: "'p policy_ops \<Rightarrow> 'p \<Rightarrow> policy_cmd list \<Rightarrow> bool" where
  "policy_test ops p cs = run_test (policy_exec ops) cs p"

definition test_fifo_ordering :: "policy_cmd list" where
  "test_fifo_ordering =
     [NextTask None, Queue 1, NextTask (Some 1), NextTask None, Queue 2, Queue 3, Queue 1,
      NextTask (Some 2), NextTask (Some 3), NextTask (Some 1), NextTask None]"

definition test_lifo_ordering :: "policy_cmd list" where
  "test_lifo_ordering =
     [NextTask None, Queue 1, NextTask (Some 1), NextTask None, Queue 2, Queue 3, Queue 1,
      NextTask (Some 1), NextTask (Some 3), NextTask (Some 2)]"

text \<open>The tasks 2, 0a, 3a, 1, 3b and 0b have the numbers 20, 0, 30, 10, 31 and 1; the settings give each the
  priority that its name begins with.\<close>

definition ordering_settings :: "task_id \<Rightarrow> uint" where
  "ordering_settings t = of_nat (t div 10)"

definition test_pslot_ordering :: "policy_cmd list" where
  "test_pslot_ordering =
     [NextTask None, Queued 20 True, NextTask (Some 20), NextTask None, Queued 20 True, Queued 0 False, Queue 30,
      Queue 10, Queue 31, Queue 1, NextTask (Some 20), NextTask (Some 30), NextTask (Some 31), NextTask (Some 10),
      NextTask (Some 0), NextTask (Some 1), NextTask None]"

definition test_priority_ordering :: "policy_cmd list" where
  "test_priority_ordering =
     [NextTask None, Queued 20 True, NextTask (Some 20), NextTask None, Queued 20 True, Queued 0 False, Queue 30,
      Queue 10, Queue 31, Queue 1, NextTask (Some 30), NextTask (Some 31), NextTask (Some 20), NextTask (Some 10),
      NextTask (Some 0), NextTask (Some 1), NextTask None]"

text \<open>The tasks 1, 2a, 2b and 3 have the numbers 10, 20, 21 and 30.\<close>

definition test_pslot_provider :: "policy_cmd list" where
  "test_pslot_provider =
     [Queue 20, Queue 30, Queue 10, Queue 21, NextTask (Some 20), NextTask (Some 30), NextTask (Some 21),
      NextTask (Some 10)]"

definition test_priority_provider :: "policy_cmd list" where
  "test_priority_provider =
     [Queue 20, Queue 30, Queue 10, Queue 21, NextTask (Some 30), NextTask (Some 20), NextTask (Some 21),
      NextTask (Some 10)]"

lemma fifo_passes: "policy_test fifo_ops fifo_init test_fifo_ordering"
  by (simp add: policy_test_def test_fifo_ordering_def fifo_ops_def fifo_init_def fifo_queue_def fifo_nextTask_def Let_def cong: eval_cong)

lemma lifo_passes: "policy_test lifo_ops lifo_init test_lifo_ordering"
  by (simp add: policy_test_def test_lifo_ordering_def lifo_ops_def lifo_init_def lifo_queue_def lifo_nextTask_def Let_def cong: eval_cong)

lemma pslot_passes:
  "policy_test pslot_ops (pslot_init 3 ordering_settings) test_pslot_ordering"
  "policy_test pslot_ops (pslot_init 3 ordering_settings) test_pslot_provider"
  by code_simp+

lemma priority_passes:
  "policy_test prio_ops (prio_init ordering_settings) test_priority_ordering"
  "policy_test prio_ops (prio_init ordering_settings) test_priority_provider"
  by code_simp+

section \<open>Names\<close>

text \<open>A task or channel with that name, converted back, compared over five bytes.\<close>

definition test_convert :: "string \<Rightarrow> bool" where
  "test_convert name =
     (bindR (getIdentificationFromName (Some (c_string name))) idConverter = Inr (Some (c_string name)))"

lemma names_pass: "test_convert ''Huge''" "test_convert ''Well''"
  by code_simp+

text \<open>The guard enters the mutex in its constructor and leaves it in its destructor; the test looks at the mutex of
  the execution model without operating system.\<close>

definition test_MutexGuard :: "bool res" where
  "test_MutexGuard = bindR (none_enter none_mutex_init) (\<lambda>m. bindR (none_leave m) (\<lambda>m'.
     Inr (occupied m \<and> \<not> occupied m')))"

lemma mutex_guarded: "test_MutexGuard = Inr True"
  by (simp add: test_MutexGuard_def none_enter_def none_leave_def none_mutex_init_def)

end
