(* ===== verification/InputTests.thy ===== *)
theory InputTests
  imports TestBench
begin

text \<open>
  The tests of inputs (\<^verbatim>\<open>test/testTaskInput.cpp\<close>), of arrays of inputs
  (\<^verbatim>\<open>test/testTaskInputArray.cpp\<close>) and of the inputs associated with a channel
  (\<^verbatim>\<open>test/testTaskChannel.cpp\<close>).
\<close>

section \<open>One input\<close>

text \<open>Channel 0 and input 0 are those of the fixture, connected to an implementation of their own.\<close>

definition input_fixture :: lifo_test where
  "input_fixture = [NewTask 0 0 [9], NewArray 1 [9], NewChannel 0 0, ConnectInput 0 1, ConfigureWith 0 0 1 False]"

definition test_getNotifications :: lifo_test where
  "test_getNotifications = input_fixture @
     [Synchron 0 False, Notifications 0 0, Push 0, Notifications 0 1, Push 0, Notifications 0 2, InputReset 0,
      Notifications 0 0]"

definition test_getPendingNotifications :: lifo_test where
  "test_getPendingNotifications = input_fixture @
     [Push 0, PendingNotifications 0 0, Push 0, PendingNotifications 0 1, Push 0, PendingNotifications 0 2,
      InputReset 0, PendingNotifications 0 1, Synchron 0 False, PendingNotifications 0 0, Notifications 0 2,
      InputReset 0, PendingNotifications 0 0, Push 0, PendingNotifications 0 0, Push 0, PendingNotifications 0 0]"

definition test_isActivated :: lifo_test where
  "test_isActivated = input_fixture @
     [ConfigureWith 0 0 2 False, Activated 0 False, Push 0, Activated 0 False, Push 0, Activated 0 True, Push 0,
      Activated 0 True, InputReset 0, Activated 0 False]"

definition test_synchonized :: lifo_test where
  "test_synchonized = input_fixture @
     [ConfigureWith 0 0 2 False, Push 0, Push 0, Push 0, Push 0, Push 0, Activated 0 True, Notifications 0 2,
      InputReset 0, Activated 0 True, Notifications 0 2, InputReset 0, Activated 0 False, Push 0, Activated 0 True]"

definition test_optionalBecomesNotSynchronized :: lifo_test where
  "test_optionalBecomesNotSynchronized = input_fixture @
     [Configure 0 0 False, Synchron 0 False, Push 0, Push 0, Notifications 0 2, InputReset 0, Notifications 0 0]"

definition test_ConfigureOptionalRemoveSynchronized :: lifo_test where
  "test_ConfigureOptionalRemoveSynchronized = input_fixture @
     [Configure 0 0 False, Push 0, Push 0, Notifications 0 2, InputReset 0, Notifications 0 0]"

definition test_ConsistencyActivationsAtSynchronSwitch :: lifo_test where
  "test_ConsistencyActivationsAtSynchronSwitch = input_fixture @
     [Push 0, Push 0, Push 0, Notifications 0 1, PendingNotifications 0 2, Synchron 0 False, Notifications 0 3,
      PendingNotifications 0 0, Synchron 0 True, Notifications 0 1, PendingNotifications 0 2]"

definition test_getChannel :: lifo_test where
  "test_getChannel = input_fixture @ [ConfigureWith 0 0 1 False, ChannelOf 0 (Some 0)]"

lemma input_counts:
  "world_test test_getNotifications" "world_test test_getPendingNotifications" "world_test test_isActivated"
  "world_test test_synchonized"
  by (simp_all add: test_getNotifications_def test_getPendingNotifications_def test_isActivated_def
      test_synchonized_def input_fixture_def world_eval cong: eval_cong)

lemma input_configured:
  "world_test test_optionalBecomesNotSynchronized" "world_test test_ConfigureOptionalRemoveSynchronized"
  "world_test test_ConsistencyActivationsAtSynchronSwitch" "world_test test_getChannel"
  by (simp_all add: test_optionalBecomesNotSynchronized_def test_ConfigureOptionalRemoveSynchronized_def
      test_ConsistencyActivationsAtSynchronSwitch_def test_getChannel_def input_fixture_def world_eval cong: eval_cong)

section \<open>Arrays of inputs\<close>

text \<open>Channel 9 is the one of the fixture; the inputs and the channels of a test count from 0, and 1 is the
  implementation that holds its array.\<close>

definition array_fixture :: "nat \<Rightarrow> lifo_test" where
  "array_fixture n = [NewChannel 9 0, NewTask 0 0 [90], TaskReset 0, NewArray 1 [0..<n]] @
     map (\<lambda>c. NewChannel c 0) [0..<n]"

definition conditionFalse :: "input_impl list \<Rightarrow> bool" where
  "conditionFalse array = False"

definition conditionTrue :: "input_impl list \<Rightarrow> bool" where
  "conditionTrue array = True"

definition conditionWithAccess :: "input_impl list \<Rightarrow> bool" where
  "conditionWithAccess array = (if length array > 1 \<and> input_isActivated (array ! 1) then True else False)"

definition test_access :: lifo_test where
  "test_access = array_fixture 4 @ [ArraySize 1 4]"

definition test_array_isValid :: lifo_test where
  "test_array_isValid = array_fixture 3 @
     [TaskValid 1 False, ConfigureWith 0 9 0 True, TaskValid 1 False, ConfigureWith 2 9 4 False, TaskValid 1 False,
      ConfigureWith 1 9 1 False, TaskValid 1 False, ConnectTask 1, TaskValid 1 True]"

definition test_isActivatedWithoutFinal :: lifo_test where
  "test_isActivatedWithoutFinal = array_fixture 3 @
     [ConnectTask 1, ConfigureWith 0 0 1 False, ConfigureWith 1 1 0 False, ConfigureWith 2 2 1 False,
      ArrayActivated 1 False, Push 1, ArrayActivated 1 False, Push 2, ArrayActivated 1 False, Push 0,
      ArrayActivated 1 True]"

definition test_isActivatedWithUntriggeredOptional :: lifo_test where
  "test_isActivatedWithUntriggeredOptional = array_fixture 3 @
     [ConnectTask 1, ConfigureWith 0 0 1 False, ConfigureWith 1 1 0 False, ConfigureWith 2 2 1 False,
      ArrayActivated 1 False, Push 2, ArrayActivated 1 False, Push 0, ArrayActivated 1 True]"

definition test_isActivatedWithFinal :: lifo_test where
  "test_isActivatedWithFinal = array_fixture 3 @
     [ConnectTask 1, ConfigureWith 0 0 1 False, ConfigureWith 1 1 0 True, ConfigureWith 2 2 1 False,
      ArrayActivated 1 False, Push 2, ArrayActivated 1 False, Push 1, ArrayActivated 1 True]"

definition test_isActivatedWithUntriggerOptionalFinal :: lifo_test where
  "test_isActivatedWithUntriggerOptionalFinal = array_fixture 3 @
     [ConnectTask 1, ConfigureWith 0 0 1 False, ConfigureWith 1 1 0 True, ConfigureWith 2 2 1 False,
      ArrayActivated 1 False, Push 2, ArrayActivated 1 False, Push 0, ArrayActivated 1 True]"

definition test_alternativeFunctionFalse :: lifo_test where
  "test_alternativeFunctionFalse = array_fixture 2 @
     [SetCondition 1 (Some conditionFalse), ConfigureWith 0 0 1 False, ConfigureWith 1 1 1 False, ConnectTask 1,
      ArrayActivated 1 False, Push 0, ArrayActivated 1 False, Push 1, ArrayActivated 1 False]"

definition test_alternativeFunctionTrue :: lifo_test where
  "test_alternativeFunctionTrue = array_fixture 2 @
     [SetCondition 1 (Some conditionTrue), ConfigureWith 0 0 1 False, ConfigureWith 1 1 1 False, ConnectTask 1,
      ArrayActivated 1 True, Push 0, ArrayActivated 1 True, Push 1, ArrayActivated 1 True]"

definition test_alternativeFunctionFalseFinal :: lifo_test where
  "test_alternativeFunctionFalseFinal = array_fixture 3 @
     [SetCondition 1 (Some conditionFalse), ConfigureWith 0 0 1 False, ConfigureWith 1 1 1 True,
      ConfigureWith 2 2 1 False, ConnectTask 1, ArrayActivated 1 False, Push 0, ArrayActivated 1 False, Push 1,
      ArrayActivated 1 True, Push 2, ArrayActivated 1 True]"

definition test_alternativeFunctionWithAccess :: lifo_test where
  "test_alternativeFunctionWithAccess = array_fixture 2 @
     [SetCondition 1 (Some conditionWithAccess), ConfigureWith 0 0 1 False, ConfigureWith 1 1 1 False, ConnectTask 1,
      ArrayActivated 1 False, Push 0, ArrayActivated 1 False, ArrayReset 1, Push 1, ArrayActivated 1 True]"

lemmas array_eval = array_fixture_def conditionFalse_def conditionTrue_def conditionWithAccess_def world_eval

lemma array_basics: "world_test test_access" "world_test test_array_isValid"
  by (simp_all add: test_access_def test_array_isValid_def array_eval cong: eval_cong)

lemma array_activations:
  "world_test test_isActivatedWithoutFinal" "world_test test_isActivatedWithUntriggeredOptional"
  "world_test test_isActivatedWithFinal" "world_test test_isActivatedWithUntriggerOptionalFinal"
  by (simp_all add: test_isActivatedWithoutFinal_def test_isActivatedWithUntriggeredOptional_def
      test_isActivatedWithFinal_def test_isActivatedWithUntriggerOptionalFinal_def array_eval cong: eval_cong)

lemma array_conditions:
  "world_test test_alternativeFunctionFalse" "world_test test_alternativeFunctionTrue"
  "world_test test_alternativeFunctionFalseFinal" "world_test test_alternativeFunctionWithAccess"
  by (simp_all add: test_alternativeFunctionFalse_def test_alternativeFunctionTrue_def
      test_alternativeFunctionFalseFinal_def test_alternativeFunctionWithAccess_def array_eval cong: eval_cong)

section \<open>The inputs of a channel\<close>

text \<open>The expectations on the inputs 0 to 4.\<close>

abbreviation notified :: "uint list \<Rightarrow> lifo_test" where
  "notified ns \<equiv> map (\<lambda>(i, n). Notifications i n) (zip [0, 1, 2, 3, 4] ns)"

definition test_associateDeassociate :: lifo_test where
  "test_associateDeassociate =
     [NewChannel 0 0, Deassociate 0, Associate 0 0, Associate 1 0, Associate 2 0, Associate 3 0, Associate 4 0,
      Deassociate 2, Push 0] @ notified [1, 1, 0, 1, 1] @
     [Deassociate 0, Push 0] @ notified [1, 2, 0, 2, 2] @
     [Deassociate 4, Push 0] @ notified [1, 3, 0, 3, 2] @
     [Deassociate 5] @ notified [1, 3, 0, 3, 2] @
     [Deassociate 1, Deassociate 3, Push 0] @ notified [1, 3, 0, 3, 2]"

definition test_WrongfulAssociation :: lifo_test where
  "test_WrongfulAssociation = [NewChannel 0 0, Associated 0 0 True, Associated 0 0 False]"

lemma channel_associations: "world_test test_associateDeassociate" "world_test test_WrongfulAssociation"
  by (simp_all add: test_associateDeassociate_def test_WrongfulAssociation_def world_eval cong: eval_cong)

end
