(* ===== verification/TaskTests.thy ===== *)
theory TaskTests
  imports TestBench
begin

text \<open>
  The tests of tasks (\<^verbatim>\<open>test/testTask.cpp\<close>), of the identifications of channels
  (\<^verbatim>\<open>test/testTaskChannel.cpp\<close>), of barriers (\<^verbatim>\<open>test/testBarrier.cpp\<close>), of groups
  (\<^verbatim>\<open>test/testTaskGroup.cpp\<close>) and of the scheduler for unit tests
  (\<^verbatim>\<open>test/testSchedulerUnitTest.cpp\<close>).
\<close>

section \<open>Tasks\<close>

text \<open>Task 0 is \<^verbatim>\<open>checker\<close> with the inputs 0 and 1, the channels 0 and 1 are \<^verbatim>\<open>msg\<close>; further tasks count
  from 1, with inputs from 10 on.\<close>

definition task_fixture :: lifo_test where
  "task_fixture =
     [NewTask 0 0 [0, 1], Configure 0 1 False, Configure 1 0 False, NewChannel 0 1, NewChannel 1 1,
      ConfigureInput 0 0 0]"

definition test_configure :: lifo_test where
  "test_configure = task_fixture @
     [NewTask 1 0 [10, 11], Configure 10 1 False, Configure 11 0 False,
      TaskValid 1 False, ChannelOf 10 None, TaskChannel 1 0 None, ConfigureInput 1 0 0,
      TaskValid 1 False, ChannelOf 10 (Some 0), ChannelOf 11 None, TaskChannel 1 0 (Some 0), TaskChannel 1 1 None,
      ConfigureInput 1 1 1,
      TaskValid 1 True, ChannelOf 10 (Some 0), ChannelOf 11 (Some 1), TaskChannel 1 0 (Some 0), TaskChannel 1 1 (Some 1)]"

definition test_isExecutedSingle :: lifo_test where
  "test_isExecutedSingle = task_fixture @ [Start True, Calls 0 0, Push 0, Schedule 0, Calls 0 1]"

definition test_isExecutedMulti :: lifo_test where
  "test_isExecutedMulti = task_fixture @
     [Start True, ConfigureInput 0 1 1, TaskReset 0, Calls 0 0, Push 1, Schedule 0, Calls 0 0, Push 0, Schedule 0,
      Calls 0 1, Push 0, Schedule 0, Calls 0 2]"

definition test_testTaskId :: lifo_test where
  "test_testTaskId = task_fixture @
     [NewTask 1 84 [10, 11], Configure 10 1 False, Configure 11 0 False, TaskIdIs 1 84, SetTaskId 1 42, TaskIdIs 1 42]"

definition test_testTaskProviderName :: lifo_test where
  "test_testTaskProviderName = task_fixture @
     [NamedTask 1 ''5,-$'' [10, 11], TaskIdIs 1 0x352C2D24, SetTaskName 1 ''foo'', TaskIdIs 1 0x666F6F00,
      NamedTask 2 ''LongName'' [12, 13], TaskIdIs 2 0x4C6F6E67]"

text \<open>\<^verbatim>\<open>strncmp(a, b, 5) == 0\<close>\<close>

definition same_text :: "byte list \<Rightarrow> byte list \<Rightarrow> bool" where
  "same_text a b \<longleftrightarrow> takeWhile (\<lambda>c. c \<noteq> 0) (take 5 a) = takeWhile (\<lambda>c. c \<noteq> 0) (take 5 b)"

text \<open>\<open>name\<close> is the content of the buffer of five characters before the first conversion.\<close>

definition test_testTaskName :: "byte list \<Rightarrow> bool res" where
  "test_testTaskName name =
     bindR (task_create_named 1 (Some (c_string ''_6.U'')) [10] (world_init lifo_ops lifo_init)) (\<lambda>w.
     bindR (convertIdentificationToString (getTaskId 1 w) (Some name) 5) (\<lambda>r1. deref r1 (\<lambda>name1.
     bindR (convertIdentificationToString (getTaskId 1 w) (Some name1) 4) (\<lambda>r2. deref r2 (\<lambda>name2.
       Inr (same_text name1 (c_string ''_6.U'') \<and> same_text name2 (c_string ''_6.'')))))))"

lemma task_configured: "world_test test_configure"
  by (simp add: test_configure_def task_fixture_def world_eval cong: eval_cong)

lemma task_executed: "world_test test_isExecutedSingle" "world_test test_isExecutedMulti"
  by (simp_all add: test_isExecutedSingle_def test_isExecutedMulti_def task_fixture_def world_eval cong: eval_cong)

lemma task_identified: "world_test test_testTaskId" "world_test test_testTaskProviderName"
  by code_simp+

lemma task_named: "test_testTaskName [255, 255, 255, 255, 255] = Inr True"
  by code_simp

section \<open>Identifications of channels\<close>

definition test_testTaskChannelId :: lifo_test where
  "test_testTaskChannelId = [NewChannel 0 78, ChannelIdIs 0 78, SetChannelId 0 65, ChannelIdIs 0 65]"

definition test_testTaskChannelName :: lifo_test where
  "test_testTaskChannelName =
     [NamedChannel 0 ''5,-$'', ChannelIdIs 0 0x352C2D24, SetChannelName 0 ''foo'', ChannelIdIs 0 0x666F6F00,
      NamedChannel 1 ''LongName'', ChannelIdIs 1 0x4C6F6E67]"

lemma channel_identified: "world_test test_testTaskChannelId" "world_test test_testTaskChannelName"
  by code_simp+

section \<open>Barriers\<close>

definition barrier_fixture :: lifo_test where
  "barrier_fixture = [NewTask 0 0 [0], Configure 0 1 False, NewBarrier 0 0, ConfigureInput 0 0 0]"

definition test_noActivationWithoutRegistration :: lifo_test where
  "test_noActivationWithoutRegistration = barrier_fixture @ [Push 0, Activated 0 False]"

definition test_normalOperation :: lifo_test where
  "test_normalOperation = barrier_fixture @ [Increase 0 1, Activated 0 False, Push 0, Activated 0 True]"

definition test_IncreaseMore :: lifo_test where
  "test_IncreaseMore = barrier_fixture @
     [Increase 0 2, Activated 0 False, Push 0, Activated 0 False, Push 0, Activated 0 True]"

definition test_IncreaseMeantime :: lifo_test where
  "test_IncreaseMeantime = barrier_fixture @
     [Increase 0 2, Activated 0 False, Push 0, Activated 0 False, Increase 0 1, Activated 0 False, Push 0,
      Activated 0 False, Push 0, Activated 0 True]"

definition test_ResetValue :: lifo_test where
  "test_ResetValue = barrier_fixture @
     [NewBarrier 1 2, ConfigureInput 0 0 1, Activated 0 False, Push 1, Activated 0 False, Push 1, Activated 0 True,
      TaskReset 0, Activated 0 False, Push 1, Activated 0 False, Push 1, Activated 0 True]"

lemma barrier_waits:
  "world_test test_noActivationWithoutRegistration" "world_test test_normalOperation" "world_test test_IncreaseMore"
  "world_test test_IncreaseMeantime" "world_test test_ResetValue"
  by (simp_all add: test_noActivationWithoutRegistration_def test_normalOperation_def test_IncreaseMore_def
      test_IncreaseMeantime_def test_ResetValue_def barrier_fixture_def world_eval cong: eval_cong)

section \<open>Groups\<close>

text \<open>The tasks 1 and 2 are \<^verbatim>\<open>checker1\<close> and \<^verbatim>\<open>checker2\<close>.\<close>

definition group_fixture :: lifo_test where
  "group_fixture =
     [NewTask 1 0 [1], Configure 1 1 False, NewTask 2 0 [2], Configure 2 1 False, NewChannel 0 0, NewChannel 1 0,
      NewGroup 0 2, ConfigureInput 1 0 0, Start True]"

definition test_group_isValid :: lifo_test where
  "test_group_isValid = group_fixture @
     [GroupValid 0 False, Join 0 1, GroupValid 0 False, Join 0 2, GroupValid 0 False, ConfigureInput 2 0 1,
      GroupValid 0 True]"

lemma replicate_2: "replicate 2 x = [x, x]"
  by (simp add: numeral_2_eq_2)

lemma group_complete: "world_test test_group_isValid"
  by (simp add: test_group_isValid_def group_fixture_def group_create_def replicate_2 group_join_def joinTo_def world_eval cong: eval_cong)

section \<open>The scheduler for unit tests\<close>

text \<open>Task 0 is \<^verbatim>\<open>checker\<close>; the channels and events of a test count from 2.\<close>

definition scheduler_fixture :: lifo_test where
  "scheduler_fixture =
     [NewTask 0 0 [0, 1], Configure 0 1 False, Configure 1 1 False, NewChannel 0 1, NewChannel 1 1,
      ConfigureInput 0 0 0, ConfigureInput 0 1 1]"

definition furtherTask :: "task_id \<Rightarrow> input_id \<Rightarrow> lifo_test" where
  "furtherTask t i = [NewTask t 0 [i, i + 1], Configure i 1 False, Configure (i + 1) 1 False]"

definition test_initialize :: lifo_test where
  "test_initialize = scheduler_fixture @
     [Initialize, Initializations 0 1] @ furtherTask 1 10 @ [Initialize, Initializations 0 2, Initializations 1 1]"

definition test_handleEvent :: lifo_test where
  "test_handleEvent = scheduler_fixture @
     [NewEvent 2, NewChannel 3 1] @ furtherTask 1 10 @
     [ConfigureInput 1 0 2, ConfigureInput 1 1 3, Start True, Push 3, Trigger 2 0, Schedule 0, Calls 1 1]"

definition test_stepOverTime :: lifo_test where
  "test_stepOverTime = scheduler_fixture @
     [NewEvent 2, NewChannel 3 1] @ furtherTask 1 10 @
     [ConfigureInput 1 0 2, ConfigureInput 1 1 3, Start True, Push 3, Trigger 2 1, Schedule 0, Calls 1 0,
      Schedule 1, Calls 1 1]"

lemma scheduler_initializes: "world_test test_initialize"
  by (simp add: test_initialize_def scheduler_fixture_def furtherTask_def initialize_def count_initializations_def
      initializations_of_def world_eval cong: eval_cong)

lemma scheduler_schedules: "world_test test_handleEvent" "world_test test_stepOverTime"
  by (simp_all add: test_handleEvent_def test_stepOverTime_def scheduler_fixture_def furtherTask_def world_eval cong: eval_cong)

end
