(* ===== verification/EventTests.thy ===== *)
theory EventTests
  imports TestBench
begin

text \<open>
  The tests of events (\<^verbatim>\<open>test/testTaskEvent.cpp\<close>), of periodic schedules
  (\<^verbatim>\<open>test/testPeriodicSchedule.cpp\<close>), and those of \<^verbatim>\<open>test/testClock.cpp\<close> that trigger events.
\<close>

section \<open>Events\<close>

text \<open>The events 0 and 1 are \<^verbatim>\<open>event\<close> and \<^verbatim>\<open>unallowedEvent\<close>. The second one forbids to fire it, so only the
  tests that never trigger it are among the following; \<^verbatim>\<open>event\<close> allows it, as events do by default.\<close>

definition event_fixture :: lifo_test where
  "event_fixture =
     [NewEvent 0, NewEvent 1, NewTask 0 0 [0, 1], Configure 0 1 True, Synchron 0 False, Configure 1 1 True,
      Synchron 1 False, ConfigureInput 0 0 0, ConfigureInput 0 1 1, Start True]"

definition test_NoCallAfterConstructing :: lifo_test where
  "test_NoCallAfterConstructing = event_fixture @ [Schedule 0, Calls 0 0]"

definition test_EventName :: lifo_test where
  "test_EventName = event_fixture @ [NamedEvent 2 ''Jerk'', ChannelIdIs 2 0x4A65726B]"

definition test_isTriggered :: lifo_test where
  "test_isTriggered = event_fixture @
     [Triggered 0 False, Trigger 0 0, Triggered 0 False, Trigger 0 1, Triggered 0 True, Stop 0, Triggered 0 False,
      Trigger 0 1, Triggered 0 True, Schedule 1, Triggered 0 False, Trigger 0 1, Trigger 0 0, Triggered 0 False]"

definition test_StoppTrigger :: lifo_test where
  "test_StoppTrigger = event_fixture @
     [SetRelative 0 50, EventReset 0, Schedule 10, Stop 0, Schedule 50, Calls 0 0]"

definition test_PeriodicTimingReset :: lifo_test where
  "test_PeriodicTimingReset = event_fixture @
     [SetPeriodic 0 5 2, Schedule 4, Calls 0 1, TaskReset 0, Schedule 2, Calls 0 1, Schedule 1, Calls 0 2]"

definition test_PeriodicTimingNotEndedByTrigger :: lifo_test where
  "test_PeriodicTimingNotEndedByTrigger = event_fixture @
     [SetPeriodic 0 5 3, Schedule 4, Calls 0 1, Trigger 0 1, Schedule 1, Calls 0 1, Trigger 0 0, Schedule 0, Calls 0 1,
      Schedule 3, Calls 0 2]"

definition test_ZeroPeriod :: lifo_test where
  "test_ZeroPeriod = event_fixture @
     [SetPeriodic 0 0 5, Schedule 4, Calls 0 0, Schedule 1, Calls 0 1, Schedule 10, Calls 0 1, SetPeriodic 0 0 14,
      Schedule 0, Calls 0 2]"

definition test_RelativeTimingNotEndedByTrigger :: lifo_test where
  "test_RelativeTimingNotEndedByTrigger = event_fixture @
     [SetRelative 0 5, TaskReset 0, Schedule 2, Calls 0 0, Trigger 0 1, Schedule 1, Calls 0 0, Trigger 0 0, Schedule 0,
      Calls 0 0, Schedule 2, Calls 0 1]"

definition test_ExecutionsWithDelay :: lifo_test where
  "test_ExecutionsWithDelay = event_fixture @
     [SetPeriodic 0 5 5, TaskReset 0, Schedule 9, Calls 0 1, Schedule 11, Calls 0 2, Schedule 5, Calls 0 3]"

definition test_requestTime :: lifo_test where
  "test_requestTime = event_fixture @ [EventNow 0 0, Schedule 2, EventNow 0 2]"

definition test_configurePeriodicOnQueuedEvent :: lifo_test where
  "test_configurePeriodicOnQueuedEvent = event_fixture @
     [Trigger 0 1, SetPeriodic 0 2 3, Schedule 1, Calls 0 0, Schedule 1, Calls 0 0, Schedule 1, Calls 0 1]"

definition test_configureRelativeOnQueuedEvent :: lifo_test where
  "test_configureRelativeOnQueuedEvent = event_fixture @
     [Trigger 0 1, SetRelative 0 3, EventReset 0, Schedule 1, Calls 0 0, Schedule 1, Calls 0 0, Schedule 1, Calls 0 1]"

lemmas event_eval = event_fixture_def world_eval

lemma event_basics:
  "world_test test_NoCallAfterConstructing" "world_test test_isTriggered" "world_test test_requestTime"
  by (simp_all add: test_NoCallAfterConstructing_def test_isTriggered_def test_requestTime_def event_eval cong: eval_cong)

lemma event_named: "world_test test_EventName"
  by code_simp

lemma event_periods: "world_test test_PeriodicTimingReset" "world_test test_PeriodicTimingNotEndedByTrigger"
  by (simp_all add: test_PeriodicTimingReset_def test_PeriodicTimingNotEndedByTrigger_def event_eval cong: eval_cong)

lemma event_zero_period: "world_test test_ZeroPeriod"
  by (simp add: test_ZeroPeriod_def event_eval cong: eval_cong)

lemma event_delays: "world_test test_StoppTrigger" "world_test test_RelativeTimingNotEndedByTrigger"
  by (simp_all add: test_StoppTrigger_def test_RelativeTimingNotEndedByTrigger_def event_eval cong: eval_cong)

lemma event_queued:
  "world_test test_configurePeriodicOnQueuedEvent" "world_test test_configureRelativeOnQueuedEvent"
  by (simp_all add: test_configurePeriodicOnQueuedEvent_def test_configureRelativeOnQueuedEvent_def event_eval cong: eval_cong)

lemma event_lost: "world_test test_ExecutionsWithDelay"
  by (simp add: test_ExecutionsWithDelay_def event_eval cong: eval_cong)

section \<open>Periodic schedules\<close>

text \<open>Event 0 with schedule 0 and task 0 are those of the fixture; the triggers and their tasks count from 1.\<close>

definition schedule_fixture :: lifo_test where
  "schedule_fixture = [NewEvent 0, NamedTask 0 ''PeriodicScheduleTask'' [0], Configure 0 1 True, ConfigureInput 0 0 0]"

text \<open>A trigger with its task, added to the schedule.\<close>

definition triggered_task :: "nat \<Rightarrow> time \<Rightarrow> lifo_test" where
  "triggered_task i t = [NewTrigger i t, NamedTask i [] [i], Configure i 1 True, ConfigureInput i 0 i, AddTrigger 0 i]"

definition test_triggerTimeTrigger :: lifo_test where
  "test_triggerTimeTrigger = schedule_fixture @
     [Trigger 0 1, Triggered 0 True] @ triggered_task 1 6 @
     [SetSchedule 0 10 2 0, Start True, Schedule 1, Calls 1 0, Schedule 6, Calls 1 0, Schedule 1, Calls 1 1,
      Schedule 9, Calls 1 1, Schedule 1, Calls 1 2, Calls 0 0]"

definition test_timeTriggerOutsidePeriod :: lifo_test where
  "test_timeTriggerOutsidePeriod = schedule_fixture @ triggered_task 1 10 @
     [SetSchedule 0 10 2 0, Start True, Schedule 13, Calls 1 0]"

definition test_PeriodicScheduleWithoutTrigger :: lifo_test where
  "test_PeriodicScheduleWithoutTrigger = schedule_fixture @ [SetSchedule 0 10 2 0, Start True, Triggered 0 False]"

text \<open>The tasks of the triggers 6a, 8, 2, 7 and 6b are 1 to 5; the calls are expected in the order 2, 6a, 6b, 7, 8.\<close>

abbreviation five_calls :: "uint list \<Rightarrow> lifo_test" where
  "five_calls ns \<equiv> map (\<lambda>(t, n). Calls t n) (zip [3, 1, 5, 4, 2] ns)"

definition test_manyTimeTriggers :: lifo_test where
  "test_manyTimeTriggers = schedule_fixture @
     triggered_task 1 6 @ triggered_task 2 8 @ triggered_task 3 2 @ triggered_task 4 7 @ triggered_task 5 6 @
     [SetSchedule 0 10 2 0, Start True, Schedule 3] @ five_calls [0, 0, 0, 0, 0] @
     [Schedule 1] @ five_calls [1, 0, 0, 0, 0] @
     [Schedule 3] @ five_calls [1, 0, 0, 0, 0] @
     [Schedule 1] @ five_calls [1, 1, 1, 0, 0] @
     [Schedule 1] @ five_calls [1, 1, 1, 1, 0] @
     [Schedule 1] @ five_calls [1, 1, 1, 1, 1] @
     [Schedule 3] @ five_calls [1, 1, 1, 1, 1] @
     [Schedule 1] @ five_calls [2, 1, 1, 1, 1]"

lemmas schedule_eval = schedule_fixture_def triggered_task_def task_create_named_def getIdentificationFromName_def
  id_loop.simps c_string_def trigger_init_def sortIn_def pushTriggers_def stepToNextTriggerOffset_def upd_schedule_def
  setPeriodicSchedule_def schedule_init_def world_eval

lemma schedule_checks: "world_test test_timeTriggerOutsidePeriod" "world_test test_PeriodicScheduleWithoutTrigger"
  by (simp_all add: test_timeTriggerOutsidePeriod_def test_PeriodicScheduleWithoutTrigger_def schedule_eval cong: eval_cong)

lemma schedule_plays: "world_test test_triggerTimeTrigger"
  by (simp add: test_triggerTimeTrigger_def schedule_eval cong: eval_cong)

lemma schedule_plays_many: "world_test test_manyTimeTriggers"
  by (simp add: test_manyTimeTriggers_def schedule_eval cong: eval_cong)

section \<open>Events at the clock\<close>

text \<open>The tests of the clock have a scheduler that is never started. Events are numbered in the order in which
  the test creates them.\<close>

definition test_startTimerCall :: lifo_test where
  "test_startTimerCall =
     [NewEvent 1, Trigger 1 2, WaitingTime 2, NewEvent 2, Trigger 2 0, WaitingTime 2, NewEvent 3, Trigger 3 1,
      WaitingTime 1, NewEvent 4, Trigger 4 3, WaitingTime 1]"

definition test_triggerOnlyOnce :: lifo_test where
  "test_triggerOnlyOnce =
     [NewEvent 1, Trigger 1 2, Trigger 1 1, SetNow 1, ClockPending True, FirstPending (Some 1), Trigger 1 1, Trigger 1 2,
      SetNow 2, ClockPending False, SetNow 3, ClockPending True, FirstPending (Some 1)]"

definition test_getStartTime :: lifo_test where
  "test_getStartTime =
     [NextStart 0, NewEvent 1, Trigger 1 5, NextStart 5, NewEvent 2, Trigger 2 5, NextStart 5, NewEvent 3, Trigger 3 7,
      NextStart 5, NewEvent 4, Trigger 4 3, NextStart 3, FirstPending None, NextStart 3, SetNow 4, NextStart 5,
      FirstPending (Some 4)]"

lemma clock_triggers:
  "world_test test_startTimerCall" "world_test test_triggerOnlyOnce" "world_test test_getStartTime"
  by (simp_all add: test_startTimerCall_def test_triggerOnlyOnce_def test_getStartTime_def world_eval cong: eval_cong)

end
