(* ===== verification/FifoTests.thy ===== *)
theory FifoTests
  imports TestBench DataChannels
begin

text \<open>
  The tests of the FIFO channel (\<^verbatim>\<open>channels/test/testFifo.cpp\<close>) and of its readers
  (\<^verbatim>\<open>channels/test/testFifoReader.cpp\<close>).
\<close>

section \<open>The fixture\<close>

text \<open>The FIFO is channel 0; the pointer variables of a test are numbered.\<close>

record fifo_fixture =
  ff_world :: "lifo_policy world"
  ff_fifo :: "int fifo_channel"
  ff_pointers :: "nat \<Rightarrow> data_ptr option"

type_synonym fifo_action = "fifo_fixture \<Rightarrow> (fifo_fixture \<times> bool) res"

text \<open>The address of a variable of the test, which is not in the buffer of the FIFO, and the null pointer, which
  is no address of the buffer either.\<close>

definition wrongData :: data_ptr where
  "wrongData = 9999"

definition address :: "data_ptr option \<Rightarrow> data_ptr" where
  "address p = (case p of None \<Rightarrow> 8888 | Some d \<Rightarrow> d)"

definition on_world :: "lifo_policy action \<Rightarrow> fifo_action" where
  "on_world a s = bindR (a (ff_world s)) (\<lambda>(w, b). Inr (s\<lparr>ff_world := w\<rparr>, b))"

definition on_fifo :: "int fifo_channel res \<Rightarrow> fifo_action" where
  "on_fifo r s = bindR r (\<lambda>f. Inr (s\<lparr>ff_fifo := f\<rparr>, True))"

definition assign :: "nat \<Rightarrow> int fifo_channel \<times> data_ptr option \<Rightarrow> fifo_action" where
  "assign x r s = (case r of (f, p) \<Rightarrow> Inr (s\<lparr>ff_fifo := f, ff_pointers := (ff_pointers s)(x := p)\<rparr>, True))"

definition on_both :: "(('v fifo_channel \<times> 'p world) \<times> bool) res \<Rightarrow>
    ('v fifo_channel \<Rightarrow> 'p world \<Rightarrow> bool \<Rightarrow> ('s \<times> bool) res) \<Rightarrow> ('s \<times> bool) res" where
  "on_both r k = bindR r (\<lambda>((f, w), b). k f w b)"

section \<open>Calls and expectations\<close>

definition Point :: "nat \<Rightarrow> data_ptr option \<Rightarrow> fifo_action" where
  "Point x p s = assign x (ff_fifo s, p) s"

definition Allocate :: "nat \<Rightarrow> fifo_action" where
  "Allocate x s = assign x (fc_allocate (ff_fifo s)) s"

definition Release :: "nat \<Rightarrow> fifo_action" where
  "Release x s = on_fifo (fc_release (address (ff_pointers s x)) (ff_fifo s)) s"

definition PushPointer :: "nat \<Rightarrow> fifo_action" where
  "PushPointer x s = on_both (fc_push (address (ff_pointers s x)) 0 (ff_fifo s, ff_world s))
     (\<lambda>f w b. Inr (s\<lparr>ff_fifo := f, ff_world := w\<rparr>, True))"

definition PushValue :: "int \<Rightarrow> fifo_action" where
  "PushValue v s = on_both (fc_push_value v 0 (ff_fifo s, ff_world s))
     (\<lambda>f w b. Inr (s\<lparr>ff_fifo := f, ff_world := w\<rparr>, True))"

definition Pushed :: "int \<Rightarrow> fifo_action" where
  "Pushed v s = on_both (fc_push_value v 0 (ff_fifo s, ff_world s))
     (\<lambda>f w b. Inr (s\<lparr>ff_fifo := f, ff_world := w\<rparr>, b))"

definition PopTo :: "nat \<Rightarrow> fifo_action" where
  "PopTo x s = assign x (fc_pop (ff_fifo s)) s"

definition Store :: "nat \<Rightarrow> int \<Rightarrow> fifo_action" where
  "Store x v s = deref (ff_pointers s x)
     (\<lambda>d. on_fifo (Inr ((ff_fifo s)\<lparr>fc_data := (fc_data (ff_fifo s))(d := v)\<rparr>)) s)"

definition Holds :: "nat \<Rightarrow> int \<Rightarrow> fifo_action" where
  "Holds x v s = deref (ff_pointers s x) (\<lambda>d. Inr (s, fc_data (ff_fifo s) d = v))"

definition Null :: "nat \<Rightarrow> bool \<Rightarrow> fifo_action" where
  "Null x b s = Inr (s, (ff_pointers s x = None) = b)"

definition Differ :: "nat \<Rightarrow> nat \<Rightarrow> fifo_action" where
  "Differ x y s = Inr (s, ff_pointers s x \<noteq> ff_pointers s y)"

definition FifoEmpty :: "bool \<Rightarrow> fifo_action" where
  "FifoEmpty b s = Inr (s, fc_isEmpty (ff_fifo s) = b)"

definition AssociateReader :: "reader_id \<Rightarrow> fifo_action" where
  "AssociateReader r s = on_fifo (fc_associateReader r (ff_fifo s)) s"

definition ReleaseReader :: "reader_id \<Rightarrow> fifo_action" where
  "ReleaseReader r s = on_fifo (fc_releaseReader r (ff_fifo s)) s"

definition SynchronizeStart :: "task_id \<Rightarrow> uint \<Rightarrow> fifo_action" where
  "SynchronizeStart t n s = on_fifo (fc_synchronizeStart t n (ff_fifo s)) s"

text \<open>The FIFO does not overload \<^verbatim>\<open>synchronizeEnd\<close>, which does nothing.\<close>

definition SynchronizeEnd :: "task_id \<Rightarrow> fifo_action" where
  "SynchronizeEnd t s = Inr (s, True)"

definition ReaderPop :: "reader_id \<Rightarrow> nat \<Rightarrow> fifo_action" where
  "ReaderPop r x s = bindR (fr_pop r (ff_fifo s)) (\<lambda>q. assign x q s)"

definition ReaderRelease :: "reader_id \<Rightarrow> nat \<Rightarrow> fifo_action" where
  "ReaderRelease r x s = on_fifo (fr_release r (address (ff_pointers s x)) (ff_fifo s)) s"

definition ReaderEmpty :: "reader_id \<Rightarrow> bool \<Rightarrow> fifo_action" where
  "ReaderEmpty r b s = Inr (s, rd_isEmpty r (fc_fifo (ff_fifo s)) = b)"

text \<open>A test on a FIFO of \<open>n\<close> elements of \<open>sz\<close> bytes; reader \<open>i\<close> belongs to task \<open>i\<close>.\<close>

type_synonym fifo_test = "fifo_action list"

definition passes :: "nat \<Rightarrow> nat \<Rightarrow> fifo_test \<Rightarrow> bool" where
  "passes sz n cs = run_test (\<lambda>a s. a s) cs
     \<lparr>ff_world = world_init lifo_ops lifo_init, ff_fifo = fc_init sz n (\<lambda>r. r) (\<lambda>_. 0), ff_pointers = (\<lambda>_. None)\<rparr>"

lemma step_items_numeral:
  "step_items (numeral k) x f = (case elem_next f x of None \<Rightarrow> Inl AssertFailed | Some y \<Rightarrow> step_items (pred_numeral k) y f)"
  by (simp add: numeral_eq_Suc)

lemmas fifo_actions = passes_def on_world_def on_fifo_def assign_def on_both_def Point_def Allocate_def Release_def
  PushPointer_def PushValue_def Pushed_def PopTo_def Store_def Holds_def Null_def Differ_def FifoEmpty_def
  AssociateReader_def ReleaseReader_def SynchronizeStart_def SynchronizeEnd_def ReaderPop_def ReaderRelease_def
  ReaderEmpty_def wrongData_def address_def

lemmas fifo_eval = fifo_actions world_eval fc_init_def gf_init_def reader_init_def add_unused_def
  fc_allocate_def fc_release_def fc_push_def fc_push_value_def fc_pop_def fc_isEmpty_def fc_associateReader_def
  fc_releaseReader_def fc_synchronizeStart_def fr_pop_def fr_release_def elem_next_def upd_elem_def upd_reader_def
  set_link_def gf_isEmpty_def gf_allocate_def gf_findPrevious_def clear_bit_def put_unused_def gf_release_def
  gf_releaseElement_def gf_unlink_def gf_append_def gf_push_def gf_pop_def rd_isEmpty_def free_link_def link_data_def
  release_head_def rd_release_def rd_pop_def rd_releaseAll_def free_bit.simps gf_associateReader_def remove_reader_def
  gf_releaseReader_def synchronize_reader_def step_items_numeral gf_synchronize_def
  maximumFifoReaderLinks_def

section \<open>Tests of the FIFO\<close>

text \<open>Sizes: \<^verbatim>\<open>Fifo<int, n>\<close> has \<open>n\<close> elements of four bytes.\<close>

definition test_fifo_testChannelId :: fifo_test where
  "test_fifo_testChannelId =
     map on_world [NewChannel 0 78, ChannelIdIs 0 78, SetChannelId 0 65, ChannelIdIs 0 65]"

definition test_fifo_testChannelName :: fifo_test where
  "test_fifo_testChannelName = map on_world
     [NamedChannel 0 ''5,-$'', ChannelIdIs 0 0x352C2D24, SetChannelName 0 ''foo'', ChannelIdIs 0 0x666F6F00,
      NamedChannel 1 ''LongName'', ChannelIdIs 1 0x4C6F6E67]"

definition test_allocate :: fifo_test where
  "test_allocate = [Allocate 0, Null 0 False, Allocate 0, Null 0 False, Allocate 0, Null 0 True]"

definition test_dataStable :: fifo_test where
  "test_dataStable = [Allocate 0, Allocate 1, Store 0 1, Store 1 1023, Holds 0 1, Store 0 0xFFFF, Holds 1 1023]"

definition test_releaseNull :: fifo_test where
  "test_releaseNull = [Point 0 None, Release 0, Allocate 1]"

definition test_release0 :: fifo_test where
  "test_release0 = [Allocate 0, Release 0, Allocate 1]"

definition test_release01 :: fifo_test where
  "test_release01 = [Allocate 0, Allocate 1, Differ 0 1, Release 0, Release 1, Allocate 2]"

definition test_release10 :: fifo_test where
  "test_release10 = [Allocate 0, Allocate 1, Differ 0 1, Release 1, Release 0, Allocate 2]"

definition test_release102 :: fifo_test where
  "test_release102 =
     [Allocate 0, Allocate 1, Allocate 2, Differ 0 1, Differ 0 2, Differ 1 2, Release 1, Allocate 1,
      Differ 0 1, Differ 0 2, Differ 1 2, Release 1, Release 0, Release 2, Allocate 3]"

text \<open>Pointer 9 points to \<^verbatim>\<open>wrongData\<close>.\<close>

definition test_releaseWrong :: fifo_test where
  "test_releaseWrong =
     [Point 9 (Some wrongData), Release 9, Allocate 0, Differ 0 9, Release 9, Allocate 0, Differ 0 9, Release 9,
      Allocate 1, Null 1 True]"

definition test_pushPop :: fifo_test where
  "test_pushPop = [Allocate 0, Store 0 1, PushPointer 0, PopTo 0, Holds 0 1, Release 0]"

definition test_Ordering :: fifo_test where
  "test_Ordering = concat (map (\<lambda>i. [Allocate 0, Store 0 i, PushPointer 0]) [1, 2, 3, 4, 5]) @
     concat (map (\<lambda>i. [PopTo 0, Holds 0 i]) [1, 2, 3, 4, 5])"

definition test_isEmpty :: fifo_test where
  "test_isEmpty =
     [FifoEmpty True, Allocate 0, FifoEmpty True, PushPointer 0, FifoEmpty False, PopTo 1, FifoEmpty True]"

definition test_pushWithoutAllocate :: fifo_test where
  "test_pushWithoutAllocate = [Point 9 (Some wrongData), PushPointer 9, FifoEmpty True, PopTo 0, Null 0 True]"

definition test_pushReference :: fifo_test where
  "test_pushReference = [PushValue 42, FifoEmpty False, PopTo 0, Null 0 False]"

definition test_lastPushed :: fifo_test where
  "test_lastPushed =
     [PushValue 5, PushValue 42, PopTo 0, Null 0 False, Holds 0 5, Release 0, PushValue 111, PopTo 0, Null 0 False,
      Holds 0 42, PopTo 0, Null 0 False, Holds 0 111]"

definition test_reuisingUnusedElements :: fifo_test where
  "test_reuisingUnusedElements =
     concat (map (\<lambda>v. [Pushed v, PopTo 0, Null 0 False, Holds 0 v, Release 0]) [1, 2, 3, 4, 5])"

lemma fifo_identified: "passes 4 2 test_fifo_testChannelId"
  by (simp add: test_fifo_testChannelId_def getChannelId_def setChannelId_def fifo_eval cong: eval_cong)

lemma fifo_named: "passes 4 2 test_fifo_testChannelName"
  by (simp add: test_fifo_testChannelName_def getChannelId_def setChannelName_def channel_create_named_def
      getIdentificationFromName_def id_loop.simps c_string_def fifo_eval cong: eval_cong)

lemma fifo_allocates: "passes 4 2 test_allocate" "passes 4 2 test_dataStable"
  by (simp_all add: test_allocate_def test_dataStable_def fifo_eval cong: eval_cong)

lemma fifo_releases:
  "passes 4 2 test_releaseNull" "passes 4 2 test_release0" "passes 4 2 test_release01" "passes 4 2 test_release10"
  "passes 4 3 test_release102" "passes 4 2 test_releaseWrong"
  by (simp_all add: test_releaseNull_def test_release0_def test_release01_def test_release10_def test_release102_def
      test_releaseWrong_def fifo_eval cong: eval_cong)

lemma fifo_pushes:
  "passes 4 1 test_pushPop" "passes 4 5 test_Ordering" "passes 4 2 test_isEmpty" "passes 4 1 test_pushWithoutAllocate"
  "passes 4 1 test_pushReference" "passes 4 2 test_lastPushed" "passes 4 2 test_reuisingUnusedElements"
  by (simp_all add: test_pushPop_def test_Ordering_def test_isEmpty_def test_pushWithoutAllocate_def
      test_pushReference_def test_lastPushed_def test_reuisingUnusedElements_def fifo_eval cong: eval_cong)

end
