(* ===== verification/FifoReaderTests.thy ===== *)
theory FifoReaderTests
  imports FifoTests
begin

text \<open>
  The tests of the readers of a FIFO (\<^verbatim>\<open>channels/test/testFifoReader.cpp\<close>): a FIFO of seven elements,
  three tasks that are notified by it, and a reader for each.
\<close>

section \<open>The fixture\<close>

text \<open>Task \<open>i\<close> has the input \<open>i\<close> and the reader \<open>i\<close>.\<close>

definition reader_fixture :: fifo_test where
  "reader_fixture = map on_world
     [NewChannel 0 0, NewTask 1 0 [1], NewTask 2 0 [2], NewTask 3 0 [3], ConfigureInput 1 0 0, ConfigureInput 2 0 0,
      ConfigureInput 3 0 0]"

definition reader_test :: "fifo_test \<Rightarrow> bool" where
  "reader_test cs = passes 1 7 (reader_fixture @ cs)"

text \<open>What the loops of the tests do: push values, and pop the values expected and release them.\<close>

definition push_values :: "int list \<Rightarrow> fifo_test" where
  "push_values vs = map PushValue vs"

definition read_values :: "reader_id \<Rightarrow> int list \<Rightarrow> fifo_test" where
  "read_values r vs = concat (map (\<lambda>v. [ReaderPop r 0, Null 0 False, Holds 0 v, ReaderRelease r 0]) vs)"

definition end_task :: "task_id \<Rightarrow> fifo_test" where
  "end_task t = [SynchronizeEnd t, on_world (TaskReset t)]"

section \<open>One reader\<close>

definition test_OneReaderIsEmpty :: fifo_test where
  "test_OneReaderIsEmpty =
     [AssociateReader 1, ReaderEmpty 1 True, PushValue 42, ReaderEmpty 1 True, SynchronizeStart 1 1,
      ReaderEmpty 1 False, ReaderPop 1 0, ReaderEmpty 1 True]"

definition test_OneReaderSevenMessages :: fifo_test where
  "test_OneReaderSevenMessages =
     [AssociateReader 1, ReaderEmpty 1 True] @ push_values [1, 2, 3, 4, 5, 6, 7] @
     [ReaderEmpty 1 True, SynchronizeStart 1 7, ReaderEmpty 1 False] @
     concat (map (\<lambda>v. [ReaderPop 1 0, Holds 0 v]) [1, 2, 3, 4, 5]) @
     [ReaderEmpty 1 False, ReaderPop 1 0, Null 0 False, Holds 0 6, ReaderEmpty 1 False, ReaderPop 1 0, Null 0 False,
      Holds 0 7, ReaderEmpty 1 True]"

definition test_OneReaderFullCycle :: fifo_test where
  "test_OneReaderFullCycle =
     [AssociateReader 1, PushValue 41, ReaderPop 1 0, Null 0 True, SynchronizeStart 1 1, ReaderPop 1 0, Null 0 False,
      Holds 0 41, ReaderRelease 1 0, ReaderEmpty 1 True]"

definition test_OneReaderOrdering :: fifo_test where
  "test_OneReaderOrdering =
     [AssociateReader 1] @ push_values [1, 2, 3, 4, 5, 6, 7] @ [SynchronizeStart 1 7] @
     read_values 1 [1, 2, 3, 4, 5, 6, 7]"

definition test_OneReaderNoPush :: fifo_test where
  "test_OneReaderNoPush = [AssociateReader 1, SynchronizeStart 1 0, ReaderEmpty 1 True, ReaderPop 1 0, Null 0 True]"

definition test_OneReaderNoFullRead :: fifo_test where
  "test_OneReaderNoFullRead =
     [AssociateReader 1] @ push_values [1, 2, 3, 4, 5, 6, 7] @ [SynchronizeStart 1 7] @ read_values 1 [1, 2] @
     end_task 1 @ [PushValue 8, SynchronizeStart 1 1, ReaderEmpty 1 False] @ read_values 1 [3, 4, 5, 6, 7, 8] @
     [ReaderEmpty 1 True]"

definition test_NotificationDuringRead :: fifo_test where
  "test_NotificationDuringRead =
     [AssociateReader 1, PushValue 1, PushValue 2, SynchronizeStart 1 2, ReaderPop 1 0, PushValue 3, ReaderRelease 1 0,
      ReaderPop 1 0, ReaderRelease 1 0, ReaderEmpty 1 True] @ end_task 1 @
     [SynchronizeStart 1 1, ReaderEmpty 1 False, ReaderPop 1 0, Null 0 False, Holds 0 3, ReaderEmpty 1 True]"

definition test_ReaderReleaseShuffled :: fifo_test where
  "test_ReaderReleaseShuffled =
     [AssociateReader 1, Pushed 1, Pushed 2, Pushed 3, SynchronizeStart 1 3, ReaderPop 1 1, Holds 1 1, ReaderPop 1 2,
      Holds 2 2, ReaderPop 1 3, Holds 3 3, ReaderRelease 1 2, Allocate 2, Holds 2 2]"

section \<open>Several readers\<close>

definition test_OrderingTwoReaderSequence :: fifo_test where
  "test_OrderingTwoReaderSequence =
     [AssociateReader 1, AssociateReader 2] @ push_values [1, 2, 3, 4, 5, 6, 7] @ [SynchronizeStart 1 7] @
     read_values 1 [1, 2, 3, 4, 5, 6, 7] @ end_task 1 @ [SynchronizeStart 2 7] @ read_values 2 [1, 2, 3, 4, 5, 6, 7]"

definition test_OrderingTwoReaderDifferentAmount :: fifo_test where
  "test_OrderingTwoReaderDifferentAmount =
     [AssociateReader 1, AssociateReader 2] @ push_values [1, 2, 3] @ [SynchronizeStart 2 3] @
     read_values 2 [1, 2, 3] @ end_task 2 @ [ReaderEmpty 1 True, ReaderEmpty 2 True] @ push_values [4, 5, 6, 7] @
     [SynchronizeStart 1 7] @ read_values 1 [1, 2, 3, 4, 5, 6, 7] @ end_task 1 @
     [ReaderEmpty 1 True, SynchronizeStart 2 4] @ read_values 2 [4, 5, 6, 7] @ [ReaderEmpty 2 True]"

definition test_OrderingTwoReaderParallel :: fifo_test where
  "test_OrderingTwoReaderParallel =
     [AssociateReader 1, AssociateReader 2] @ push_values [1, 2, 3, 4, 5, 6, 7] @
     [SynchronizeStart 1 7, SynchronizeStart 2 7] @ read_values 1 [1, 2] @ read_values 2 [1, 2, 3] @
     read_values 1 [3, 4, 5, 6, 7] @ read_values 2 [4, 5, 6, 7]"

definition test_OrderingTwoReaderSequentially :: fifo_test where
  "test_OrderingTwoReaderSequentially =
     [AssociateReader 1, AssociateReader 2] @ push_values [1, 2, 3, 4, 5, 6, 7] @ [SynchronizeStart 1 7] @
     read_values 1 [1, 2, 3, 4, 5, 6, 7] @ end_task 1 @ [on_world (TaskReset 2), SynchronizeStart 2 7] @
     read_values 2 [1, 2, 3, 4, 5, 6, 7] @ [SynchronizeEnd 2]"

definition test_OrderingTwoReaderSequentiallyWithFillingInBetween :: fifo_test where
  "test_OrderingTwoReaderSequentiallyWithFillingInBetween =
     [AssociateReader 1, AssociateReader 2] @ push_values [1, 2, 3] @ [SynchronizeStart 1 3] @
     read_values 1 [1, 2, 3] @ [SynchronizeEnd 1] @ push_values [4, 5, 6, 7] @
     [on_world (TaskReset 1), on_world (TaskReset 2), SynchronizeStart 1 4] @ read_values 1 [4, 5, 6, 7] @
     [SynchronizeEnd 1, SynchronizeStart 2 7] @ read_values 2 [1, 2, 3, 4, 5, 6, 7] @ [SynchronizeEnd 2]"

definition test_ReleaseFirstReader :: fifo_test where
  "test_ReleaseFirstReader =
     [AssociateReader 1, AssociateReader 2, PushValue 1, SynchronizeStart 1 1] @ read_values 1 [1] @ end_task 1 @
     [SynchronizeStart 2 1] @ read_values 2 [1] @ end_task 2 @
     [ReleaseReader 1, PushValue 2, SynchronizeStart 1 1, ReaderEmpty 1 True, SynchronizeStart 2 1,
      ReaderPop 2 0, Null 0 False, Holds 0 2]"

definition test_ReleaseSecondReader :: fifo_test where
  "test_ReleaseSecondReader =
     [AssociateReader 1, AssociateReader 2, PushValue 1, SynchronizeStart 1 1] @ read_values 1 [1] @ end_task 1 @
     [SynchronizeStart 2 1] @ read_values 2 [1] @ end_task 2 @
     [ReleaseReader 2, PushValue 2, SynchronizeStart 1 1, ReaderPop 1 0, Null 0 False, Holds 0 2] @ end_task 1 @
     [SynchronizeStart 2 1, ReaderEmpty 2 True]"

definition test_ReleaseMiddleReader :: fifo_test where
  "test_ReleaseMiddleReader =
     [AssociateReader 1, AssociateReader 3, AssociateReader 2, PushValue 1, SynchronizeStart 1 1, ReaderPop 1 0,
      ReaderRelease 1 0] @ end_task 1 @
     [SynchronizeStart 2 1, SynchronizeStart 3 1, ReaderPop 2 0, ReaderRelease 2 0, ReaderPop 3 0, ReaderRelease 3 0] @
     end_task 2 @ end_task 3 @
     [ReleaseReader 2, PushValue 2, SynchronizeStart 1 1, ReaderPop 1 0, Null 0 False, Holds 0 2, ReaderEmpty 1 True,
      ReaderEmpty 2 True, ReaderEmpty 3 True] @ end_task 1 @
     [ReaderRelease 1 0, SynchronizeStart 2 1, ReaderPop 2 0, Null 0 True] @ end_task 2 @
     [SynchronizeStart 3 1, ReaderPop 3 0, Null 0 False, Holds 0 2]"

definition test_RemoveAllReaders :: fifo_test where
  "test_RemoveAllReaders =
     [AssociateReader 1, AssociateReader 2, AssociateReader 3, ReleaseReader 1, ReleaseReader 2, ReleaseReader 3,
      PushValue 45, FifoEmpty False, PopTo 0, Null 0 False, Holds 0 45]"

definition test_RemoveOneReaderNotAllRead :: fifo_test where
  "test_RemoveOneReaderNotAllRead =
     [AssociateReader 1, AssociateReader 2, PushValue 1, ReleaseReader 1, SynchronizeStart 2 1, ReaderPop 2 0,
      ReaderRelease 2 0] @ end_task 2 @ push_values [2, 3, 4, 5, 6, 7, 8] @ [SynchronizeStart 2 7] @
     [ReaderPop 2 0, ReaderPop 2 0, ReaderPop 2 0, ReaderPop 2 0, ReaderPop 2 0, ReaderPop 2 0, ReaderEmpty 2 False,
      ReaderPop 2 0, Null 0 False, Holds 0 8, ReaderEmpty 2 True]"

definition test_ReaderNoConsumeAfterAssociate :: fifo_test where
  "test_ReaderNoConsumeAfterAssociate =
     [AssociateReader 1, PushValue 1, AssociateReader 2, PushValue 2, SynchronizeStart 2 2] @ read_values 2 [1, 2] @
     end_task 2 @ [SynchronizeStart 1 2] @
     concat (map (\<lambda>v. [ReaderPop 1 0, Null 0 False, Holds 0 v]) [1, 2])"

section \<open>The model passes them\<close>

lemmas reader_eval = reader_test_def reader_fixture_def push_values_def read_values_def end_task_def fifo_eval

lemma one_reader:
  "reader_test test_OneReaderIsEmpty" "reader_test test_OneReaderFullCycle" "reader_test test_OneReaderNoPush"
  by (simp_all add: test_OneReaderIsEmpty_def test_OneReaderFullCycle_def test_OneReaderNoPush_def reader_eval cong: eval_cong)

lemma one_reader_meanwhile:
  "reader_test test_NotificationDuringRead" "reader_test test_ReaderReleaseShuffled"
  by (simp_all add: test_NotificationDuringRead_def test_ReaderReleaseShuffled_def reader_eval cong: eval_cong)

lemma one_reader_messages:
  "reader_test test_OneReaderSevenMessages"
  by (simp_all add: test_OneReaderSevenMessages_def reader_eval cong: eval_cong)

lemma one_reader_ordered:
  "reader_test test_OneReaderOrdering"
  by (simp_all add: test_OneReaderOrdering_def reader_eval cong: eval_cong)

lemma one_reader_rest:
  "reader_test test_OneReaderNoFullRead"
  by (simp_all add: test_OneReaderNoFullRead_def reader_eval cong: eval_cong)

lemma two_readers_sequence:
  "reader_test test_OrderingTwoReaderSequence"
  by (simp_all add: test_OrderingTwoReaderSequence_def reader_eval cong: eval_cong)

lemma two_readers_amount:
  "reader_test test_OrderingTwoReaderDifferentAmount"
  by (simp_all add: test_OrderingTwoReaderDifferentAmount_def reader_eval cong: eval_cong)

lemma two_readers_parallel:
  "reader_test test_OrderingTwoReaderParallel"
  by (simp_all add: test_OrderingTwoReaderParallel_def reader_eval cong: eval_cong)

lemma two_readers_sequentially:
  "reader_test test_OrderingTwoReaderSequentially"
  by (simp_all add: test_OrderingTwoReaderSequentially_def reader_eval cong: eval_cong)

lemma two_readers_filling:
  "reader_test test_OrderingTwoReaderSequentiallyWithFillingInBetween"
  by (simp_all add: test_OrderingTwoReaderSequentiallyWithFillingInBetween_def reader_eval cong: eval_cong)

lemma released_readers:
  "reader_test test_ReleaseFirstReader" "reader_test test_ReleaseSecondReader"
  by (simp_all add: test_ReleaseFirstReader_def test_ReleaseSecondReader_def reader_eval cong: eval_cong)

lemma released_middle_reader:
  "reader_test test_ReleaseMiddleReader"
  by (simp_all add: test_ReleaseMiddleReader_def reader_eval cong: eval_cong)

lemma removed_readers:
  "reader_test test_RemoveAllReaders" "reader_test test_ReaderNoConsumeAfterAssociate"
  by (simp_all add: test_RemoveAllReaders_def test_ReaderNoConsumeAfterAssociate_def reader_eval cong: eval_cong)

lemma removed_one_reader:
  "reader_test test_RemoveOneReaderNotAllRead"
  by (simp_all add: test_RemoveOneReaderNotAllRead_def reader_eval cong: eval_cong)

end
