(* ===== verification/BufferTests.thy ===== *)
theory BufferTests
  imports TestBench DataChannels PolicyFifo
begin

text \<open>
  The tests of the single buffer (\<^verbatim>\<open>channels/test/testSingleBuffer.cpp\<close>), of the double buffer
  (\<^verbatim>\<open>channels/test/testDoubleBuffer.cpp\<close>) and of the signal channel
  (\<^verbatim>\<open>channels/test/testSignalChannel.cpp\<close>).
\<close>

section \<open>Single buffer\<close>

text \<open>The channel is channel 0 and connected to input 0 of task 0.\<close>

record single_fixture =
  sf_world :: "lifo_policy world"
  sf_buffer :: "int single_buffer"

type_synonym single_action = "single_fixture \<Rightarrow> (single_fixture \<times> bool) res"

definition SingleWorld :: "lifo_policy action \<Rightarrow> single_action" where
  "SingleWorld a s = bindR (a (sf_world s)) (\<lambda>(w, b). Inr (s\<lparr>sf_world := w\<rparr>, b))"

definition sent_single :: "(int single_buffer \<times> lifo_policy world) res \<Rightarrow> single_action" where
  "sent_single r s = bindR r (\<lambda>(b, w). Inr (s\<lparr>sf_buffer := b, sf_world := w\<rparr>, True))"

definition SingleSend :: "int \<Rightarrow> single_action" where
  "SingleSend v s = sent_single (sb_send v 0 (sf_buffer s, sf_world s)) s"

definition SingleSendPointer :: "int pointer \<Rightarrow> single_action" where
  "SingleSendPointer p s = sent_single (sb_send_pointer p 0 (sf_buffer s, sf_world s)) s"

text \<open>\<^verbatim>\<open>int* pointer = channel.getBuffer(); *pointer = v\<close>: the buffer has only one address.\<close>

definition SingleStore :: "int \<Rightarrow> single_action" where
  "SingleStore v s = Inr (s\<lparr>sf_buffer := (sf_buffer s)\<lparr>sb_data := v\<rparr>\<rparr>, True)"

definition SingleRead :: "int \<Rightarrow> single_action" where
  "SingleRead v s = Inr (s, sb_read (sf_buffer s) = v)"

text \<open>\<^verbatim>\<open>SingleBuffer<int> constructedChannel(v, name)\<close>, a second channel in place of the first one.\<close>

definition SingleConstruct :: "int \<Rightarrow> string \<Rightarrow> single_action" where
  "SingleConstruct v name s = bindR (channel_create_named 1 PlainChannel (Some (c_string name)) (sf_world s))
     (\<lambda>w. Inr (s\<lparr>sf_world := w, sf_buffer := sb_init v\<rparr>, True))"

definition single_set_up :: "single_action list" where
  "single_set_up = map SingleWorld [NewTask 0 0 [0], Configure 0 1 False, NewChannel 0 0, ConfigureInput 0 0 0]"

definition single_test :: "single_action list \<Rightarrow> bool" where
  "single_test cs = run_test (\<lambda>a s. a s) (single_set_up @ cs)
     \<lparr>sf_world = world_init lifo_ops lifo_init, sf_buffer = sb_init 0\<rparr>"

definition test_single_ConstructionWithId :: "single_action list" where
  "test_single_ConstructionWithId = map SingleWorld [NewChannel 1 1726, ChannelIdIs 1 1726]"

definition test_single_ConstructionWithName :: "single_action list" where
  "test_single_ConstructionWithName = map SingleWorld [NamedChannel 1 ''HoHo'', ChannelIdIs 1 0x486F486F]"

definition test_assignmentConstruction :: "single_action list" where
  "test_assignmentConstruction = [SingleConstruct 42 ''HoHo'', SingleRead 42]"

definition test_send :: "single_action list" where
  "test_send = [SingleSend 42, SingleRead 42, SingleWorld (Activated 0 True)]"

definition test_single_sendPointer :: "single_action list" where
  "test_single_sendPointer = [SingleSendPointer (Elsewhere 42), SingleRead 42, SingleWorld (Activated 0 True)]"

definition test_single_allocateSend :: "single_action list" where
  "test_single_allocateSend =
     [SingleSend 42, SingleRead 42, SingleWorld (TaskReset 0), SingleStore 24, SingleSendPointer (Internal 0),
      SingleRead 24, SingleWorld (Activated 0 True)]"

lemmas name_eval = getChannelId_def channel_create_named_def getIdentificationFromName_def id_loop.simps c_string_def

lemmas single_eval = single_test_def single_set_up_def SingleWorld_def sent_single_def SingleSend_def
  SingleSendPointer_def SingleStore_def SingleRead_def SingleConstruct_def sb_init_def sb_read_def sb_send_def
  sb_send_pointer_def name_eval world_eval

lemma single_constructed:
  "single_test test_single_ConstructionWithId" "single_test test_single_ConstructionWithName"
  "single_test test_assignmentConstruction"
  by (simp_all add: test_single_ConstructionWithId_def test_single_ConstructionWithName_def
      test_assignmentConstruction_def single_eval cong: eval_cong)

lemma single_sends: "single_test test_send" "single_test test_single_sendPointer" "single_test test_single_allocateSend"
  by (simp_all add: test_send_def test_single_sendPointer_def test_single_allocateSend_def single_eval cong: eval_cong)

section \<open>Double buffer\<close>

text \<open>The pointer variables of a test are numbered; a pointer into the buffer is an index.\<close>

record double_fixture =
  df_world :: "lifo_policy world"
  df_buffer :: "int double_buffer"
  df_pointers :: "nat \<Rightarrow> nat"

type_synonym double_action = "double_fixture \<Rightarrow> (double_fixture \<times> bool) res"

definition DoubleWorld :: "lifo_policy action \<Rightarrow> double_action" where
  "DoubleWorld a s = bindR (a (df_world s)) (\<lambda>(w, b). Inr (s\<lparr>df_world := w\<rparr>, b))"

definition sent_double :: "(int double_buffer \<times> lifo_policy world) res \<Rightarrow> double_action" where
  "sent_double r s = bindR r (\<lambda>(b, w). Inr (s\<lparr>df_buffer := b, df_world := w\<rparr>, True))"

definition DoubleSend :: "int \<Rightarrow> double_action" where
  "DoubleSend v s = sent_double (db_send v 0 (df_buffer s, df_world s)) s"

definition DoubleSendPointer :: "int pointer \<Rightarrow> double_action" where
  "DoubleSendPointer p s = sent_double (db_send_pointer p 0 (df_buffer s, df_world s)) s"

text \<open>\<^verbatim>\<open>p = &channel.read()\<close>, \<^verbatim>\<open>p = channel.getBuffer()\<close>, \<^verbatim>\<open>*p = v\<close> and \<^verbatim>\<open>channel.send(p)\<close>\<close>

definition PointToRead :: "nat \<Rightarrow> double_action" where
  "PointToRead x s = Inr (s\<lparr>df_pointers := (df_pointers s)(x := db_read (df_buffer s))\<rparr>, True)"

definition PointToBuffer :: "nat \<Rightarrow> double_action" where
  "PointToBuffer x s = Inr (s\<lparr>df_pointers := (df_pointers s)(x := db_getBuffer (df_buffer s))\<rparr>, True)"

definition StoreThrough :: "nat \<Rightarrow> int \<Rightarrow> double_action" where
  "StoreThrough x v s = Inr (s\<lparr>df_buffer := (df_buffer s)
     \<lparr>db_data := (db_data (df_buffer s))[df_pointers s x := v]\<rparr>\<rparr>, True)"

definition SendPointed :: "nat \<Rightarrow> double_action" where
  "SendPointed x s = DoubleSendPointer (Internal (df_pointers s x)) s"

definition PointersDiffer :: "nat \<Rightarrow> nat \<Rightarrow> bool \<Rightarrow> double_action" where
  "PointersDiffer x y b s = Inr (s, (df_pointers s x \<noteq> df_pointers s y) = b)"

definition PointsTo :: "nat \<Rightarrow> int \<Rightarrow> double_action" where
  "PointsTo x v s = Inr (s, db_data (df_buffer s) ! df_pointers s x = v)"

definition DoubleRead :: "int \<Rightarrow> double_action" where
  "DoubleRead v s = Inr (s, db_data (df_buffer s) ! db_read (df_buffer s) = v)"

definition DoubleBack :: "int \<Rightarrow> double_action" where
  "DoubleBack v s = Inr (s, db_data (df_buffer s) ! db_getBuffer (df_buffer s) = v)"

definition DoubleConstruct :: "int \<Rightarrow> double_action" where
  "DoubleConstruct v s = Inr (s\<lparr>df_world := channel_create 1 PlainChannel 0 (df_world s), df_buffer := db_init v\<rparr>, True)"

definition DoubleConstructNamed :: "int \<Rightarrow> string \<Rightarrow> double_action" where
  "DoubleConstructNamed v name s = bindR (channel_create_named 1 PlainChannel (Some (c_string name)) (df_world s))
     (\<lambda>w. Inr (s\<lparr>df_world := w, df_buffer := db_init v\<rparr>, True))"

definition double_set_up :: "double_action list" where
  "double_set_up = map DoubleWorld
     [NewTask 0 0 [0], Configure 0 1 False, NewChannel 0 0, ConfigureInput 0 0 0, Start True]"

definition double_test :: "double_action list \<Rightarrow> bool" where
  "double_test cs = run_test (\<lambda>a s. a s) (double_set_up @ cs)
     \<lparr>df_world = world_init lifo_ops lifo_init, df_buffer = db_init 0, df_pointers = (\<lambda>_. 0)\<rparr>"

definition test_double_constructionWithId :: "double_action list" where
  "test_double_constructionWithId = map DoubleWorld [NewChannel 1 1726, ChannelIdIs 1 1726]"

definition test_double_constructionWithName :: "double_action list" where
  "test_double_constructionWithName = map DoubleWorld [NamedChannel 1 ''HoHo'', ChannelIdIs 1 0x486F486F]"

definition test_initializedConstruction :: "double_action list" where
  "test_initializedConstruction = [DoubleConstruct 42, DoubleRead 42, DoubleBack 42]"

definition test_initializedConstructionWithName :: "double_action list" where
  "test_initializedConstructionWithName =
     [DoubleConstructNamed 47 ''HoHo'', DoubleRead 47, DoubleBack 47, DoubleWorld (ChannelIdIs 1 0x486F486F)]"

definition test_sendValue :: "double_action list" where
  "test_sendValue = [DoubleSend 42, DoubleWorld (Activated 0 True), DoubleRead 42]"

definition test_divergentPointerBetweenExecutions :: "double_action list" where
  "test_divergentPointerBetweenExecutions =
     [PointToRead 0, DoubleSend 42, DoubleWorld (Schedule 0), PointToRead 1, PointersDiffer 0 1 True, DoubleSend 42,
      PointToRead 1, PointersDiffer 0 1 False]"

definition test_divergentPointerBetweenReadAndAllocated :: "double_action list" where
  "test_divergentPointerBetweenReadAndAllocated =
     [PointToRead 0, PointToBuffer 1, PointersDiffer 0 1 True, DoubleSend 0, PointToBuffer 2, PointersDiffer 0 2 False]"

definition test_double_sendPointer :: "double_action list" where
  "test_double_sendPointer = [DoubleSendPointer (Elsewhere 42), DoubleRead 42, DoubleWorld (Activated 0 True)]"

definition test_allocateSendPointer :: "double_action list" where
  "test_allocateSendPointer =
     [PointToBuffer 0, DoubleWorld (Activated 0 False), StoreThrough 0 24, SendPointed 0, DoubleRead 24,
      DoubleWorld (Activated 0 True)]"

definition test_double_allocateSend :: "double_action list" where
  "test_double_allocateSend =
     [PointToBuffer 0, StoreThrough 0 24, DoubleSendPointer (Elsewhere 42), DoubleRead 42, PointsTo 0 42,
      DoubleWorld (Activated 0 True)]"

lemma replicate_two: "replicate 2 x = [x, x]"
  by (simp add: numeral_2_eq_2)

lemmas double_eval = double_test_def double_set_up_def DoubleWorld_def sent_double_def DoubleSend_def
  DoubleSendPointer_def PointToRead_def PointToBuffer_def StoreThrough_def SendPointed_def PointersDiffer_def
  PointsTo_def DoubleRead_def DoubleBack_def DoubleConstruct_def DoubleConstructNamed_def db_init_def db_read_def
  db_getBuffer_def db_send_def db_send_pointer_def replicate_two name_eval world_eval

lemma double_constructed:
  "double_test test_double_constructionWithId" "double_test test_double_constructionWithName"
  "double_test test_initializedConstruction" "double_test test_initializedConstructionWithName"
  by (simp_all add: test_double_constructionWithId_def test_double_constructionWithName_def
      test_initializedConstruction_def test_initializedConstructionWithName_def double_eval cong: eval_cong)

lemma double_diverges:
  "double_test test_divergentPointerBetweenExecutions" "double_test test_divergentPointerBetweenReadAndAllocated"
  by (simp_all add: test_divergentPointerBetweenExecutions_def test_divergentPointerBetweenReadAndAllocated_def
      double_eval cong: eval_cong)

lemma double_sends:
  "double_test test_sendValue" "double_test test_double_sendPointer" "double_test test_allocateSendPointer"
  "double_test test_double_allocateSend"
  by (simp_all add: test_sendValue_def test_double_sendPointer_def test_allocateSendPointer_def
      test_double_allocateSend_def double_eval cong: eval_cong)

section \<open>Signal channel\<close>

text \<open>\<^verbatim>\<open>FakeTask\<close> keeps a value and a flag, here in two counters that are no barriers of the test.\<close>

definition set_counter :: "channel_id \<Rightarrow> uint \<Rightarrow> 'p world \<Rightarrow> 'p world" where
  "set_counter c n = upd_barrier c (\<lambda>b. b\<lparr>counter := n\<rparr>)"

definition fake_value :: channel_id where "fake_value = 3000"
definition fake_flag :: channel_id where "fake_flag = 4000"

definition fake_execute :: "task_id \<Rightarrow> 'p world \<Rightarrow> 'p world res" where
  "fake_execute t w =
     Inr (if counter (w_barriers w fake_flag) \<noteq> 0 then set_counter fake_flag 0 (set_counter fake_value 42 w)
          else set_counter fake_flag 1 (set_counter fake_value 100 w))"

definition NewFakeTask :: "task_id \<Rightarrow> input_id \<Rightarrow> 'p action" where
  "NewFakeTask t i w = call (bindR (task_create_named t (Some (c_string ''FakeTask'')) [i] w)
     (\<lambda>w1. Inr (set_counter fake_flag 1 (set_counter fake_value 0
                  (upd_input i (input_configure 1 True) (task_construct t w1))))))"

definition FakeSchedule :: "time \<Rightarrow> 'p action" where
  "FakeSchedule t w = call (schedule fake_execute t w)"

definition SignalTrigger :: "channel_id \<Rightarrow> 'p action" where
  "SignalTrigger c w = call (signal_trigger c w)"

definition FakeValue :: "uint \<Rightarrow> 'p action" where
  "FakeValue n w = Inr (w, counter (w_barriers w fake_value) = n)"

definition test_activatesInput :: "fifo_policy action list" where
  "test_activatesInput =
     [NewChannel 0 42, ChannelIdIs 0 42, NewFakeTask 0 0, ConfigureInput 0 0 0, FakeValue 0, Start True,
      FakeSchedule 0, FakeValue 0, SignalTrigger 0, FakeSchedule 0, FakeValue 42, SignalTrigger 0, FakeSchedule 0,
      FakeValue 100, SignalTrigger 0, FakeSchedule 0, FakeValue 42]"

lemma signal_activates: "run_test (\<lambda>a w. a w) test_activatesInput (world_init fifo_ops fifo_init)"
  by (simp add: test_activatesInput_def NewFakeTask_def FakeSchedule_def SignalTrigger_def FakeValue_def
      set_counter_def fake_value_def fake_flag_def fake_execute_def task_create_named_def signal_trigger_def
      fifo_ops_def fifo_init_def fifo_queue_def fifo_nextTask_def name_eval world_eval cong: eval_cong)

end
