(* ===== verification/CustomPlatform.thy ===== *)
theory CustomPlatform
  imports UnitTestScheduler
begin

text \<open>
  The execution model of the example \<^verbatim>\<open>examples/customPlatform\<close>, which ports the framework to a platform
  without threads: a mutex and a signaler that report a wrong use on the error stream instead of failing, a
  clock that a call of \<^verbatim>\<open>tick\<close> moves on, and a scheduler that does its work in \<^verbatim>\<open>step\<close>. The text
  on the error stream is a list of messages.
\<close>

section \<open>Mutex and signaler\<close>

text \<open>A message names the method and says whether it reports an error.\<close>

datatype custom_message = Entered bool | Left bool | Waited bool | Signalled bool

record custom_mutex =
  custom_occupied :: bool
  custom_log :: "custom_message list"

definition custom_mutex_init :: custom_mutex where
  "custom_mutex_init = \<lparr>custom_occupied = False, custom_log = []\<rparr>"

definition custom_enter :: "custom_mutex \<Rightarrow> custom_mutex" where
  "custom_enter m = m\<lparr>custom_log := custom_log m @ [Entered (custom_occupied m)], custom_occupied := True\<rparr>"

definition custom_leave :: "custom_mutex \<Rightarrow> custom_mutex" where
  "custom_leave m = m\<lparr>custom_log := custom_log m @ [Left (\<not> custom_occupied m)], custom_occupied := False\<rparr>"

text \<open>The signaler is a mutex; \<^verbatim>\<open>wait\<close> does not wait.\<close>

definition custom_wait :: "custom_mutex \<Rightarrow> custom_mutex" where
  "custom_wait m = m\<lparr>custom_log := custom_log m @ [Waited (\<not> custom_occupied m)]\<rparr>"

definition custom_signal :: "custom_mutex \<Rightarrow> custom_mutex" where
  "custom_signal m = m\<lparr>custom_log := custom_log m @ [Signalled (\<not> custom_occupied m)]\<rparr>"

text \<open>The calls inside a critical section report no error; a mutex that is entered twice is reported, and after
  it has been left once it is free.\<close>

lemma custom_guarded:
  "custom_log (custom_leave (custom_signal (custom_wait (custom_enter custom_mutex_init)))) =
     [Entered False, Waited False, Signalled False, Left False]"
  "custom_log (custom_leave (custom_leave (custom_enter (custom_enter custom_mutex_init)))) =
     [Entered False, Entered True, Left False, Left True]"
  by (simp_all add: custom_enter_def custom_leave_def custom_wait_def custom_signal_def custom_mutex_init_def)

section \<open>Clock\<close>

record custom_clock =
  zeroTime :: time
  currentTime :: time

definition custom_clock_init :: custom_clock where
  "custom_clock_init = \<lparr>zeroTime = 0, currentTime = 0\<rparr>"

definition custom_tick :: "custom_clock \<Rightarrow> custom_clock" where
  "custom_tick c = c\<lparr>currentTime := currentTime c + 1\<rparr>"

definition custom_getTime :: "custom_clock \<Rightarrow> time" where
  "custom_getTime c = currentTime c - zeroTime c"

definition custom_setZeroTime :: "time \<Rightarrow> custom_clock \<Rightarrow> custom_clock" where
  "custom_setZeroTime offset c =
     (let c1 = c\<lparr>zeroTime := offset\<rparr>
      in if offset > currentTime c1 then c1\<lparr>currentTime := zeroTime c1\<rparr> else c1)"

text \<open>A tick moves the time on by one millisecond, also over the end of the range.\<close>

lemma custom_tick_time: "custom_getTime (custom_tick c) = custom_getTime c + 1"
  by (simp add: custom_getTime_def custom_tick_def)

lemma custom_ticks_time: "custom_getTime ((custom_tick ^^ n) c) = custom_getTime c + of_nat n"
  by (induction n) (simp_all add: custom_tick_time)

text \<open>After a new zero time and \<open>n\<close> ticks the clock shows the time by which the clock was beyond the new zero
  time, or 0, and \<open>n\<close> milliseconds more.\<close>

lemma custom_time_from_zero:
  "custom_getTime ((custom_tick ^^ n) (custom_setZeroTime z c)) =
    (if z < currentTime c then currentTime c - z else 0) + of_nat n"
proof -
  have "custom_getTime (custom_setZeroTime z c) = (if z < currentTime c then currentTime c - z else 0)"
    by (auto simp: custom_getTime_def custom_setZeroTime_def Let_def)
  then show ?thesis by (simp add: custom_ticks_time)
qed

text \<open>The time never falls below zero before the clock wraps around.\<close>

lemma custom_zero_below: "zeroTime (custom_setZeroTime z c) \<le> currentTime (custom_setZeroTime z c)"
  by (auto simp: custom_setZeroTime_def Let_def not_less)

lemma custom_tick_above:
  assumes "zeroTime c \<le> currentTime c" and "currentTime c \<noteq> endOfTime"
  shows "zeroTime (custom_tick c) \<le> currentTime (custom_tick c)"
proof -
  have "currentTime c + 1 \<noteq> 0" using assms(2) by (auto simp: endOfTime_def dest: eq_neg_iff_add_eq_0 [THEN iffD2])
  then have "unat (currentTime c + 1) = Suc (unat (currentTime c))" by (simp add: unatSuc add.commute)
  then show ?thesis using assms(1) by (simp add: custom_tick_def word_le_nat_alt)
qed

section \<open>Scheduler\<close>

text \<open>\<^verbatim>\<open>if (clock.isPending()) { handleEvents(); }\<close>\<close>

definition handle_if_pending :: "'p world \<Rightarrow> 'p world res" where
  "handle_if_pending w = (if isPending (w_now w) (w_clock w) then handleEvents w else Inr w)"

text \<open>The loop over the tasks in the run queue.\<close>

partial_function (option) custom_loop ::
  "(task_id \<Rightarrow> 'p world \<Rightarrow> 'p world res) \<Rightarrow> 'p world \<Rightarrow> 'p world res option" where
  "custom_loop app w =
     (case pol_nextTask (w_ops w) (w_policy w) of
        Inl e \<Rightarrow> Some (Inl e)
      | Inr r \<Rightarrow>
          (case snd r of
             None \<Rightarrow> Some (Inr (w\<lparr>w_policy := fst r\<rparr>))
           | Some t \<Rightarrow>
               (case bindR (execute app t (w\<lparr>w_policy := fst r\<rparr>)) handle_if_pending of
                  Inl e \<Rightarrow> Some (Inl e)
                | Inr w1 \<Rightarrow> custom_loop app w1)))"

declare custom_loop.simps [code]

text \<open>The world reads the time of the clock; a tick moves it on by one.\<close>

definition custom_step :: "(task_id \<Rightarrow> 'p world \<Rightarrow> 'p world res) \<Rightarrow> 'p world \<Rightarrow> 'p world res" where
  "custom_step app w =
     bindR (handle_if_pending (step_time 1 w))
       (\<lambda>w1. case custom_loop app w1 of None \<Rightarrow> Inl Diverges | Some r \<Rightarrow> r)"

definition custom_waitUntilEmpty :: "(task_id \<Rightarrow> 'p world \<Rightarrow> 'p world res) \<Rightarrow> 'p world \<Rightarrow> 'p world res" where
  "custom_waitUntilEmpty app = custom_step app"

section \<open>Steps without events\<close>

text \<open>\<open>P\<close> is kept by the executions of the application, and no event waits while it holds.\<close>

definition keeps_quiet :: "(task_id \<Rightarrow> 'p world \<Rightarrow> 'p world res) \<Rightarrow> ('p world \<Rightarrow> bool) \<Rightarrow> bool" where
  "keeps_quiet app P \<longleftrightarrow> (\<forall>w. P w \<longrightarrow> queueHead (w_clock w) = None) \<and>
     (\<forall>w p t w'. P w \<longrightarrow> pol_nextTask (w_ops w) (w_policy w) = Inr (p, Some t) \<longrightarrow>
        execute app t (w\<lparr>w_policy := p\<rparr>) = Inr w' \<longrightarrow> P w')"

lemma quiet_no_event:
  assumes "keeps_quiet app P" and "P w"
  shows "\<not> isPending (w_now w) (w_clock w)" "handle_if_pending w = Inr w" "handleEvents w = Inr w"
proof -
  have "queueHead (w_clock w) = None" using assms by (simp add: keeps_quiet_def)
  then show "\<not> isPending (w_now w) (w_clock w)" "handle_if_pending w = Inr w" "handleEvents w = Inr w"
    by (simp_all add: handle_if_pending_def isPending_def no_event_handle)
qed

lemma quiet_executed:
  assumes "keeps_quiet app P" and "P w" and "pol_nextTask (w_ops w) (w_policy w) = Inr (p, Some t)"
  shows "bindR (execute app t (w\<lparr>w_policy := p\<rparr>)) handle_if_pending = execute app t (w\<lparr>w_policy := p\<rparr>)"
proof (cases "execute app t (w\<lparr>w_policy := p\<rparr>)")
  case (Inr w')
  then have "P w'" using assms unfolding keeps_quiet_def by blast
  then show ?thesis using Inr quiet_no_event [OF assms(1)] by simp
qed simp

lemma quiet_next:
  assumes "keeps_quiet app P" and "P w" and "pol_nextTask (w_ops w) (w_policy w) = Inr (p, Some t)"
    and "execute app t (w\<lparr>w_policy := p\<rparr>) = Inr w'"
  shows "P w'"
  using assms unfolding keeps_quiet_def by blast

text \<open>In a quiet state the bodies of the loops are the same, and so is what they return, if they do.\<close>

lemma quiet_body:
  assumes "keeps_quiet app P" and "P w"
  shows "(case pol_nextTask (w_ops w) (w_policy w) of Inl e \<Rightarrow> Some (Inl e)
      | Inr q \<Rightarrow> (case snd q of None \<Rightarrow> Some (Inr (w\<lparr>w_policy := fst q\<rparr>))
          | Some t \<Rightarrow> (case bindR (execute app t (w\<lparr>w_policy := fst q\<rparr>)) handle_if_pending of
              Inl e \<Rightarrow> Some (Inl e) | Inr w1 \<Rightarrow> loop w1))) =
    (case pol_nextTask (w_ops w) (w_policy w) of Inl e \<Rightarrow> Some (Inl e)
      | Inr q \<Rightarrow> (case snd q of None \<Rightarrow> Some (Inr (w\<lparr>w_policy := fst q\<rparr>))
          | Some t \<Rightarrow> (case execute app t (w\<lparr>w_policy := fst q\<rparr>) of
              Inl e \<Rightarrow> Some (Inl e) | Inr w1 \<Rightarrow> loop w1)))"
  using quiet_executed [OF assms] by (auto split: sum.split option.split)

lemma custom_then_task:
  assumes "custom_loop app w = Some r" and "keeps_quiet app P" and "P w"
  shows "task_loop app w = Some r"
proof -
  have "keeps_quiet app P \<and> P w \<longrightarrow> task_loop app w = Some r"
  proof (rule custom_loop.raw_induct [OF _ assms(1)], rule impI, goal_cases)
    case (1 loop app w r)
    then have q: "keeps_quiet app P" "P w" by simp_all
    have ih: "loop app w1 = Some r \<Longrightarrow> P w1 \<Longrightarrow> task_loop app w1 = Some r" for w1
      using 1(1) [of app w1 r] q(1) by simp
    show ?case using 1(2) [unfolded quiet_body [OF q]] ih quiet_next [OF q]
      by (subst task_loop.simps) (auto split: sum.splits option.splits)
  qed
  then show ?thesis using assms(2,3) by blast
qed

lemma task_then_custom:
  assumes "task_loop app w = Some r" and "keeps_quiet app P" and "P w"
  shows "custom_loop app w = Some r \<and> (\<forall>w'. r = Inr w' \<longrightarrow> queueHead (w_clock w') = None)"
proof -
  have "keeps_quiet app P \<and> P w \<longrightarrow>
      custom_loop app w = Some r \<and> (\<forall>w'. r = Inr w' \<longrightarrow> queueHead (w_clock w') = None)"
  proof (rule task_loop.raw_induct [OF _ assms(1)], rule impI, goal_cases)
    case (1 loop app w r)
    then have q: "keeps_quiet app P" "P w" by simp_all
    have "queueHead (w_clock w) = None" using q unfolding keeps_quiet_def by blast
    moreover have ih: "loop app w1 = Some r \<Longrightarrow> P w1 \<Longrightarrow>
        custom_loop app w1 = Some r \<and> (\<forall>w'. r = Inr w' \<longrightarrow> queueHead (w_clock w') = None)" for w1
      using 1(1) [of app w1 r] q(1) by simp
    ultimately show ?case using 1(2) quiet_next [OF q]
      by (subst custom_loop.simps, subst quiet_body [OF q]) (auto split: sum.splits option.splits)
  qed
  then show ?thesis using assms(2,3) by blast
qed

lemma loops_agree:
  assumes "keeps_quiet app P" and "P w"
  shows "custom_loop app w = task_loop app w"
proof (cases "task_loop app w")
  case None
  have "custom_loop app w = None"
  proof (rule ccontr)
    assume "custom_loop app w \<noteq> None"
    then obtain r where "custom_loop app w = Some r" by blast
    then show False using custom_then_task [OF _ assms] None by auto
  qed
  then show ?thesis using None by simp
next
  case (Some r)
  then show ?thesis using task_then_custom [OF Some assms] by simp
qed

text \<open>C14: As long as no event waits in the clock, a step of the custom platform is the call \<^verbatim>\<open>schedule(1)\<close> of the unit
  test scheduler: from the same state, under every policy and with every application, it gives the
  same state, the same fault, or neither of them ends.\<close>
theorem custom_step_is_schedule:
  assumes "keeps_quiet app P" and "P (step_time 1 w)"
  shows "custom_step app w = schedule app 1 w"
proof -
  let ?w = "step_time 1 w"
  have step: "custom_step app w = (case task_loop app ?w of None \<Rightarrow> Inl Diverges | Some r \<Rightarrow> r)"
    using quiet_no_event(2) [OF assms] loops_agree [OF assms] by (simp add: custom_step_def)
  have quiet: "\<not> isPending (w_now w') (w_clock w')" if "task_loop app ?w = Some (Inr w')" for w'
    using task_then_custom [OF that assms] by (simp add: isPending_def)
  have "schedule_loop app ?w = task_loop app ?w"
    using quiet_no_event(3) [OF assms] quiet
    by (subst schedule_loop.simps) (auto split: option.split sum.split)
  then show ?thesis using step by (simp add: schedule_def)
qed

text \<open>A running system with one task that waits for a channel, with two notifications too many.\<close>

definition one_task_quiet :: "task_id \<Rightarrow> input_id \<Rightarrow> fifo_policy world \<Rightarrow> bool" where
  "one_task_quiet t i w \<longleftrightarrow> (run_inv fifo_queue fifo_nextTask fifo_rep w [t] {} \<or>
       run_inv fifo_queue fifo_nextTask fifo_rep w [] {}) \<and>
     one_input w t i \<and> w_running w \<and> queueHead (w_clock w) = None"

lemma one_task_keeps_quiet: "keeps_quiet (counting c) (one_task_quiet t i)"
  unfolding keeps_quiet_def
proof (intro conjI allI impI)
  fix w p u w'
  assume q: "one_task_quiet t i w" and n: "pol_nextTask (w_ops w) (w_policy w) = Inr (p, Some u)"
    and e: "execute (counting c) u (w\<lparr>w_policy := p\<rparr>) = Inr w'"
  have ops: "w_ops w = \<lparr>pol_queue = fifo_queue, pol_nextTask = fifo_nextTask\<rparr>"
    using q by (auto simp: one_task_quiet_def run_inv_def)
  have "\<not> run_inv fifo_queue fifo_nextTask fifo_rep w [] {}"
    using n ops by (auto simp: run_inv_def fifo_rep_def fifo_nextTask_def)
  then have i: "run_inv fifo_queue fifo_nextTask fifo_rep w [t] {}" "one_input w t i" "w_running w"
    and h: "queueHead (w_clock w) = None" using q by (auto simp: one_task_quiet_def)
  from fifo_open.task_loop_step [OF i, of c] n ops e h show "one_task_quiet t i w'"
    by (auto simp: one_task_quiet_def split: if_splits)
qed (simp add: one_task_quiet_def)

theorem custom_step_is_schedule_witness:
  "custom_step (counting 3)
     (upd_input 2 (\<lambda>x. x\<lparr>in_missed := 5, in_threshold := 2\<rparr>)
       (set_state 5 TASK_RUN ((demo_world fifo_ops fifo_init)\<lparr>w_policy := fifo_init\<lparr>fifo_head := Some 5, fifo_tail := Some 5\<rparr>\<rparr>))) =
   schedule (counting 3) 1
     (upd_input 2 (\<lambda>x. x\<lparr>in_missed := 5, in_threshold := 2\<rparr>)
       (set_state 5 TASK_RUN ((demo_world fifo_ops fifo_init)\<lparr>w_policy := fifo_init\<lparr>fifo_head := Some 5, fifo_tail := Some 5\<rparr>\<rparr>)))"
proof (rule custom_step_is_schedule [OF one_task_keeps_quiet])
  let ?p = "fifo_init\<lparr>fifo_head := Some 5, fifo_tail := Some 5\<rparr>"
  let ?w = "upd_input 2 (\<lambda>x. x\<lparr>in_missed := 5, in_threshold := 2\<rparr>)
       (set_state 5 TASK_RUN ((demo_world fifo_ops fifo_init)\<lparr>w_policy := ?p\<rparr>))"
  have "fifo_rep ?p [5]" by (simp add: fifo_rep_def fifo_init_def)
  then have "run_inv fifo_queue fifo_nextTask fifo_rep (step_time 1 ?w) [5] {}"
    by (simp add: run_inv_def demo_eval fifo_ops_def step_time_def)
  moreover have "one_input (step_time 1 ?w) 5 2" "w_running (step_time 1 ?w)" "queueHead (w_clock (step_time 1 ?w)) = None"
    by (simp_all add: one_input_def demo_eval plain_inputs_def clock_init_def step_time_def)
  ultimately show "one_task_quiet 5 2 (step_time 1 ?w)" by (simp add: one_task_quiet_def)
qed

end
