(* ===== verification/Examples.thy ===== *)
theory Examples
  imports TestBench PolicyFifo CustomPlatform
begin

text \<open>
  The example programs (\<^verbatim>\<open>examples\<close>): the numbers of \<^verbatim>\<open>channelExample.cpp\<close>, the lines of
  \<^verbatim>\<open>ioChannelExample.cpp\<close> and \<^verbatim>\<open>timeOutExample.cpp\<close>, and the networks of tasks of
  \<^verbatim>\<open>periodicTaskExample.cpp\<close>, \<^verbatim>\<open>multiparallelExample.cpp\<close>, \<^verbatim>\<open>filterExample.cpp\<close> and
  \<^verbatim>\<open>customPlatform\<close>. The networks run under the scheduler for unit tests in place of the executors, and
  a task counts its executions where the program prints.
\<close>

section \<open>The numbers of Fibonacci\<close>

text \<open>\<^verbatim>\<open>unsigned long long\<close> has 64 bits; \<open>fm_pushes\<close> counts the calls of \<^verbatim>\<open>Channel::push\<close>.\<close>

record fibonacci_memory =
  fm_array :: "64 word list"
  fm_newest :: uint
  fm_overflow :: bool
  fm_pushes :: nat

definition fm_init :: fibonacci_memory where
  "fm_init = \<lparr>fm_array = [0, 0], fm_newest = 0, fm_overflow = False, fm_pushes = 0\<rparr>"

definition pushFibo :: "64 word \<Rightarrow> fibonacci_memory \<Rightarrow> fibonacci_memory" where
  "pushFibo v m =
     (if v < fm_array m ! unat (fm_newest m) then m\<lparr>fm_overflow := True\<rparr>
      else let n = (fm_newest m + 1) mod 2
           in m\<lparr>fm_newest := n, fm_array := (fm_array m)[unat n := v], fm_pushes := Suc (fm_pushes m)\<rparr>)"

definition fm_get :: "uint \<Rightarrow> fibonacci_memory \<Rightarrow> 64 word" where
  "fm_get age m = (if age < 2 then fm_array m ! unat ((fm_newest m - age) mod 2) else 0)"

definition isOverflow :: "fibonacci_memory \<Rightarrow> bool" where
  "isOverflow m = fm_overflow m"

text \<open>\<^verbatim>\<open>FibonacciTask::execute\<close>\<close>

definition fibonacci_execute :: "fibonacci_memory \<Rightarrow> fibonacci_memory" where
  "fibonacci_execute m = pushFibo (fm_get 0 m + fm_get 1 m) m"

text \<open>The main program pushes 0 and 1; then the task is executed.\<close>

definition fibonacci_start :: fibonacci_memory where
  "fibonacci_start = pushFibo 1 (pushFibo 0 fm_init)"

fun fib :: "nat \<Rightarrow> nat" where
  "fib 0 = 0"
| "fib (Suc 0) = 1"
| "fib (Suc (Suc n)) = fib (Suc n) + fib n"

lemma fib_mono: "fib n \<le> fib (Suc n)"
  by (induction n rule: fib.induct) auto

text \<open>The memory holds two numbers, the newest one at \<open>fm_newest\<close>.\<close>

definition fm_holds :: "64 word \<Rightarrow> 64 word \<Rightarrow> fibonacci_memory \<Rightarrow> bool" where
  "fm_holds new old m \<longleftrightarrow>
     (fm_newest m = 0 \<and> fm_array m = [new, old] \<or> fm_newest m = 1 \<and> fm_array m = [old, new])"

lemma fm_get_held: "fm_holds new old m \<Longrightarrow> fm_get 0 m = new" "fm_holds new old m \<Longrightarrow> fm_get 1 m = old"
  by (auto simp: fm_holds_def fm_get_def)

lemma pushFibo_held:
  "fm_holds new old m \<Longrightarrow> \<not> v < new \<Longrightarrow> fm_holds v new (pushFibo v m) \<and> fm_overflow (pushFibo v m) = fm_overflow m"
  "fm_holds new old m \<Longrightarrow> v < new \<Longrightarrow> pushFibo v m = m\<lparr>fm_overflow := True\<rparr>"
  by (auto simp: fm_holds_def pushFibo_def Let_def)

lemma fibonacci_step:
  assumes "fm_holds (of_nat (fib (Suc n))) (of_nat (fib n)) m" and "fib (Suc n) < 2 ^ 64"
  shows "fib (Suc (Suc n)) < 2 ^ 64 \<Longrightarrow>
      fm_holds (of_nat (fib (Suc (Suc n)))) (of_nat (fib (Suc n))) (fibonacci_execute m) \<and>
      fm_overflow (fibonacci_execute m) = fm_overflow m"
    "\<not> fib (Suc (Suc n)) < 2 ^ 64 \<Longrightarrow> fibonacci_execute m = m\<lparr>fm_overflow := True\<rparr>"
proof -
  let ?new = "of_nat (fib (Suc n)) :: 64 word" and ?old = "of_nat (fib n) :: 64 word"
  have sum: "fm_get 0 m + fm_get 1 m = of_nat (fib (Suc (Suc n)))" using fm_get_held [OF assms(1)] by simp
  have u: "unat ?new = fib (Suc n)" using assms(2) by (simp add: unat_of_nat)
  show "fm_holds (of_nat (fib (Suc (Suc n)))) ?new (fibonacci_execute m) \<and> fm_overflow (fibonacci_execute m) = fm_overflow m"
    if "fib (Suc (Suc n)) < 2 ^ 64"
  proof -
    have "unat (of_nat (fib (Suc (Suc n))) :: 64 word) = fib (Suc (Suc n))"
      using that by (simp del: fib.simps add: unat_of_nat)
    then have "\<not> of_nat (fib (Suc (Suc n))) < ?new"
      using u fib_mono [of "Suc n"] by (simp del: fib.simps add: word_less_nat_alt)
    then show ?thesis using pushFibo_held(1) [OF assms(1)] unfolding fibonacci_execute_def sum by blast
  qed
  show "fibonacci_execute m = m\<lparr>fm_overflow := True\<rparr>" if "\<not> fib (Suc (Suc n)) < 2 ^ 64"
  proof -
    let ?s = "fib (Suc n) + fib n"
    have n: "fib n < 2 ^ 64" using assms(2) fib_mono [of n] by linarith
    have "?s mod 2 ^ 64 = ?s - 2 ^ 64"
      using that n assms(2) by (simp add: le_mod_geq)
    moreover have "?s - 2 ^ 64 < fib (Suc n)" using that n by simp
    ultimately have "of_nat ?s < ?new" using u by (simp only: word_less_nat_alt) (simp del: of_nat_add add: unat_of_nat)
    then have "of_nat (fib (Suc (Suc n))) < ?new" by simp
    then show ?thesis using pushFibo_held(2) [OF assms(1)] unfolding fibonacci_execute_def sum by blast
  qed
qed

text \<open>After \<open>n\<close> executions the memory holds the numbers \<open>n\<close> and \<open>n + 1\<close> exactly, as long as they fit into 64
  bits; no overflow is reported before, and the first number that does not fit is.\<close>

theorem fibonacci_exact:
  "fib (Suc n) < 2 ^ 64 \<Longrightarrow>
     fm_holds (of_nat (fib (Suc n))) (of_nat (fib n)) ((fibonacci_execute ^^ n) fibonacci_start) \<and>
     \<not> isOverflow ((fibonacci_execute ^^ n) fibonacci_start) \<and>
     isOverflow ((fibonacci_execute ^^ Suc n) fibonacci_start) = (2 ^ 64 \<le> fib (Suc (Suc n)))"
proof (induction n)
  case 0
  have "fm_holds (of_nat (fib (Suc 0))) (of_nat (fib 0)) fibonacci_start" "\<not> fm_overflow fibonacci_start"
    by (simp_all add: fm_holds_def fibonacci_start_def pushFibo_def fm_init_def Let_def)
  then show ?case using fibonacci_step(1) [of 0 fibonacci_start] by (simp add: isOverflow_def)
next
  case (Suc n)
  let ?m = "(fibonacci_execute ^^ n) fibonacci_start"
  have "fib (Suc n) < 2 ^ 64" using Suc.prems fib_mono [of "Suc n"] by linarith
  with Suc.IH have h: "fm_holds (of_nat (fib (Suc n))) (of_nat (fib n)) ?m" "\<not> fm_overflow ?m" "fib (Suc n) < 2 ^ 64"
    by (simp_all add: isOverflow_def)
  from fibonacci_step(1) [OF h(1,3) Suc.prems] h(2)
  have n: "fm_holds (of_nat (fib (Suc (Suc n)))) (of_nat (fib (Suc n))) (fibonacci_execute ?m)"
    "\<not> fm_overflow (fibonacci_execute ?m)" by simp_all
  show ?case using n fibonacci_step [OF n(1) Suc.prems]
    by (cases "fib (Suc (Suc (Suc n))) < 2 ^ 64") (auto simp: isOverflow_def not_less)
qed

section \<open>Lines on the screen\<close>

text \<open>The input channel with the last line read, the output channel with the last line written.\<close>

record 'p line_system =
  lastInputString :: string
  lastLine :: string
  ls_world :: "'p world"

definition print_line :: "string \<Rightarrow> 'p line_system \<Rightarrow> 'p line_system" where
  "print_line line s = s\<lparr>lastLine := line\<rparr>"

text \<open>One round of the loop that reads the standard input: \<open>line\<close> is what was typed, \<open>c\<close> the channel.\<close>

definition read_line :: "channel_id \<Rightarrow> string \<Rightarrow> 'p line_system \<Rightarrow> 'p line_system res" where
  "read_line c line s = bindR (channel_push c (ls_world s)) (\<lambda>w. Inr (s\<lparr>lastInputString := line, ls_world := w\<rparr>))"

text \<open>\<^verbatim>\<open>HandleKeyboardInput::execute\<close>; \<open>e\<close> is the event of the time out.\<close>

definition handle_input :: "event_id \<Rightarrow> 'p line_system \<Rightarrow> 'p line_system res" where
  "handle_input e s =
     (let s1 = print_line (lastLine s @ '' '' @ lastInputString s) s
      in bindR (trigger_event e 5000 (ls_world s1)) (\<lambda>w. Inr (s1\<lparr>ls_world := w\<rparr>)))"

text \<open>The line behind the first space, or nothing.\<close>

definition drop_word :: "string \<Rightarrow> string" where
  "drop_word line = (case dropWhile (\<lambda>c. c \<noteq> CHR '' '') line of [] \<Rightarrow> [] | (_ # rest) \<Rightarrow> rest)"

text \<open>\<^verbatim>\<open>ModifiyLastWrittenLine::execute\<close>\<close>

definition modify_line :: "event_id \<Rightarrow> 'p line_system \<Rightarrow> 'p line_system res" where
  "modify_line e s =
     (if length (lastLine s) > 0
      then let s1 = print_line (drop_word (lastLine s)) s
           in bindR (trigger_event e 3000 (ls_world s1)) (\<lambda>w. Inr (s1\<lparr>ls_world := w\<rparr>))
      else Inr s)"

text \<open>The task of \<^verbatim>\<open>timeOutExample.cpp\<close>, which does both, with input \<open>i\<close> for the lines.\<close>

definition handle_or_modify :: "input_id \<Rightarrow> event_id \<Rightarrow> 'p line_system \<Rightarrow> 'p line_system res" where
  "handle_or_modify i e s =
     (if input_isActivated (w_inputs (ls_world s) i) then handle_input e s else modify_line e s)"

lemma drop_word_shorter: "line \<noteq> [] \<Longrightarrow> length (drop_word line) < length line"
proof -
  assume "line \<noteq> []"
  moreover have "length (dropWhile (\<lambda>c. c \<noteq> CHR '' '') line) \<le> length line" by (rule length_dropWhile_le)
  ultimately show ?thesis by (auto simp: drop_word_def split: list.split)
qed

lemma drop_word_count:
  "count_list (drop_word line) (CHR '' '') = count_list line (CHR '' '') - 1"
  "CHR '' '' \<notin> set line \<Longrightarrow> drop_word line = []"
  by (induction line) (auto simp: drop_word_def)

text \<open>The words disappear one by one, until the line is empty; then the event is not triggered any more.\<close>

lemma lines_end: "(drop_word ^^ Suc (count_list line (CHR '' ''))) line = []"
proof (induction "count_list line (CHR '' '')" arbitrary: line)
  case 0
  then show ?case using drop_word_count(2) [of line] by (simp add: count_list_0_iff)
next
  case (Suc n)
  then have n: "n = count_list (drop_word line) (CHR '' '')" by (simp add: drop_word_count)
  have "(drop_word ^^ Suc n) (drop_word line) = []" using Suc.hyps(1) [OF n] n by simp
  then have "(drop_word ^^ Suc (Suc n)) line = []" by (simp only: funpow_Suc_right comp_apply)
  then show ?case using Suc.hyps(2) by simp
qed

lemma empty_line_rests: "lastLine s = [] \<Longrightarrow> modify_line e s = Inr s"
  by (simp add: modify_line_def)

section \<open>Networks\<close>

text \<open>A network is a list of actions, run with what the tasks of the example do in \<^verbatim>\<open>execute\<close>.\<close>

definition RunFor :: "(task_id \<Rightarrow> 'p world \<Rightarrow> 'p world res) \<Rightarrow> time \<Rightarrow> 'p action" where
  "RunFor app t w = call (schedule app t w)"

definition counted_push :: "channel_id \<Rightarrow> task_id \<Rightarrow> 'p world \<Rightarrow> 'p world res" where
  "counted_push c t w = bindR (count_calls t w) (push c)"

text \<open>\<^verbatim>\<open>periodicTaskExample.cpp\<close>: a task, task 0, triggered by an event, here with the relative timing.\<close>

definition periodic_network :: lifo_test where
  "periodic_network =
     [NewEvent 0, NamedTask 0 ''PeriodicTask'' [0], Configure 0 1 False, ConfigureInput 0 0 0, SetRelative 0 1000, Start True]"

lemma periodic_network_runs:
  "world_test (periodic_network @
     [Schedule 999, Calls 0 0, Schedule 1, Calls 0 1, Schedule 1000, Calls 0 2, Stop 0, Schedule 5000, Calls 0 2])"
  by (simp add: periodic_network_def task_create_named_def getIdentificationFromName_def id_loop.simps c_string_def
      world_eval cong: eval_cong)

text \<open>\<^verbatim>\<open>multiparallelExample.cpp\<close>: one event starts the parallel tasks \<open>ts\<close>, each of which pushes on a
  barrier, channel 1, that starts the example task, task 10. The program has ten
  parallel tasks, the run below has five.\<close>

definition parallel_network :: "task_id list \<Rightarrow> fifo_policy action list" where
  "parallel_network ts =
     [NewEvent 0, NewBarrier 1 (of_nat (length ts)), NamedTask 10 ''PeriodicTask'' [10], Configure 10 1 False] @
     concat (map (\<lambda>i. [NewTask i 0 [i], Configure i 1 False, ConfigureInput i 0 0]) ts) @
     [ConfigureInput 10 0 1, SetNow 0, SetRelative 0 1, Start True]"

definition parallel_execute :: "task_id \<Rightarrow> 'p world \<Rightarrow> 'p world res" where
  "parallel_execute t w = (if t = 10 then count_calls t w else push 1 w)"

lemma parallel_network_runs:
  "run_test (\<lambda>a w. a w) (parallel_network [0, 1, 2, 3, 4] @ [RunFor parallel_execute 0, Calls 10 0,
     RunFor parallel_execute 1, Calls 10 1, RunFor parallel_execute 1, Calls 10 2]) (world_init fifo_ops fifo_init)"
  by (simp add: parallel_network_def RunFor_def parallel_execute_def task_create_named_def getIdentificationFromName_def
      id_loop.simps c_string_def fifo_ops_def fifo_init_def fifo_queue_def fifo_nextTask_def world_eval cong: eval_cong)

text \<open>\<^verbatim>\<open>filterExample.cpp\<close>: the sensor, task 0, updates the raw data, channel 1; the filter, task 1, updates the
  filtered data, channel 2; the printer, task 2, waits for both.\<close>

definition filter_network :: "fifo_policy action list" where
  "filter_network =
     [NewEvent 0, NewChannel 1 0, NewChannel 2 0,
      NamedTask 0 ''SensorTask'' [0], Configure 0 1 False, ConfigureInput 0 0 0,
      NamedTask 1 ''FilterTask'' [1], Configure 1 1 False, ConfigureInput 1 0 1,
      NamedTask 2 ''PrinterTask'' [2, 3], Configure 2 1 False, Configure 3 1 False, ConfigureInput 2 0 1, ConfigureInput 2 1 2,
      SetPeriodic 0 500 1000, Start True]"

definition filter_execute :: "task_id \<Rightarrow> 'p world \<Rightarrow> 'p world res" where
  "filter_execute t = (if t = 0 then counted_push 1 t else if t = 1 then counted_push 2 t else count_calls t)"

abbreviation three_calls :: "uint \<Rightarrow> fifo_policy action list" where
  "three_calls n \<equiv> [Calls 0 n, Calls 1 n, Calls 2 n]"

lemma filter_network_runs:
  "run_test (\<lambda>a w. a w) (filter_network @ [RunFor filter_execute 999] @ three_calls 0 @ [RunFor filter_execute 1] @ three_calls 1 @
     [RunFor filter_execute 499] @ three_calls 1 @ [RunFor filter_execute 1] @ three_calls 2)
     (world_init fifo_ops fifo_init)"
  by (simp add: filter_network_def RunFor_def filter_execute_def counted_push_def task_create_named_def
      getIdentificationFromName_def id_loop.simps c_string_def fifo_ops_def fifo_init_def fifo_queue_def
      fifo_nextTask_def world_eval cong: eval_cong)

text \<open>\<^verbatim>\<open>customPlatformExample.cpp\<close>: the main channels 0 and 1, the channels 2 and 3 between the tasks and the sink,
  channel 4; task \<open>t\<close> pushes on channel \<open>t + 1\<close>. The words are left out.\<close>

definition echo_network :: "fifo_policy action list" where
  "echo_network =
     map (\<lambda>c. NewChannel c 0) [0, 1, 2, 3, 4] @
     [NewTask 1 0 [10, 11], Configure 10 1 False, Configure 11 1 False,
      NewTask 2 0 [20, 21], Configure 20 1 False, Configure 21 1 False,
      NewTask 3 0 [30, 31], Configure 30 1 False, Configure 31 1 False] @
     [ConfigureInput 1 0 0, ConfigureInput 1 1 1, ConfigureInput 2 0 2, ConfigureInput 2 1 0, ConfigureInput 3 1 3,
      ConfigureInput 3 0 1, Initialize, Start True, Push 0, ChannelReset 0]"

definition echo_execute :: "task_id \<Rightarrow> 'p world \<Rightarrow> 'p world res" where
  "echo_execute t = counted_push (t + 1) t"

text \<open>The words of the command line: one round of the loop.\<close>

definition EchoStep :: "'p action" where
  "EchoStep w = call (custom_step echo_execute w)"

definition echo_word :: "fifo_policy action list" where
  "echo_word = [Push 1, Push 0, EchoStep]"

lemmas echo_eval = echo_network_def echo_execute_def EchoStep_def echo_word_def ChannelReset_def counted_push_def custom_step_def
  custom_loop.simps handle_if_pending_def initialize_def count_initializations_def initializations_of_def
  fifo_ops_def fifo_init_def fifo_queue_def fifo_nextTask_def world_eval

lemma echo_network_runs:
  "run_test (\<lambda>a w. a w) (echo_network @ echo_word @ [Calls 1 1, Calls 2 1, Calls 3 1] @
     echo_word @ [Calls 1 2, Calls 2 2, Calls 3 2]) (world_init fifo_ops fifo_init)"
  by (simp add: echo_eval cong: eval_cong)

text \<open>The main program resets the channel after the first push, which shall not be used as trigger. But the
  reset of a channel does nothing: the inputs keep the notification.\<close>

theorem reset_keeps_trigger:
  "run_test (\<lambda>a w. a w) (echo_network @ [Activated 10 True, Activated 21 True]) (world_init fifo_ops fifo_init)"
  by (simp add: echo_eval cong: eval_cong)

end
