(* ===== verification/Spec2Isabelle.thy ===== *)
theory Spec2Isabelle
  imports PolicyFifo PolicyLifo PolicyPSlot ClockQueue TaskUtils EventProofs FifoReaderQueue DataChannels
    UnitTestScheduler Statistics ClockLinux LinuxExecutors ArchNone OutpostSignaler ArchOutpost OutpostExecutors ExecutorLife
    ClockThread ClockLife Soundness ClockTests PolicyTests InputTests TaskTests EventTests FifoReaderTests BufferTests
    Examples
begin

text \<open>
  The Tasking Framework is a C++ library for reactive programs. An application is a graph of
  tasks and channels: a push on a channel notifies the inputs connected to it; an input that has
  enough notifications tries to activate its task; a task whose inputs are activated is queued at
  its scheduler, and an executor takes it from the run queue, executes it and resets it. Events
  are channels that a clock pushes. This development models the framework (\<^verbatim>\<open>src\<close>,
  \<^verbatim>\<open>include\<close>), its channel library (\<^verbatim>\<open>channels\<close>), the execution model for Linux
  (\<^verbatim>\<open>arch/linux\<close>), the one without an operating system (\<^verbatim>\<open>arch/none\<close>) and the one
  over the OUTPOST library (\<^verbatim>\<open>arch/outpost\<close>).

  \<^bold>\<open>Conventions\<close> (theory \<open>Prelude\<close>). An object is addressed by a natural number, a pointer is an
  option of it, the memory of a class is a function from addresses to records, so that aliasing
  and linked lists are those of the code. Machine integers are words of their width. What has no
  defined behaviour in C++ - an access through a null pointer, a failed assertion, an access out
  of the bounds of an array, a signed overflow - and a loop that never ends is a fault, the left
  side of a result. Loops over linked lists are \<open>for_ptr\<close>, a partial function with the values
  "not finished", which becomes the fault \<open>Diverges\<close>; every theorem that gives a result of such a
  loop thereby says that it ends. Other loops without a structure to recurse on are partial
  functions or have a termination proof. There is no fuel. The relation \<open>chain\<close> between a linked
  list and the list of its addresses carries the proofs about them.

  \<^bold>\<open>Concurrency.\<close> The operations of the sequential theories take the critical sections of
  mutexes as they stand in the code; each operation is one step, and time stands still during it.
  \<open>RunQueue\<close> interleaves notifications, resets and executors at this grain. Three theories look
  closer: \<open>LinuxExecutors\<close> interleaves the critical sections of the executor threads,
  \<open>OutpostSignaler\<close> the accesses to the mutex and the semaphore of a signaler, and
  \<open>LockDiscipline\<close> every entering and leaving of a mutex.

  \<^bold>\<open>Run queue policies\<close> (\<^verbatim>\<open>schedulePolicy*.cpp\<close>). \<open>SchedulePolicy\<close>: the two virtual methods,
  sequences of calls, and the locale \<open>run_queue\<close>, the contract a scheduler relies on. \<open>PolicyFifo\<close>,
  \<open>PolicyLifo\<close>, \<open>PolicyPriority\<close>, \<open>PolicyPSlot\<close>: the four policies with their intrusive lists.
  The lemmas show that FIFO, priority and priority slot implement a list kept in the order of a key
  and meet the contract; that the policy with slots equals the one with a sorted list; and that
  LIFO delivers correctly only from an empty stack of new tasks.

  \<^bold>\<open>Clock queue\<close> (\<^verbatim>\<open>clock.cpp\<close>). \<open>Clock\<close>: the doubly linked queue of events, where the back
  pointers lead from the first event of one time to the last one of an earlier time. \<open>ClockProofs\<close>,
  \<open>ClockQueue\<close>: every operation refines one on the list of events sorted by time; fetching a due
  event is complete; the next start time is the earliest one as long as its hint is true.

  \<^bold>\<open>Tasks and channels\<close>. \<open>TaskUtils\<close>: identifications and names (\<^verbatim>\<open>taskUtils_impl.h\<close>).
  \<open>TaskInput\<close>: the counters of an input and the activation of an array of inputs
  (\<^verbatim>\<open>taskInput.cpp\<close>, \<^verbatim>\<open>taskInputArray.cpp\<close>). \<open>PeriodicSchedule\<close>: lists of triggers
  (\<^verbatim>\<open>taskPeriodicSchedule.cpp\<close>). \<open>World\<close>: the state that joins all objects of one scheduler, and
  the operations across them, one definition per method of \<^verbatim>\<open>task.cpp\<close>, \<^verbatim>\<open>taskChannel.cpp\<close>,
  \<^verbatim>\<open>taskBarrier.cpp\<close>, \<^verbatim>\<open>taskGroup.cpp\<close>, \<^verbatim>\<open>taskEvent.cpp\<close> and \<^verbatim>\<open>scheduler.cpp\<close>, the
  policy and the application's \<^verbatim>\<open>execute\<close> being parameters. \<open>RunQueue\<close>: in the locale of the
  contract, every interleaving keeps the run queue free of duplicates and equal to the tasks
  waiting in state \<^verbatim>\<open>TASK_RUN\<close>; interpreted for three policies. \<open>Activation\<close>: notifications kept
  over a reset activate the task again; groups; barriers. \<open>EventProofs\<close>: lemmas on starting and stopping
  events. \<open>EventLoop\<close>: where a periodic event is started, and started again without drift; the loop over the pending
  events ends, and pushes each event as often as it is due. \<open>Wiring\<close>: the set-up of an application as an inductive set of worlds, whose object graph
  is typed. \<open>Soundness\<close>: after such a set-up, no run of pushes, executions and events faults, as long as no
  event is started for the present time or with a schedule of triggers. The theorems about the run queue, pushes, events and the
  absence of faults hold for every policy that meets the contract of \<open>SchedulePolicy\<close> and accepts every task that does not wait;
  their witnesses use the FIFO policy.

  \<^bold>\<open>Data channels\<close> (\<^verbatim>\<open>channels\<close>). \<open>FifoGeneric\<close>: the generic FIFO with its readers.
  \<open>FifoQueue\<close>: without readers it implements three lists. \<open>FifoReaders\<close>: the bits of the readers,
  and faults. \<open>FifoReaderLists\<close>, \<open>FifoReaderQueue\<close>: with up to eight readers it implements lists of unused,
  allocated and queued elements, and for each reader those it has popped and those it has still to
  pop; an element is unused again when the last reader gives it back. \<open>DataChannels\<close>: signal channel, buffers and the typed
  FIFO over the push of the world.

  \<^bold>\<open>Execution models\<close>. \<open>UnitTestScheduler\<close>: the scheduler with simulated time; executing ends and
  leaves nothing in the run queue. \<open>ClockLinux\<close>: time arithmetic. \<open>ClockThread\<close>: the clock thread among
  the threads that use the queue; as long as the hint of the queue is true, it sleeps no longer than to the next event and
  the time that passes between its two reads of the clock. \<open>LinuxExecutors\<close>: threads, the
  list of free executors, \<^verbatim>\<open>signal\<close> and \<^verbatim>\<open>waitUntilEmpty\<close> as a step relation; no executor gets
  out of reach, but a wake-up can be lost. \<open>ExecutorLife\<close>, \<open>ClockLife\<close>: start, the flag \<^verbatim>\<open>running\<close> and join
  of an executor and of the clock thread; the joins return. \<open>OutpostSignaler\<close>: a monitor over a binary
  semaphore, in which a signal gets a thread out of the wait if one is in it, and is forgotten otherwise. \<open>OutpostExecutors\<close>: the list of free executors over it. \<open>Statistics\<close>: counters and maxima.

  \<^bold>\<open>Locks\<close>. \<open>LockDiscipline\<close>: programs of entering and leaving mutexes, threads that run them, and
  the locale \<open>ordered_locks\<close>: where every routine enters mutexes by increasing rank only, some thread
  that is neither done nor asleep in the wait of a condition can always go on, and a sleeping thread holds no mutex; whether
  a sleeping thread is ever woken is the matter of \<open>LinuxExecutors\<close>. \<open>LockOrder\<close>: the mutexes each method of the framework enters, with the Linux
  threads; \<open>ArchNone\<close>: without an operating system, where the asserting mutexes never fail;
  \<open>ArchOutpost\<close>: the clock and the threads over OUTPOST. Each interprets the locale.

  Several theorems show where the code departs from its purpose or its documentation; each is
  named after what goes wrong. Those about the clock queue, the clock thread and the readers of a FIFO hold for any state of the
  kind they describe; the others compute a run of the code.

  \<^bold>\<open>Examples\<close>. \<open>CustomPlatform\<close>: the port of the framework to a platform without threads
  (\<^verbatim>\<open>examples/customPlatform\<close>), whose steps are those of the unit test scheduler as long as no
  event waits. \<open>Examples\<close>: the memory of the Fibonacci numbers, exact up to the first overflow, which is
  reported; the lines of the two programs that remove words; and the networks of tasks of the other programs,
  run under the scheduler for unit tests.

  \<^bold>\<open>Unit tests\<close> (\<^verbatim>\<open>test\<close>, \<^verbatim>\<open>channels/test\<close>). \<open>TestBench\<close> runs lists of calls
  and expectations; \<open>ClockTests\<close>, \<open>PolicyTests\<close>, \<open>InputTests\<close>, \<open>TaskTests\<close>, \<open>EventTests\<close>,
  \<open>FifoTests\<close>, \<open>FifoReaderTests\<close> and \<open>BufferTests\<close> hold the tests of the repository, one
  definition per test with its name, and the model passes them all: what the authors of the code expect of it
  is what the definitions here do. Left out are the tests that overload \<^verbatim>\<open>reset\<close>,
  \<^verbatim>\<open>synchronizeStart\<close>, \<^verbatim>\<open>shallFire\<close> or \<^verbatim>\<open>onFire\<close> to count their calls, and a condition
  of an array that reads a channel, because the model fixes these methods.

  \<^bold>\<open>Not modelled\<close>: of the model for OUTPOST, the library itself - its times are arguments, its
  mutex and semaphore are taken by their documented behaviour; Google Test and the build files; the templates of the
  headers that only provide memory; of the examples, the input and output, the arithmetic of the filter with floating
  point numbers and the words of the custom platform.
\<close>

end
